(* ===== verification/Prelude.thy ===== *)
theory Prelude
  imports
    Main
    "HOL-Library.Word"
    "HOL-Library.List_Lexorder"
    "HOL-Library.Char_ord"
    "HOL-Library.Product_Lexorder"
    "HOL-Library.Multiset"
begin

text \<open>
  Shared vocabulary of the development: the machine integers and byte strings of the Rust
  sources, saturating arithmetic on words, the result type of fallible code, and generic
  lemmas on lists and words that the component theories rely on.

  A Rust \<^verbatim>\<open>String\<close> is its sequence of bytes, so \<open>length\<close> is \<^verbatim>\<open>str::len\<close> and the
  lexicographic order of \<open>HOL-Library.List_Lexorder\<close> is \<^verbatim>\<open>Ord for str\<close>. Lengths and other
  \<^verbatim>\<open>usize\<close> values that count objects in memory are natural numbers.
\<close>

type_synonym u8 = "8 word"
type_synonym u32 = "32 word"
type_synonym u64 = "64 word"
type_synonym bytes = "u8 list"

text \<open>\<^verbatim>\<open>Result<T, String>\<close>: \<open>Inl\<close> is \<^verbatim>\<open>Err\<close> and \<open>Inr\<close> is \<^verbatim>\<open>Ok\<close>.\<close>

type_synonym 'a rust_result = "string + 'a"

named_theorems btree_laws "lookup laws of the ordered map operations"
named_theorems keeps_inv "operations that keep an invariant"
named_theorems frame "fields an operation leaves alone"

section \<open>Saturating arithmetic\<close>

definition saturating_add :: "'a::len word \<Rightarrow> 'a word \<Rightarrow> 'a word" where
  "saturating_add x y = (if x + y < x then - 1 else x + y)"

definition saturating_sub :: "'a::len word \<Rightarrow> 'a word \<Rightarrow> 'a word" where
  "saturating_sub x y = (if x < y then 0 else x - y)"

lemma unat_minus_one: "unat (- 1 :: 'a::len word) = 2 ^ LENGTH('a) - 1"
  by (simp add: unsigned_minus_1_eq_mask mask_eq_exp_minus_1)

lemma unat_saturating_add:
  fixes x y :: "'a::len word"
  shows "unat (saturating_add x y) = min (unat x + unat y) (2 ^ LENGTH('a) - 1)"
proof (cases "unat x + unat y < 2 ^ LENGTH('a)")
  case True
  then have "unat (x + y) = unat x + unat y"
    by (simp add: unat_word_ariths)
  with True show ?thesis
    by (simp add: saturating_add_def word_less_nat_alt)
next
  case False
  have y: "unat y < 2 ^ LENGTH('a)" and x: "unat x < 2 ^ LENGTH('a)"
    by (rule unsigned_less)+
  have small: "unat x + unat y - 2 ^ LENGTH('a) < 2 ^ LENGTH('a)"
    using x y by linarith
  have "unat (x + y) = (unat x + unat y) mod 2 ^ LENGTH('a)"
    by (rule unat_word_ariths)
  also have "\<dots> = unat x + unat y - 2 ^ LENGTH('a)"
    using False mod_less [OF small] by (simp add: le_mod_geq)
  finally have sum: "unat (x + y) = unat x + unat y - 2 ^ LENGTH('a)" .
  with y False have "unat (x + y) < unat x" by linarith
  then have "unat (saturating_add x y) = unat (- 1 :: 'a word)"
    by (simp add: saturating_add_def word_less_nat_alt)
  with False show ?thesis by (simp add: unat_minus_one)
qed

lemma unat_saturating_sub: "unat (saturating_sub x y) = unat x - unat y"
  by (simp add: saturating_sub_def word_less_nat_alt unat_sub_if')

lemma unat_le_max: "unat (x :: 'a::len word) \<le> 2 ^ LENGTH('a) - 1"
  using unsigned_less [of x, where 'a = nat] by linarith

lemma saturating_add_ge [simp]: "x \<le> saturating_add x y"
  using unat_le_max [of x] by (simp add: word_le_nat_alt unat_saturating_add)

lemma word_not_max_iff: "x \<noteq> - 1 \<longleftrightarrow> unat (x :: 'a::len word) < 2 ^ LENGTH('a) - 1"
  using unat_le_max [of x] by (auto simp: word_unat_eq_iff unat_minus_one)

lemma less_saturating_add_one:
  fixes x y :: "'a::len word"
  assumes "x \<noteq> - 1"
  shows "y < saturating_add x 1 \<longleftrightarrow> y \<le> x"
  using assms by (auto simp: word_not_max_iff word_less_nat_alt word_le_nat_alt unat_saturating_add)

lemma saturating_add_one_greater:
  fixes x :: "'a::len word"
  assumes "x \<noteq> - 1"
  shows "x < saturating_add x 1"
  using assms by (simp add: less_saturating_add_one)

lemma saturating_add_one_le:
  fixes x y :: "'a::len word"
  assumes "x < y"
  shows "saturating_add x 1 \<le> y"
  using assms unat_le_max [of y] by (auto simp: word_less_nat_alt word_le_nat_alt unat_saturating_add)

section \<open>Lists\<close>

text \<open>The \<^verbatim>\<open>for ... break\<close> loops of the sources visit a prefix of an ordered sequence.\<close>

lemma sorted_wrt_takeWhile_set:
  "sorted_wrt (<) (xs :: 'a::linorder list) \<Longrightarrow> set (takeWhile (\<lambda>x. x < b) xs) = {x \<in> set xs. x < b}"
  by (induction xs) (auto dest: order.strict_trans)

lemma foldl_invariant:
  assumes "P s" and "\<And>s x. x \<in> set xs \<Longrightarrow> P s \<Longrightarrow> P (f s x)"
  shows "P (foldl f s xs)"
  using assms by (induction xs arbitrary: s) auto

lemma foldl_same:
  assumes "\<And>x. x \<in> set xs \<Longrightarrow> f s x = s"
  shows "foldl f s xs = s"
  using assms by (induction xs) auto

lemma disjoint_imageI: "(\<And>x. x \<in> A \<Longrightarrow> f x \<notin> B) \<Longrightarrow> B \<inter> f ` A = {}"
  by blast

end
