(* ===== verification/BTree_Map.thy ===== *)
theory BTree_Map
  imports Prelude
begin

text \<open>
  The ordered maps of the sources (\<^verbatim>\<open>std::collections::BTreeMap\<close>). A map is represented by
  its entries in strictly increasing key order; the order is an invariant of the type, as it
  is in Rust, so that equal maps are equal values. Every operation is executable and comes
  with its lookup law (collection \<open>btree_laws\<close>).
\<close>

section \<open>The type\<close>

typedef (overloaded) ('k, 'v) btree = "{xs :: ('k::linorder \<times> 'v) list. sorted_wrt (<) (map fst xs)}"
  morphisms entries Btree
  by (rule exI [of _ "[]"]) simp

setup_lifting type_definition_btree

lemma sorted_entries [simp, intro]: "sorted_wrt (<) (map fst (entries m))"
  using entries [of m] by simp

lemma distinct_entries [simp, intro]: "distinct (map fst (entries m))"
  using sorted_entries strict_sorted_iff by blast

lemma btree_eq_iff: "m = m' \<longleftrightarrow> entries m = entries m'"
  by (simp add: entries_inject)

text \<open>Keys are compared with their order, so equality of maps needs equality of values only.\<close>

instantiation btree :: (linorder, equal) equal
begin

definition equal_btree :: "('a, 'b) btree \<Rightarrow> ('a, 'b) btree \<Rightarrow> bool" where
  "equal_btree m m' \<longleftrightarrow> list_all2 (\<lambda>(k, v) (k', v'). k \<le> k' \<and> k' \<le> k \<and> v = v') (entries m) (entries m')"

instance
proof
  fix m m' :: "('a, 'b) btree"
  have "(\<lambda>(k, v) (k', v'). k \<le> k' \<and> k' \<le> k \<and> v = v') = ((=) :: 'a \<times> 'b \<Rightarrow> 'a \<times> 'b \<Rightarrow> bool)"
    by (auto simp: fun_eq_iff)
  then show "HOL.equal m m' \<longleftrightarrow> m = m'"
    unfolding equal_btree_def by (simp add: list.rel_eq btree_eq_iff)
qed

end

section \<open>Operations\<close>

fun insert_entry :: "'k::linorder \<Rightarrow> 'v \<Rightarrow> ('k \<times> 'v) list \<Rightarrow> ('k \<times> 'v) list" where
  "insert_entry k v [] = [(k, v)]"
| "insert_entry k v ((k', v') # es) =
     (if k < k' then (k, v) # (k', v') # es
      else if k = k' then (k, v) # es
      else (k', v') # insert_entry k v es)"

lemma set_insert_entry_keys: "fst ` set (insert_entry k v es) = insert k (fst ` set es)"
  by (induction k v es rule: insert_entry.induct) auto

lemma sorted_insert_entry:
  "sorted_wrt (<) (map fst es) \<Longrightarrow> sorted_wrt (<) (map fst (insert_entry k v es))"
proof (induction k v es rule: insert_entry.induct)
  case (2 k v k' v' es)
  have "\<And>x. x \<in> set (insert_entry k v es) \<Longrightarrow> fst x = k \<or> fst x \<in> fst ` set es"
    using set_insert_entry_keys [of k v es] by blast
  with 2 show ?case by (fastforce dest: order.strict_trans)
qed simp

lemma map_of_insert_entry:
  "sorted_wrt (<) (map fst es) \<Longrightarrow> map_of (insert_entry k v es) = (map_of es)(k \<mapsto> v)"
  by (induction k v es rule: insert_entry.induct) (auto simp: fun_eq_iff)

lift_definition bempty :: "('k::linorder, 'v) btree" is "[]"
  by simp

lift_definition bget :: "('k::linorder, 'v) btree \<Rightarrow> 'k \<Rightarrow> 'v option" is map_of .

lift_definition binsert :: "'k::linorder \<Rightarrow> 'v \<Rightarrow> ('k, 'v) btree \<Rightarrow> ('k, 'v) btree" is insert_entry
  by (rule sorted_insert_entry)

lift_definition bretain :: "('k::linorder \<Rightarrow> 'v \<Rightarrow> bool) \<Rightarrow> ('k, 'v) btree \<Rightarrow> ('k, 'v) btree"
  is "\<lambda>P. filter (\<lambda>(k, v). P k v)"
  by (simp add: sorted_wrt_map sorted_wrt_filter)

lift_definition bmap :: "('k::linorder \<Rightarrow> 'v \<Rightarrow> 'w) \<Rightarrow> ('k, 'v) btree \<Rightarrow> ('k, 'w) btree"
  is "\<lambda>f. map (\<lambda>(k, v). (k, f k v))"
  by (simp add: sorted_wrt_map case_prod_beta)

definition bremove :: "'k::linorder \<Rightarrow> ('k, 'v) btree \<Rightarrow> ('k, 'v) btree" where
  "bremove k m = bretain (\<lambda>k' _. k' \<noteq> k) m"

definition bmodify :: "'k::linorder \<Rightarrow> ('v \<Rightarrow> 'v) \<Rightarrow> ('k, 'v) btree \<Rightarrow> ('k, 'v) btree" where
  "bmodify k f m = (case bget m k of None \<Rightarrow> m | Some v \<Rightarrow> binsert k (f v) m)"

definition bcontains :: "('k::linorder, 'v) btree \<Rightarrow> 'k \<Rightarrow> bool" where
  "bcontains m k \<longleftrightarrow> bget m k \<noteq> None"

definition bkeys :: "('k::linorder, 'v) btree \<Rightarrow> 'k list" where
  "bkeys m = map fst (entries m)"

definition bvalues :: "('k::linorder, 'v) btree \<Rightarrow> 'v list" where
  "bvalues m = map snd (entries m)"

definition blen :: "('k::linorder, 'v) btree \<Rightarrow> nat" where
  "blen m = length (entries m)"

definition bis_empty :: "('k::linorder, 'v) btree \<Rightarrow> bool" where
  "bis_empty m \<longleftrightarrow> entries m = []"

definition bfirst_key :: "('k::linorder, 'v) btree \<Rightarrow> 'k option" where
  "bfirst_key m = (case entries m of [] \<Rightarrow> None | e # _ \<Rightarrow> Some (fst e))"

definition blast_key :: "('k::linorder, 'v) btree \<Rightarrow> 'k option" where
  "blast_key m = (if entries m = [] then None else Some (fst (last (entries m))))"

text \<open>\<^verbatim>\<open>range(lo..)\<close>, \<^verbatim>\<open>range(lo..hi)\<close> and the part at or above a key that \<^verbatim>\<open>split_off\<close> returns.\<close>

definition brange_from :: "'k::linorder \<Rightarrow> ('k, 'v) btree \<Rightarrow> ('k \<times> 'v) list" where
  "brange_from lo m = filter (\<lambda>(k, _). lo \<le> k) (entries m)"

definition brange :: "'k::linorder \<Rightarrow> 'k \<Rightarrow> ('k, 'v) btree \<Rightarrow> ('k \<times> 'v) list" where
  "brange lo hi m = filter (\<lambda>(k, _). lo \<le> k \<and> k < hi) (entries m)"

definition bsplit_off :: "'k::linorder \<Rightarrow> ('k, 'v) btree \<Rightarrow> ('k, 'v) btree" where
  "bsplit_off k m = bretain (\<lambda>k' _. k \<le> k') m"

text \<open>\<^verbatim>\<open>collect()\<close> of a sequence of pairs: later pairs overwrite earlier ones.\<close>

definition bof_list :: "('k::linorder \<times> 'v) list \<Rightarrow> ('k, 'v) btree" where
  "bof_list kvs = foldl (\<lambda>m (k, v). binsert k v m) bempty kvs"

section \<open>Lookup laws\<close>

lemma bget_entries: "bget m k = Some v \<longleftrightarrow> (k, v) \<in> set (entries m)"
  by transfer (simp add: strict_sorted_iff)

lemma bget_empty [simp, btree_laws]: "bget bempty k = None"
  by transfer simp

lemma bget_insert [simp, btree_laws]: "bget (binsert k v m) k' = (if k' = k then Some v else bget m k')"
  by transfer (simp add: map_of_insert_entry)

lemma map_of_filter_key:
  "distinct (map fst es) \<Longrightarrow>
   map_of (filter (\<lambda>(k, v). P k v) es) k = (case map_of es k of None \<Rightarrow> None | Some v \<Rightarrow> if P k v then Some v else None)"
proof (induction es)
  case (Cons e es)
  obtain k' v' where e: "e = (k', v')" by (cases e)
  with Cons have "k' \<notin> fst ` set es" by simp
  then have "map_of es k' = None" by (simp add: map_of_eq_None_iff)
  with Cons e show ?case by (auto split: option.splits)
qed simp

lemma bget_retain:
  "bget (bretain P m) k = (case bget m k of None \<Rightarrow> None | Some v \<Rightarrow> if P k v then Some v else None)"
  by transfer (simp add: map_of_filter_key strict_sorted_iff)

lemma bget_retain_Some [simp, btree_laws]: "bget (bretain P m) k = Some v \<longleftrightarrow> bget m k = Some v \<and> P k v"
  by (auto simp: bget_retain split: option.splits if_splits)

lemma bget_retain_None [simp, btree_laws]: "bget (bretain P m) k = None \<longleftrightarrow> (\<forall>v. bget m k = Some v \<longrightarrow> \<not> P k v)"
  by (auto simp: bget_retain split: option.splits if_splits)

lemma map_of_map_values: "map_of (map (\<lambda>(k, v). (k, f k v)) es) k = map_option (f k) (map_of es k)"
  by (induction es) auto

lemma bget_map [simp, btree_laws]: "bget (bmap f m) k = map_option (f k) (bget m k)"
  by transfer (rule map_of_map_values)

lemma bget_remove [simp, btree_laws]: "bget (bremove k m) k' = (if k' = k then None else bget m k')"
  by (auto simp: bremove_def bget_retain split: option.splits)

lemma bget_modify [simp, btree_laws]:
  "bget (bmodify k f m) k' = (if k' = k then map_option f (bget m k) else bget m k')"
  by (auto simp: bmodify_def split: option.splits)

lemma bget_split_off [simp, btree_laws]: "bget (bsplit_off k m) k' = (if k \<le> k' then bget m k' else None)"
  by (auto simp: bsplit_off_def bget_retain split: option.splits)

lemma bcontains_iff: "bcontains m k \<longleftrightarrow> (\<exists>v. bget m k = Some v)"
  by (simp add: bcontains_def)

section \<open>Keys, entries and extensionality\<close>

lemma sorted_bkeys [simp, intro]: "sorted_wrt (<) (bkeys m)"
  by (simp add: bkeys_def)

lemma distinct_bkeys [simp, intro]: "distinct (bkeys m)"
  by (simp add: bkeys_def)

lemma length_bkeys [simp]: "length (bkeys m) = blen m"
  by (simp add: bkeys_def blen_def)

lemma in_bkeys: "k \<in> set (bkeys m) \<longleftrightarrow> bget m k \<noteq> None"
  by (auto simp: bkeys_def simp flip: bget_entries) (force simp: bget_entries)

lemma in_bvalues: "v \<in> set (bvalues m) \<longleftrightarrow> (\<exists>k. bget m k = Some v)"
  by (force simp: bvalues_def bget_entries)

lemma entries_by_keys: "entries m = map (\<lambda>k. (k, the (bget m k))) (bkeys m)"
proof -
  have "map (\<lambda>k. (k, the (bget m k))) (map fst (entries m)) = map (\<lambda>e. e) (entries m)"
    unfolding map_map o_def
  proof (rule map_cong [OF refl])
    fix e assume "e \<in> set (entries m)"
    then have "bget m (fst e) = Some (snd e)" by (simp add: bget_entries)
    then show "(fst e, the (bget m (fst e))) = e" by simp
  qed
  then show ?thesis by (simp add: bkeys_def)
qed

lemma btree_eqI:
  assumes "\<And>k. bget m k = bget m' k"
  shows "m = m'"
proof -
  have "set (bkeys m) = set (bkeys m')"
    using assms by (auto simp: in_bkeys)
  then have "bkeys m = bkeys m'"
    by (metis sorted_bkeys strict_sorted_iff sorted_distinct_set_unique)
  with assms show ?thesis
    by (simp add: btree_eq_iff entries_by_keys)
qed

lemma btree_eqI_Some:
  assumes "\<And>k v. bget m k = Some v \<longleftrightarrow> bget m' k = Some v"
  shows "m = m'"
proof (rule btree_eqI)
  fix k
  show "bget m k = bget m' k"
  proof (cases "bget m k")
    case None
    with assms have "bget m' k \<noteq> Some v" for v by (metis option.distinct(1))
    then have "bget m' k = None" by (cases "bget m' k") auto
    with None show ?thesis by simp
  next
    case (Some v)
    with assms show ?thesis by simp
  qed
qed

lemma dom_bget: "dom (bget m) = set (bkeys m)"
  by (auto simp: in_bkeys)

lemma finite_dom_bget [simp]: "finite (dom (bget m))"
  by (simp add: dom_bget)

lemma card_dom_bget: "card (dom (bget m)) = blen m"
  by (simp add: dom_bget distinct_card)

lemma bis_empty_iff: "bis_empty m \<longleftrightarrow> (\<forall>k. bget m k = None)"
proof -
  have "entries m = [] \<longleftrightarrow> bkeys m = []" by (simp add: bkeys_def)
  also have "\<dots> \<longleftrightarrow> set (bkeys m) = {}" by simp
  also have "\<dots> \<longleftrightarrow> (\<forall>k. bget m k = None)" by (auto simp: in_bkeys set_eq_iff)
  finally show ?thesis by (simp add: bis_empty_def)
qed

lemma blen_0_iff: "blen m = 0 \<longleftrightarrow> bis_empty m"
  by (simp add: blen_def bis_empty_def)

lemma blen_empty [simp]: "blen bempty = 0" "bis_empty bempty" "entries bempty = []"
  "bkeys bempty = []" "bvalues bempty = []"
  by (simp_all add: blen_def bis_empty_def bempty.rep_eq bkeys_def bvalues_def)

lemma blen_insert: "blen (binsert k v m) = (if bcontains m k then blen m else Suc (blen m))"
proof -
  have "dom (bget (binsert k v m)) = insert k (dom (bget m))" by auto
  then have "blen (binsert k v m) = card (insert k (dom (bget m)))" by (metis card_dom_bget)
  then show ?thesis
    by (simp add: card_insert_if card_dom_bget bcontains_def domIff)
qed

lemma blen_mono:
  assumes "\<And>k. bget m k \<noteq> None \<Longrightarrow> bget m' k \<noteq> None"
  shows "blen m \<le> blen m'"
  unfolding card_dom_bget [symmetric] by (rule card_mono) (use assms in auto)

lemma blen_retain_le [simp]: "blen (bretain P m) \<le> blen m"
  by (rule blen_mono) auto

lemma blen_map [simp]: "blen (bmap f m) = blen m"
  by (simp add: blen_def bmap.rep_eq)

lemma blen_remove_le [simp]: "blen (bremove k m) \<le> blen m"
  by (simp add: bremove_def)

lemma blen_modify [simp]: "blen (bmodify k f m) = blen m"
  by (auto simp: bmodify_def blen_insert bcontains_def split: option.splits)

lemma bretain_all: "(\<And>k v. bget m k = Some v \<Longrightarrow> P k v) \<Longrightarrow> bretain P m = m"
  by (rule btree_eqI_Some) auto

lemma bretain_same_len: "blen (bretain P m) = blen m \<longleftrightarrow> bretain P m = m"
proof
  assume "blen (bretain P m) = blen m"
  then have "length (filter (\<lambda>(k, v). P k v) (entries m)) = length (entries m)"
    by (simp add: blen_def bretain.rep_eq)
  then have "filter (\<lambda>(k, v). P k v) (entries m) = entries m"
    by (metis filter_id_conv length_filter_less less_irrefl)
  then show "bretain P m = m" by (simp add: btree_eq_iff bretain.rep_eq)
qed simp

section \<open>Minimum, ranges and collection\<close>

lemma bfirst_key_None [simp]: "bfirst_key m = None \<longleftrightarrow> bis_empty m"
  by (simp add: bfirst_key_def bis_empty_def split: list.splits)

lemma bfirst_key_Some:
  "bfirst_key m = Some k \<longleftrightarrow> bget m k \<noteq> None \<and> (\<forall>k'. bget m k' \<noteq> None \<longrightarrow> k \<le> k')"
proof -
  have keys: "bget m k' \<noteq> None \<longleftrightarrow> k' \<in> set (map fst (entries m))" for k'
    using in_bkeys [of k' m] by (simp add: bkeys_def)
  have first: "bfirst_key m = (case map fst (entries m) of [] \<Rightarrow> None | k # _ \<Rightarrow> Some k)"
    by (simp add: bfirst_key_def split: list.splits)
  have "sorted_wrt (<) (map fst (entries m))" by simp
  then show ?thesis
    unfolding first keys
    by (cases "map fst (entries m)") (auto intro: antisym less_imp_le)
qed

lemma set_brange_from: "set (brange_from lo m) = {(k, v). bget m k = Some v \<and> lo \<le> k}"
  by (auto simp: brange_from_def bget_entries)

lemma sorted_brange_from: "sorted_wrt (<) (map fst (brange_from lo m))"
  using sorted_entries [of m] unfolding brange_from_def
  by (simp add: sorted_wrt_map sorted_wrt_filter)

lemma set_brange: "set (brange lo hi m) = {(k, v). bget m k = Some v \<and> lo \<le> k \<and> k < hi}"
  by (auto simp: brange_def bget_entries)

lemma bget_of_list_snoc: "bget (bof_list (kvs @ [(k, v)])) = (bget (bof_list kvs))(k \<mapsto> v)"
  by (auto simp: bof_list_def)

lemma bget_of_list: "bget (bof_list kvs) = map_of (rev kvs)"
proof (induction kvs rule: rev_induct)
  case (snoc kv kvs)
  obtain k v where "kv = (k, v)" by (cases kv)
  with snoc show ?case by (simp add: bget_of_list_snoc)
qed (simp add: bof_list_def fun_eq_iff)

section \<open>Evaluation\<close>

text \<open>
  A map on a concrete input is evaluated to the literal list of its entries, by the rules
  \<open>btree_eval\<close> with \<open>simp\<close> or by the code equations.
\<close>

lift_definition bliteral :: "('k::linorder \<times> 'v) list \<Rightarrow> ('k, 'v) btree"
  is "\<lambda>es. if sorted_wrt (<) (map fst es) then es else []"
  by simp

lemma bliteral_entries: "bliteral (entries m) = m"
  by (simp add: btree_eq_iff bliteral.rep_eq)

lemma entries_bliteral: "sorted_wrt (<) (map fst es) \<Longrightarrow> entries (bliteral es) = es"
  by (simp add: bliteral.rep_eq)

lemma binsert_code [code]: "binsert k v m = bliteral (insert_entry k v (entries m))"
  by (metis binsert.rep_eq bliteral_entries)

lemma bretain_code [code]: "bretain P m = bliteral (filter (\<lambda>(k, v). P k v) (entries m))"
  by (metis bretain.rep_eq bliteral_entries)

lemma bmap_code [code]: "bmap f m = bliteral (map (\<lambda>(k, v). (k, f k v)) (entries m))"
  by (metis bmap.rep_eq bliteral_entries)

lemma bempty_literal: "bempty = bliteral []"
  by (simp add: btree_eq_iff bliteral.rep_eq bempty.rep_eq)

lemma literal_eval:
  assumes "sorted_wrt (<) (map fst es)"
  shows "bget (bliteral es) k = map_of es k"
    and "binsert k v (bliteral es) = bliteral (insert_entry k v es)"
    and "bretain P (bliteral es) = bliteral (filter (\<lambda>(k, v). P k v) es)"
    and "bmap f (bliteral es) = bliteral (map (\<lambda>(k, v). (k, f k v)) es)"
  using assms by (simp_all add: bget.rep_eq binsert_code bretain_code bmap_code entries_bliteral)

lemmas btree_eval = entries_bliteral bempty_literal literal_eval bremove_def bmodify_def bcontains_def bkeys_def bvalues_def
  blen_def bis_empty_def bfirst_key_def blast_key_def brange_from_def brange_def bsplit_off_def bof_list_def

end
