(* ===== verification/Wire_Types.thy ===== *)
theory Wire_Types
  imports BTree_Map
begin

text \<open>
  The identifiers, messages, replicated requests and responses of
  \<^verbatim>\<open>crates/hermesmq-core/src/types.rs\<close> and \<^verbatim>\<open>crates/hermesmq-core/src/raft.rs\<close>. The newtypes
  \<^verbatim>\<open>TopicId\<close>, \<^verbatim>\<open>GroupId\<close> and \<^verbatim>\<open>Priority\<close> wrap one value and are type synonyms here. Record
  fields carry a short prefix because several structs share field names.
\<close>

type_synonym NodeId = u64
type_synonym Offset = u64
type_synonym LeaseId = u64
type_synonym TopicId = string
type_synonym GroupId = string
type_synonym Priority = u8

datatype ContentType = Raw | Text | Json | MsgPack

record Message =
  m_offset :: Offset
  m_priority :: Priority
  m_content_type :: ContentType
  m_payload :: bytes
  m_ts_ms :: u64

record ProduceItem =
  p_topic :: TopicId
  p_priority :: Priority
  p_content_type :: ContentType
  p_payload :: bytes
  p_producer_id :: string
  p_seq :: u64
  p_ts_ms :: u64

record Delivered =
  d_lease_id :: LeaseId
  d_offset :: Offset
  d_priority :: Priority
  d_content_type :: ContentType
  d_payload :: bytes
  d_ts_ms :: u64

text \<open>
  \<^verbatim>\<open>AppRequest::Produce\<close> has the fields of \<^verbatim>\<open>ProduceItem\<close>, in the same order. The variants are
  in the order of the source, which is their postcard index.
\<close>

datatype AppRequest =
    Produce TopicId Priority ContentType bytes string u64 u64
  | Poll TopicId GroupId u32 u64 u64
  | Ack TopicId GroupId LeaseId
  | Nack TopicId GroupId LeaseId
  | CommitOffset TopicId GroupId Offset
  | CreateTopic TopicId
  | DeleteTopic TopicId
  | SetRateLimit TopicId u64 u32
  | SetRetention TopicId u64 u64
  | AckMany TopicId GroupId "LeaseId list"
  | ProduceMany "ProduceItem list"
  | NackMany TopicId GroupId "LeaseId list"
  | PollAuto TopicId GroupId u32 u64 u64
  | CommitOffsetAt TopicId GroupId Offset u64

datatype AppResponse =
    Produced Offset
  | Polled "Delivered list"
  | Acked
  | Nacked
  | Committed
  | TopicCreated
  | TopicDeleted
  | RateLimitSet
  | RetentionSet
  | NoOp
  | ProducedMany "Offset list"
  | Rejected string

end
