(* ===== verification/Group_State.thy ===== *)
theory Group_State
  imports Wire_Types
begin

text \<open>
  The per-group consumption state of \<^verbatim>\<open>crates/hermesmq-core/src/queue.rs\<close>: \<^verbatim>\<open>Lease\<close>,
  \<^verbatim>\<open>GroupState\<close> and its methods \<^verbatim>\<open>mark_acked\<close>, \<^verbatim>\<open>expire\<close> and \<^verbatim>\<open>advance_watermark\<close>.

  A group promises a set of acknowledged offsets, \<open>acked_set\<close>; the code keeps it as a
  watermark and a sparse set above it. The lemmas show that the methods implement insertion
  into that set, that the two lease tables stay inverse to each other, and that the group
  invariant is kept.
\<close>

section \<open>State and methods\<close>

record Lease =
  lease_offset :: Offset
  deadline_ms :: u64

record GroupState =
  ack_watermark :: Offset
  acked_above :: "Offset set"
  in_flight :: "(LeaseId, Lease) btree"
  leased_offsets :: "(Offset, u64) btree"
  poll_count :: u64
  last_active_ms :: u64

definition group_default :: GroupState where
  "group_default = \<lparr>ack_watermark = 0, acked_above = {}, in_flight = bempty,
     leased_offsets = bempty, poll_count = 0, last_active_ms = 0\<rparr>"

text \<open>The loop \<^verbatim>\<open>while acked_above.remove(&ack_watermark) { ack_watermark += 1 }\<close> (saturating).\<close>

function drain_acked :: "Offset \<Rightarrow> Offset set \<Rightarrow> Offset \<times> Offset set" where
  "drain_acked wm acked =
     (if wm \<in> acked then drain_acked (saturating_add wm 1) (acked - {wm}) else (wm, acked))"
  by pat_completeness auto
termination
proof (relation "measure (\<lambda>(wm, acked). card acked)")
  fix wm :: Offset and acked assume "wm \<in> acked"
  then show "((saturating_add wm 1, acked - {wm}), wm, acked) \<in> measure (\<lambda>(wm, acked). card acked)"
    using card_Diff1_less [of acked wm] by simp
qed simp

declare drain_acked.simps [simp del]

definition drain_watermark :: "GroupState \<Rightarrow> GroupState" where
  "drain_watermark g = (let (wm, acked) = drain_acked (ack_watermark g) (acked_above g)
     in g\<lparr>ack_watermark := wm, acked_above := acked\<rparr>)"

definition mark_acked :: "GroupState \<Rightarrow> Offset \<Rightarrow> GroupState" where
  "mark_acked g offset =
     (if offset < ack_watermark g then g
      else drain_watermark (g\<lparr>acked_above := insert offset (acked_above g)\<rparr>))"

text \<open>\<^verbatim>\<open>if let Some(l) = in_flight.remove(&id) { leased_offsets.remove(&l.offset) }\<close>.\<close>

definition release_lease :: "GroupState \<Rightarrow> LeaseId \<Rightarrow> GroupState" where
  "release_lease g lease_id = (case bget (in_flight g) lease_id of
       None \<Rightarrow> g
     | Some l \<Rightarrow> g\<lparr>in_flight := bremove lease_id (in_flight g),
                  leased_offsets := bremove (lease_offset l) (leased_offsets g)\<rparr>)"

definition release_all :: "GroupState \<Rightarrow> LeaseId list \<Rightarrow> GroupState" where
  "release_all g lease_ids = foldl release_lease g lease_ids"

definition expire :: "GroupState \<Rightarrow> u64 \<Rightarrow> GroupState" where
  "expire g now_ms =
     release_all g (map fst (filter (\<lambda>(_, l). deadline_ms l \<le> now_ms) (entries (in_flight g))))"

definition advance_watermark :: "GroupState \<Rightarrow> Offset \<Rightarrow> GroupState" where
  "advance_watermark g to =
     (let g = (if to > ack_watermark g then g\<lparr>ack_watermark := to\<rparr> else g);
          watermark = ack_watermark g;
          g = g\<lparr>acked_above := Set.filter (\<lambda>offset. offset \<ge> watermark) (acked_above g)\<rparr>;
          g = release_all g (map fst (filter (\<lambda>(_, l). lease_offset l < watermark) (entries (in_flight g))))
      in drain_watermark g)"

section \<open>Specification\<close>

text \<open>What a group has acknowledged, independently of how it is stored.\<close>

definition acked_set :: "GroupState \<Rightarrow> Offset set" where
  "acked_set g = {..<ack_watermark g} \<union> acked_above g"

text \<open>The two lease tables are inverse to each other: one lease per offset, with its deadline.\<close>

definition lease_index_ok :: "GroupState \<Rightarrow> bool" where
  "lease_index_ok g \<longleftrightarrow>
     (\<forall>offset d. bget (leased_offsets g) offset = Some d \<longleftrightarrow>
        (\<exists>lid. bget (in_flight g) lid = Some \<lparr>lease_offset = offset, deadline_ms = d\<rparr>)) \<and>
     (\<forall>lid l lid' l'. bget (in_flight g) lid = Some l \<longrightarrow> bget (in_flight g) lid' = Some l' \<longrightarrow>
        lease_offset l = lease_offset l' \<longrightarrow> lid = lid')"

text \<open>
  The group invariant, relative to the topic's \<^verbatim>\<open>next_offset\<close> and the queue's
  \<^verbatim>\<open>next_lease_id\<close>. All but the last conjunct are checked by \<^verbatim>\<open>Queue::validate\<close>; the last
  one, that no acknowledged offset is leased, is what makes the others inductive.
\<close>

definition group_inv :: "Offset \<Rightarrow> LeaseId \<Rightarrow> GroupState \<Rightarrow> bool" where
  "group_inv next_off next_lid g \<longleftrightarrow>
     ack_watermark g \<le> next_off \<and>
     (\<forall>offset \<in> acked_above g. ack_watermark g < offset \<and> offset < next_off) \<and>
     (\<forall>lid l. bget (in_flight g) lid = Some l \<longrightarrow>
        lid < next_lid \<and> ack_watermark g \<le> lease_offset l \<and> lease_offset l < next_off) \<and>
     lease_index_ok g \<and>
     (\<forall>offset \<in> acked_above g. bget (leased_offsets g) offset = None)"

lemmas group_inv_defs = group_inv_def lease_index_ok_def

section \<open>Draining the watermark\<close>

lemma drain_acked_step:
  "drain_acked wm acked =
     (if wm \<in> acked then drain_acked (saturating_add wm 1) (acked - {wm}) else (wm, acked))"
  by (rule drain_acked.simps)

lemma drain_acked_stop: "drain_acked wm acked = (wm', acked') \<Longrightarrow> wm' \<notin> acked'"
proof (induction wm acked rule: drain_acked.induct)
  case (1 wm acked)
  then show ?case
    by (cases "wm \<in> acked") (simp_all add: drain_acked_step [of wm acked])
qed

lemma word_interval_insert:
  fixes wm b :: u64
  assumes "wm \<noteq> - 1" and "saturating_add wm 1 \<le> b"
  shows "{wm..<b} = insert wm {saturating_add wm 1..<b}"
proof -
  have "wm \<le> x \<longleftrightarrow> x = wm \<or> saturating_add wm 1 \<le> x" for x
    using less_saturating_add_one [OF assms(1), of x] by (cases "x < saturating_add wm 1") auto
  moreover have "wm < b"
    using saturating_add_one_greater [OF assms(1)] assms(2) by (rule less_le_trans)
  ultimately show ?thesis by auto
qed

lemma drain_acked_interval:
  assumes "drain_acked wm acked = (wm', acked')" and "- 1 \<notin> acked"
  shows "wm \<le> wm' \<and> {wm..<wm'} \<subseteq> acked \<and> acked' = acked - {wm..<wm'}"
  using assms
proof (induction wm acked rule: drain_acked.induct)
  case (1 wm acked)
  show ?case
  proof (cases "wm \<in> acked")
    case True
    with 1 have IH: "saturating_add wm 1 \<le> wm'" "{saturating_add wm 1..<wm'} \<subseteq> acked - {wm}"
        "acked' = acked - {wm} - {saturating_add wm 1..<wm'}"
      by (auto simp: drain_acked_step [of wm acked])
    from True 1(3) have "wm \<noteq> - 1" by metis
    with IH(1) have int: "{wm..<wm'} = insert wm {saturating_add wm 1..<wm'}"
      by (intro word_interval_insert)
    have "wm \<le> wm'" using saturating_add_ge IH(1) by (rule order.trans)
    moreover have "{wm..<wm'} \<subseteq> acked" unfolding int using IH(2) True by blast
    moreover have "acked' = acked - {wm..<wm'}" unfolding int
      by (rule trans [OF IH(3) Diff_insert2 [symmetric]])
    ultimately show ?thesis by simp
  next
    case False
    with 1(2) have "wm' = wm" "acked' = acked" by (simp_all add: drain_acked_step [of wm acked])
    then show ?thesis by simp
  qed
qed

lemma drain_acked_bound:
  assumes "drain_acked wm acked = (wm', acked')" and "wm \<le> lim" and "acked \<subseteq> {..<lim}"
  shows "wm' \<le> lim"
proof (rule ccontr)
  assume "\<not> wm' \<le> lim"
  with assms(2) have "lim \<in> {wm..<wm'}" by simp
  moreover have "- 1 \<notin> acked"
    using assms(3) word_order.extremum_strict [of lim] by blast
  ultimately have "lim \<in> acked" using drain_acked_interval [OF assms(1)] by blast
  with assms(3) show False by blast
qed

lemma drain_watermark_sel [simp, frame]:
  "in_flight (drain_watermark g) = in_flight g" "leased_offsets (drain_watermark g) = leased_offsets g"
  "poll_count (drain_watermark g) = poll_count g" "last_active_ms (drain_watermark g) = last_active_ms g"
  by (simp_all add: drain_watermark_def split: prod.splits)

text \<open>Draining changes the representation of the acknowledged set, not the set.\<close>

lemma drain_watermark_set:
  assumes "- 1 \<notin> acked_above g"
  shows "acked_set (drain_watermark g) = acked_set g"
proof -
  obtain wm' acked' where d: "drain_acked (ack_watermark g) (acked_above g) = (wm', acked')"
    by fastforce
  then have sel: "ack_watermark (drain_watermark g) = wm'" "acked_above (drain_watermark g) = acked'"
    by (simp_all add: drain_watermark_def)
  from drain_acked_interval [OF d assms]
  have wm: "ack_watermark g \<le> wm'" and sub: "{ack_watermark g..<wm'} \<subseteq> acked_above g"
    and acked': "acked' = acked_above g - {ack_watermark g..<wm'}" by auto
  have "{..<wm'} = {..<ack_watermark g} \<union> {ack_watermark g..<wm'}"
    using wm by (simp add: ivl_disj_un_one(2))
  with sub show ?thesis
    unfolding acked_set_def sel acked' by blast
qed

lemma drain_watermark_bounds:
  assumes "acked_above g \<subseteq> {..<lim}" and "ack_watermark g \<le> lim" and "acked_above g \<subseteq> {ack_watermark g..}"
  shows "ack_watermark g \<le> ack_watermark (drain_watermark g)"
    and "ack_watermark (drain_watermark g) \<le> lim"
    and "offset \<in> acked_above (drain_watermark g) \<Longrightarrow>
       ack_watermark (drain_watermark g) < offset \<and> offset \<in> acked_above g"
    and "ack_watermark g \<le> offset \<Longrightarrow> offset < ack_watermark (drain_watermark g) \<Longrightarrow> offset \<in> acked_above g"
proof -
  obtain wm' acked' where d: "drain_acked (ack_watermark g) (acked_above g) = (wm', acked')"
    by fastforce
  then have sel: "ack_watermark (drain_watermark g) = wm'" "acked_above (drain_watermark g) = acked'"
    by (simp_all add: drain_watermark_def)
  have "- 1 \<notin> acked_above g"
    using assms(1) word_order.extremum_strict [of lim] by blast
  note int = drain_acked_interval [OF d this]
  show "ack_watermark g \<le> ack_watermark (drain_watermark g)" using int sel by simp
  show "ack_watermark (drain_watermark g) \<le> lim" using drain_acked_bound [OF d assms(2,1)] sel by simp
  show "offset \<in> acked_above g" if "ack_watermark g \<le> offset" "offset < ack_watermark (drain_watermark g)"
    using int that sel by auto
  show "ack_watermark (drain_watermark g) < offset \<and> offset \<in> acked_above g"
    if "offset \<in> acked_above (drain_watermark g)"
  proof -
    from that sel int have "offset \<in> acked_above g" "offset \<notin> {ack_watermark g..<wm'}" by auto
    with assms(3) have "wm' \<le> offset" by auto
    moreover have "offset \<noteq> wm'" using drain_acked_stop [OF d] that sel by auto
    ultimately show ?thesis using \<open>offset \<in> acked_above g\<close> sel by simp
  qed
qed

section \<open>Releasing leases\<close>

lemma release_lease_sel [simp, frame]:
  "ack_watermark (release_lease g lid) = ack_watermark g" "acked_above (release_lease g lid) = acked_above g"
  "poll_count (release_lease g lid) = poll_count g" "last_active_ms (release_lease g lid) = last_active_ms g"
  "in_flight (release_lease g lid) = bremove lid (in_flight g)"
  by (auto simp: release_lease_def intro!: btree_eqI split: option.splits)

lemma lease_index_leased:
  "lease_index_ok g \<Longrightarrow> bget (leased_offsets g) offset = Some d \<longleftrightarrow>
     (\<exists>lid. bget (in_flight g) lid = Some \<lparr>lease_offset = offset, deadline_ms = d\<rparr>)"
  by (simp add: lease_index_ok_def)

lemma lease_index_in_flight:
  "lease_index_ok g \<Longrightarrow> bget (in_flight g) lid = Some l \<Longrightarrow> bget (leased_offsets g) (lease_offset l) = Some (deadline_ms l)"
  by (cases l) (auto simp: lease_index_leased)

lemma lease_index_inj:
  "lease_index_ok g \<Longrightarrow> bget (in_flight g) lid = Some l \<Longrightarrow> bget (in_flight g) lid' = Some l' \<Longrightarrow>
     lease_offset l = lease_offset l' \<Longrightarrow> lid = lid'"
  by (simp add: lease_index_ok_def)

lemma release_lease_index [keeps_inv]:
  assumes ok: "lease_index_ok g"
  shows "lease_index_ok (release_lease g lid)"
proof (cases "bget (in_flight g) lid")
  case (Some l)
  have leased: "leased_offsets (release_lease g lid) = bremove (lease_offset l) (leased_offsets g)"
    by (simp add: release_lease_def Some)
  have "bget (in_flight g) lid' = Some \<lparr>lease_offset = lease_offset l, deadline_ms = d\<rparr> \<Longrightarrow> lid' = lid" for lid' d
    using lease_index_inj [OF ok Some] by fastforce
  then show ?thesis
    unfolding lease_index_ok_def leased
    using ok Some
    by (auto simp: lease_index_leased dest: lease_index_inj [OF ok]) (metis Lease.select_convs(1) option.inject)
qed (use ok in \<open>simp add: release_lease_def\<close>)

lemma release_all_sel [simp, frame]:
  "ack_watermark (release_all g lids) = ack_watermark g" "acked_above (release_all g lids) = acked_above g"
  "poll_count (release_all g lids) = poll_count g" "last_active_ms (release_all g lids) = last_active_ms g"
  unfolding release_all_def by (induction lids arbitrary: g) simp_all

lemma release_all_index [keeps_inv]: "lease_index_ok g \<Longrightarrow> lease_index_ok (release_all g lids)"
  unfolding release_all_def by (rule foldl_invariant) (auto intro: release_lease_index)

lemma release_all_in_flight: "in_flight (release_all g lids) = bretain (\<lambda>lid _. lid \<notin> set lids) (in_flight g)"
  unfolding release_all_def
proof (induction lids arbitrary: g)
  case (Cons lid lids)
  show ?case
    by (rule btree_eqI_Some) (auto simp: Cons.IH)
qed (simp add: bretain_all)

text \<open>
  With inverse tables, releasing every lease whose offset and deadline satisfy a predicate
  filters both tables by it.
\<close>

lemma release_where:
  fixes P :: "Offset \<Rightarrow> u64 \<Rightarrow> bool"
  assumes ok: "lease_index_ok g"
  defines "r \<equiv> release_all g (map fst (filter (\<lambda>(_, l). P (lease_offset l) (deadline_ms l)) (entries (in_flight g))))"
  shows "in_flight r = bretain (\<lambda>_ l. \<not> P (lease_offset l) (deadline_ms l)) (in_flight g)"
    and "leased_offsets r = bretain (\<lambda>offset d. \<not> P offset d) (leased_offsets g)"
proof -
  have mem: "lid \<in> set (map fst (filter (\<lambda>(_, l). P (lease_offset l) (deadline_ms l)) (entries (in_flight g))))
      \<longleftrightarrow> (\<exists>l. bget (in_flight g) lid = Some l \<and> P (lease_offset l) (deadline_ms l))" for lid
    by (force simp: bget_entries)
  show fl: "in_flight r = bretain (\<lambda>_ l. \<not> P (lease_offset l) (deadline_ms l)) (in_flight g)"
    unfolding r_def release_all_in_flight mem by (rule btree_eqI_Some) auto
  have "lease_index_ok r" unfolding r_def by (rule release_all_index [OF ok])
  then have "bget (leased_offsets r) offset = Some d \<longleftrightarrow> bget (leased_offsets g) offset = Some d \<and> \<not> P offset d" for offset d
    by (simp add: lease_index_leased ok fl)
  then show "leased_offsets r = bretain (\<lambda>offset d. \<not> P offset d) (leased_offsets g)"
    by (intro btree_eqI_Some) simp
qed

section \<open>The methods against the specification\<close>

lemma mark_acked_sel [simp, frame]:
  "in_flight (mark_acked g offset) = in_flight g" "leased_offsets (mark_acked g offset) = leased_offsets g"
  "poll_count (mark_acked g offset) = poll_count g" "last_active_ms (mark_acked g offset) = last_active_ms g"
  by (simp_all add: mark_acked_def)

lemma group_inv_acked_not_max: "group_inv next_off next_lid g \<Longrightarrow> - 1 \<notin> acked_above g"
  unfolding group_inv_def using word_order.extremum_strict by blast

lemma mark_acked_set:
  assumes "group_inv next_off next_lid g" and "offset < next_off"
  shows "acked_set (mark_acked g offset) = insert offset (acked_set g)"
proof (cases "offset < ack_watermark g")
  case True
  then show ?thesis by (auto simp: mark_acked_def acked_set_def)
next
  case False
  from assms(2) have "offset \<noteq> - 1" using word_order.extremum_strict by blast
  with group_inv_acked_not_max [OF assms(1)]
  have "acked_set (mark_acked g offset) = acked_set (g\<lparr>acked_above := insert offset (acked_above g)\<rparr>)"
    using False by (simp add: mark_acked_def drain_watermark_set)
  then show ?thesis by (simp add: acked_set_def)
qed

lemma expire_sel [simp, frame]:
  "ack_watermark (expire g now_ms) = ack_watermark g" "acked_above (expire g now_ms) = acked_above g"
  "poll_count (expire g now_ms) = poll_count g" "last_active_ms (expire g now_ms) = last_active_ms g"
  by (simp_all add: expire_def)

lemma expire_acked_set [simp]: "acked_set (expire g now_ms) = acked_set g"
  by (simp add: acked_set_def)

lemma expire_leases:
  assumes "lease_index_ok g"
  shows "in_flight (expire g now_ms) = bretain (\<lambda>_ l. now_ms < deadline_ms l) (in_flight g)"
    and "leased_offsets (expire g now_ms) = bretain (\<lambda>_ d. now_ms < d) (leased_offsets g)"
  using release_where [OF assms, of "\<lambda>_ d. d \<le> now_ms"] by (simp_all add: expire_def not_le)

definition raise_watermark :: "GroupState \<Rightarrow> Offset \<Rightarrow> GroupState" where
  "raise_watermark g wm = g\<lparr>ack_watermark := wm, acked_above := Set.filter (\<lambda>offset. wm \<le> offset) (acked_above g),
     in_flight := bretain (\<lambda>_ l. wm \<le> lease_offset l) (in_flight g),
     leased_offsets := bretain (\<lambda>offset _. wm \<le> offset) (leased_offsets g)\<rparr>"

text \<open>Raising the watermark drops what lies below it, then drains.\<close>

lemma advance_watermark_eq:
  assumes ok: "lease_index_ok g"
  shows "advance_watermark g to = drain_watermark (raise_watermark g (max to (ack_watermark g)))"
proof -
  let ?wm = "max to (ack_watermark g)"
  let ?g = "g\<lparr>ack_watermark := ?wm, acked_above := Set.filter (\<lambda>offset. ?wm \<le> offset) (acked_above g)\<rparr>"
  let ?r = "release_all ?g (map fst (filter (\<lambda>(_, l). lease_offset l < ?wm) (entries (in_flight g))))"
  have ok': "lease_index_ok ?g" using ok by (simp add: lease_index_ok_def)
  have adv: "advance_watermark g to = drain_watermark ?r"
    by (auto simp: advance_watermark_def Let_def max_def)
  have "in_flight ?r = bretain (\<lambda>_ l. ?wm \<le> lease_offset l) (in_flight g)"
    and "leased_offsets ?r = bretain (\<lambda>offset _. ?wm \<le> offset) (leased_offsets g)"
    using release_where [OF ok', of "\<lambda>offset _. offset < ?wm"] by (simp_all add: not_less)
  then have "?r = raise_watermark g ?wm"
    by (simp add: raise_watermark_def)
  then show ?thesis by (simp only: adv)
qed

lemma raise_watermark_sel [simp]:
  "ack_watermark (raise_watermark g wm) = wm"
  "acked_above (raise_watermark g wm) = {offset \<in> acked_above g. wm \<le> offset}"
  "in_flight (raise_watermark g wm) = bretain (\<lambda>_ l. wm \<le> lease_offset l) (in_flight g)"
  "leased_offsets (raise_watermark g wm) = bretain (\<lambda>offset _. wm \<le> offset) (leased_offsets g)"
  "poll_count (raise_watermark g wm) = poll_count g" "last_active_ms (raise_watermark g wm) = last_active_ms g"
  by (auto simp: raise_watermark_def)

lemma advance_watermark_sel [simp, frame]:
  "poll_count (advance_watermark g to) = poll_count g" "last_active_ms (advance_watermark g to) = last_active_ms g"
  by (simp_all add: advance_watermark_def Let_def)

lemma advance_watermark_set:
  assumes "group_inv next_off next_lid g"
  shows "acked_set (advance_watermark g to) = acked_set g \<union> {..<to}"
proof -
  have ok: "lease_index_ok g" using assms by (simp add: group_inv_def)
  have "acked_set (advance_watermark g to) = acked_set (raise_watermark g (max to (ack_watermark g)))"
    unfolding advance_watermark_eq [OF ok]
    by (rule drain_watermark_set) (use group_inv_acked_not_max [OF assms] in simp)
  also have "\<dots> = acked_set g \<union> {..<to}"
    by (auto simp: acked_set_def less_max_iff_disj not_le [symmetric])
  finally show ?thesis .
qed

section \<open>The group invariant is kept\<close>

lemma group_inv_default [keeps_inv]:
  "wm \<le> next_off \<Longrightarrow> group_inv next_off next_lid (group_default\<lparr>ack_watermark := wm, last_active_ms := ts\<rparr>)"
  by (simp add: group_default_def group_inv_defs)

lemma group_inv_mono [keeps_inv]:
  "group_inv next_off next_lid g \<Longrightarrow> next_off \<le> next_off' \<Longrightarrow> next_lid \<le> next_lid' \<Longrightarrow> group_inv next_off' next_lid' g"
  unfolding group_inv_def by (meson less_le_trans order.trans)

lemma group_inv_counters [simp]:
  "group_inv next_off next_lid (g\<lparr>poll_count := c\<rparr>) = group_inv next_off next_lid g"
  "group_inv next_off next_lid (g\<lparr>last_active_ms := ts\<rparr>) = group_inv next_off next_lid g"
  by (simp_all add: group_inv_defs)

lemma group_inv_expire [keeps_inv]:
  assumes "group_inv next_off next_lid g"
  shows "group_inv next_off next_lid (expire g now_ms)"
proof -
  have ok: "lease_index_ok g" using assms by (simp add: group_inv_def)
  have "lease_index_ok (expire g now_ms)"
    unfolding expire_def by (rule release_all_index [OF ok])
  with assms show ?thesis
    unfolding group_inv_def expire_sel expire_leases [OF ok]
    by auto
qed

lemma release_lease_leased:
  assumes "lease_index_ok g" and "bget (in_flight g) lid = Some l"
  shows "leased_offsets (release_lease g lid) = bremove (lease_offset l) (leased_offsets g)"
  using assms(2) by (simp add: release_lease_def)

lemma group_inv_release [keeps_inv]:
  assumes "group_inv next_off next_lid g"
  shows "group_inv next_off next_lid (release_lease g lid)"
proof (cases "bget (in_flight g) lid")
  case (Some l)
  have ok: "lease_index_ok g" using assms by (simp add: group_inv_def)
  with assms show ?thesis
    unfolding group_inv_def release_lease_sel release_lease_leased [OF ok Some]
    by (auto intro: release_lease_index split: if_splits)
qed (use assms in \<open>simp add: release_lease_def\<close>)

lemma group_inv_drain:
  assumes wm: "ack_watermark g \<le> next_off"
    and acked: "\<And>offset. offset \<in> acked_above g \<Longrightarrow> ack_watermark g \<le> offset \<and> offset < next_off \<and> bget (leased_offsets g) offset = None"
    and leases: "\<And>lid l. bget (in_flight g) lid = Some l \<Longrightarrow> lid < next_lid \<and> ack_watermark g \<le> lease_offset l \<and> lease_offset l < next_off"
    and ok: "lease_index_ok g"
  shows "group_inv next_off next_lid (drain_watermark g)"
proof -
  have sub: "acked_above g \<subseteq> {..<next_off}" "acked_above g \<subseteq> {ack_watermark g..}" using acked by auto
  note bounds = drain_watermark_bounds [OF sub(1) wm sub(2)]
  have "ack_watermark (drain_watermark g) \<le> lease_offset l" if "bget (in_flight g) lid = Some l" for lid l
  proof (rule ccontr)
    assume "\<not> ?thesis"
    with leases [OF that] bounds(4) have "lease_offset l \<in> acked_above g" by auto
    with acked have "bget (leased_offsets g) (lease_offset l) = None" by simp
    moreover have "bget (leased_offsets g) (lease_offset l) = Some (deadline_ms l)"
      by (rule lease_index_in_flight [OF ok that])
    ultimately show False by simp
  qed
  moreover have "lease_index_ok (drain_watermark g)" using ok by (simp add: lease_index_ok_def)
  ultimately show ?thesis
    unfolding group_inv_def using bounds(2,3) acked leases by auto
qed

lemma group_inv_mark_acked [keeps_inv]:
  assumes "group_inv next_off next_lid g" and "offset < next_off" and "bget (leased_offsets g) offset = None"
  shows "group_inv next_off next_lid (mark_acked g offset)"
proof (cases "offset < ack_watermark g")
  case False
  with assms show ?thesis
    unfolding mark_acked_def
    by (simp, intro group_inv_drain) (auto simp: group_inv_defs)
qed (use assms in \<open>simp add: mark_acked_def\<close>)

lemma group_inv_advance [keeps_inv]:
  assumes inv: "group_inv next_off next_lid g" and "to \<le> next_off"
  shows "group_inv next_off next_lid (advance_watermark g to)"
proof -
  have ok: "lease_index_ok g" using inv by (simp add: group_inv_def)
  let ?r = "raise_watermark g (max to (ack_watermark g))"
  have "lease_index_ok ?r"
    using ok by (auto simp: lease_index_ok_def)
  then have "group_inv next_off next_lid (drain_watermark ?r)"
    using inv assms(2) by (intro group_inv_drain) (auto simp: group_inv_def)
  then show ?thesis by (simp add: advance_watermark_eq [OF ok])
qed

end
