(* ===== verification/Selection.thy ===== *)
theory Selection
  imports Wire_Types
begin

text \<open>
  The message selection of \<^verbatim>\<open>queue.rs::poll\<close> (lines 643 to 690): one pass over the deliverable
  messages that keeps the oldest \<^verbatim>\<open>max\<close> of them and, in a bounded heap, the best
  \<^verbatim>\<open>priority_slots\<close> of them, followed by the merge of the two and a final sort. The old
  selection that the code's own property test compares against, \<^verbatim>\<open>reference_selection\<close>, is
  modelled as well, and the two are shown to agree on every input.

  \<^verbatim>\<open>std::collections::BinaryHeap\<close> promises which element \<^verbatim>\<open>pop\<close> removes but not the order in
  which a heap is iterated. The locale \<open>bounded_heap\<close> states what it promises; the facts about
  the selection rest on that contract only.
\<close>

section \<open>Sorting by an injective key\<close>

lemma filter_inj_key:
  assumes "inj f"
  shows "filter (\<lambda>x. f k = f x) xs = replicate (count (mset xs) k) k"
proof -
  have "filter (\<lambda>x. f k = f x) xs = filter (\<lambda>x. k = x) xs"
    using assms by (simp add: inj_eq)
  also have "\<dots> = replicate (count (mset xs) k) k"
    by (induction xs) auto
  finally show ?thesis .
qed

lemma sort_key_mset_cong:
  assumes "inj f" and "mset xs = mset ys"
  shows "sort_key f xs = sort_key f ys"
  by (rule properties_for_sort_key) (simp_all add: assms filter_inj_key)

lemma sort_key_insort:
  assumes "inj f" shows "sort_key f (xs @ [x]) = insort_key f x (sort_key f xs)"
proof -
  have "sort_key f (xs @ [x]) = sort_key f (x # xs)"
    by (rule sort_key_mset_cong [OF assms]) simp
  then show ?thesis by simp
qed

lemma take_insort_key: "take k (insort_key f x (take k ys)) = take k (insort_key f x ys)"
proof (induction ys arbitrary: k)
  case (Cons y ys)
  then show ?case by (cases k) (auto simp: take_Cons')
qed simp

lemma last_insort_max:
  assumes "sorted (map f ys)" and "ys \<noteq> []" and "y \<in> set ys"
  shows "f y \<le> f (last ys)"
proof -
  from assms(3) obtain i where "i < length ys" "y = ys ! i" by (auto simp: in_set_conv_nth)
  with assms(1,2) show ?thesis
    by (simp add: last_conv_nth sorted_iff_nth_mono)
qed

section \<open>The heap contract\<close>

locale bounded_heap =
  fixes key :: "'a \<Rightarrow> 'b::linorder"
    and empty :: 'h
    and push :: "'a \<Rightarrow> 'h \<Rightarrow> 'h"
    and pop :: "'h \<Rightarrow> 'h"
    and elems :: "'h \<Rightarrow> 'a list"
  assumes inj_key: "inj key"
    and elems_empty: "elems empty = []"
    and elems_push: "mset (elems (push x h)) = add_mset x (mset (elems h))"
    and elems_pop: "elems h \<noteq> [] \<Longrightarrow>
      \<exists>w \<in> set (elems h). (\<forall>y \<in> set (elems h). key y \<le> key w) \<and> mset (elems (pop h)) = mset (elems h) - {#w#}"
begin

abbreviation keep :: "nat \<Rightarrow> 'h \<Rightarrow> 'a \<Rightarrow> 'h" where
  "keep k h x \<equiv> (if length (elems (push x h)) > k then pop (push x h) else push x h)"

lemma keep_best:
  assumes "mset (elems h) = mset (take k (sort_key key xs))"
  shows "mset (elems (keep k h x)) = mset (take k (sort_key key (xs @ [x])))"
proof -
  let ?L = "insort_key key x (take k (sort_key key xs))"
  have ms: "mset (elems (push x h)) = mset ?L" by (simp add: elems_push assms)
  then have len: "length (elems (push x h)) = length ?L" by (metis size_mset)
  have sorted_L: "sorted (map key ?L)"
    by (simp add: sorted_insort_key take_map [symmetric] sorted_wrt_take)
  have goal_L: "take k (sort_key key (xs @ [x])) = take k ?L"
    by (simp add: sort_key_insort [OF inj_key] take_insort_key)
  show ?thesis
  proof (cases "length ?L > k")
    case True
    then have "length ?L = Suc k" by simp
    have ne: "?L \<noteq> []" by (metis True list.size(3) not_less_zero)
    from ms ne have "elems (push x h) \<noteq> []" by (metis mset_zero_iff)
    then obtain w where w: "w \<in> set (elems (push x h))" "\<forall>y \<in> set (elems (push x h)). key y \<le> key w"
      "mset (elems (pop (push x h))) = mset (elems (push x h)) - {#w#}"
      using elems_pop by blast
    have set_eq: "set (elems (push x h)) = set ?L" using ms by (metis set_mset_mset)
    have "key w \<le> key (last ?L)" using last_insort_max [OF sorted_L ne] w(1) set_eq by blast
    moreover have "key (last ?L) \<le> key w" using w(2) set_eq ne by (metis last_in_set)
    ultimately have "w = last ?L" using inj_key by (metis antisym injD)
    moreover have "mset ?L = add_mset (last ?L) (mset (butlast ?L))"
      using ne by (metis append_butlast_last_id add_mset_add_single mset.simps mset_append)
    ultimately have "mset (elems (pop (push x h))) = mset (butlast ?L)"
      using w(3) ms by simp
    also have "butlast ?L = take k ?L" using \<open>length ?L = Suc k\<close> by (simp add: butlast_conv_take)
    finally show ?thesis using True len goal_L by simp
  next
    case False
    then have "take k ?L = ?L" by (intro take_all) simp
    with False show ?thesis by (simp only: len ms goal_L if_False)
  qed
qed

lemma keep_all:
  "mset (elems h) = mset (take k (sort_key key ys)) \<Longrightarrow>
   mset (elems (foldl (keep k) h xs)) = mset (take k (sort_key key (ys @ xs)))"
proof (induction xs arbitrary: h ys)
  case (Cons x xs)
  from keep_best [OF Cons.prems] have "mset (elems (foldl (keep k) (keep k h x) xs)) = mset (take k (sort_key key ((ys @ [x]) @ xs)))"
    by (rule Cons.IH)
  then show ?case by simp
qed simp

lemma keep_from_empty: "mset (elems (foldl (keep k) empty xs)) = mset (take k (sort_key key xs))"
  using keep_all [of empty k "[]" xs] by (simp add: elems_empty)

end

section \<open>The selection\<close>

definition RESERVED_DEN :: u64 where
  "RESERVED_DEN = 4"

text \<open>
  The order of \<^verbatim>\<open>sort_by(|a, b| b.0.cmp(&a.0).then(a.1.cmp(&b.1)))\<close>: higher priority first, then
  lower offset. It is also the reverse of the heap's element order, so the element a heap pops
  is the one that sorts last.
\<close>

definition rank :: "Priority \<times> Offset \<Rightarrow> int \<times> Offset" where
  "rank c = (- uint (fst c), snd c)"

text \<open>
  \<^verbatim>\<open>BinaryHeap<Reverse<(Priority, Reverse<Offset>)>>\<close> as the list of its elements in some order:
  \<^verbatim>\<open>push\<close> adds one, \<^verbatim>\<open>pop\<close> removes the one that sorts last.
\<close>

definition heap_push :: "Priority \<times> Offset \<Rightarrow> (Priority \<times> Offset) list \<Rightarrow> (Priority \<times> Offset) list" where
  "heap_push c heap = heap @ [c]"

definition heap_pop :: "(Priority \<times> Offset) list \<Rightarrow> (Priority \<times> Offset) list" where
  "heap_pop heap = remove1 (last (sort_key rank heap)) heap"

text \<open>The single pass; \<open>skip\<close> is the test for acknowledged or leased offsets.\<close>

fun scan_messages :: "nat \<Rightarrow> nat \<Rightarrow> (Offset \<Rightarrow> bool) \<Rightarrow> (Offset \<times> Message) list \<Rightarrow>
    (Priority \<times> Offset) list \<Rightarrow> (Priority \<times> Offset) list \<Rightarrow> (Priority \<times> Offset) list \<times> (Priority \<times> Offset) list" where
  "scan_messages mx priority_slots skip [] earliest heap = (earliest, heap)"
| "scan_messages mx priority_slots skip ((offset, message) # rest) earliest heap =
     (if skip offset then scan_messages mx priority_slots skip rest earliest heap
      else if \<not> length earliest < mx \<and> priority_slots = 0 then (earliest, heap)
      else scan_messages mx priority_slots skip rest
        (if length earliest < mx then earliest @ [(m_priority message, offset)] else earliest)
        (if priority_slots > 0
         then let heap' = heap_push (m_priority message, offset) heap
              in if length heap' > priority_slots then heap_pop heap' else heap'
         else heap))"

fun pick_top :: "(Priority \<times> Offset) list \<Rightarrow> Offset set \<Rightarrow> (Priority \<times> Offset) list \<Rightarrow> Offset set \<times> (Priority \<times> Offset) list" where
  "pick_top [] chosen_set chosen = (chosen_set, chosen)"
| "pick_top ((priority, offset) # heap) chosen_set chosen =
     (if offset \<in> chosen_set then pick_top heap chosen_set chosen
      else pick_top heap (insert offset chosen_set) (chosen @ [(priority, offset)]))"

fun pick_until :: "nat \<Rightarrow> (Priority \<times> Offset) list \<Rightarrow> Offset set \<Rightarrow> (Priority \<times> Offset) list \<Rightarrow> Offset set \<times> (Priority \<times> Offset) list" where
  "pick_until limit [] chosen_set chosen = (chosen_set, chosen)"
| "pick_until limit (item # items) chosen_set chosen =
     (if length chosen \<ge> limit then (chosen_set, chosen)
      else if snd item \<in> chosen_set then pick_until limit items chosen_set chosen
      else pick_until limit items (insert (snd item) chosen_set) (chosen @ [item]))"

definition reserved_slots :: "nat \<Rightarrow> u64 \<Rightarrow> nat" where
  "reserved_slots mx poll_cnt =
     (let base = mx div unat RESERVED_DEN;
          bonus = (if (poll_cnt + 1) mod RESERVED_DEN = 0 then 1 else 0)
      in min (base + bonus) mx)"

definition select_messages :: "nat \<Rightarrow> u64 \<Rightarrow> (Offset \<Rightarrow> bool) \<Rightarrow> (Offset \<times> Message) list \<Rightarrow> (Priority \<times> Offset) list" where
  "select_messages mx poll_cnt skip msgs =
     (let reserved = reserved_slots mx poll_cnt;
          priority_slots = mx - reserved;
          (earliest, heap) = scan_messages mx priority_slots skip msgs [] [];
          (chosen_set, chosen) = pick_top heap {} [];
          (_, chosen) = pick_until mx earliest chosen_set chosen
      in sort_key rank chosen)"

text \<open>\<^verbatim>\<open>tests::reference_selection\<close> of the same file, the algorithm the bounded pass replaced.\<close>

definition reference_selection :: "(Priority \<times> Offset) list \<Rightarrow> nat \<Rightarrow> u64 \<Rightarrow> Offset list" where
  "reference_selection candidates mx poll_cnt =
     (if candidates = [] \<or> mx = 0 then []
      else let reserved = reserved_slots mx poll_cnt;
               priority_slots = mx - reserved;
               by_offset = candidates;
               by_priority = sort_key rank candidates;
               (chosen_set, chosen) = pick_until priority_slots by_priority {} [];
               (chosen_set, chosen) = pick_until mx by_offset chosen_set chosen;
               (_, chosen) = pick_until mx by_priority chosen_set chosen
           in map snd (sort_key rank chosen))"

section \<open>Correctness of the selection\<close>

lemma inj_rank: "inj rank"
  by (auto simp: inj_on_def rank_def word_uint_eq_iff)

interpretation binary_heap: bounded_heap rank "[]" heap_push heap_pop "\<lambda>h. h"
proof (unfold_locales, goal_cases)
  case 1
  show ?case by (rule inj_rank)
next
  case (4 h)
  then have ne: "sort_key rank h \<noteq> []" by (metis mset_sort mset_zero_iff)
  have "rank y \<le> rank (last (sort_key rank h))" if "y \<in> set h" for y
    by (rule last_insort_max) (use ne that in simp_all)
  moreover have "last (sort_key rank h) \<in> set h" using ne last_in_set by fastforce
  ultimately show ?case
    by (intro bexI [of _ "last (sort_key rank h)"]) (simp_all add: heap_pop_def)
qed (simp_all add: heap_push_def)

text \<open>The deliverable messages, in offset order.\<close>

definition candidates :: "(Offset \<Rightarrow> bool) \<Rightarrow> (Offset \<times> Message) list \<Rightarrow> (Priority \<times> Offset) list" where
  "candidates skip msgs = map (\<lambda>(offset, m). (m_priority m, offset)) (filter (\<lambda>(offset, _). \<not> skip offset) msgs)"

lemma candidates_simps [simp]:
  "candidates skip [] = []"
  "candidates skip ((offset, m) # msgs) =
     (if skip offset then candidates skip msgs else (m_priority m, offset) # candidates skip msgs)"
  by (simp_all add: candidates_def)

lemma snd_candidates: "map snd (candidates skip msgs) = filter (\<lambda>offset. \<not> skip offset) (map fst msgs)"
  by (induction msgs) auto

text \<open>The heap loop inside the pass is the fold of the contract's \<open>keep\<close>.\<close>

lemma scan_messages_eq:
  assumes "priority_slots = 0 \<Longrightarrow> heap = []"
  shows "scan_messages mx priority_slots skip msgs earliest heap =
     (take (max mx (length earliest)) (earliest @ candidates skip msgs),
      if priority_slots = 0 then heap
      else foldl (\<lambda>h c. if length (heap_push c h) > priority_slots then heap_pop (heap_push c h) else heap_push c h)
             heap (candidates skip msgs))"
  using assms
proof (induction mx priority_slots skip msgs earliest heap rule: scan_messages.induct)
  case (2 mx priority_slots skip offset message rest earliest heap)
  then show ?case
    by (auto simp: Let_def max_def take_Cons')
qed (simp add: max_def)

lemma scan_from_empty:
  assumes "scan_messages mx priority_slots skip msgs [] [] = (earliest, heap)"
  shows "earliest = take mx (candidates skip msgs)"
    and "mset heap = mset (take priority_slots (sort_key rank (candidates skip msgs)))"
  using assms binary_heap.keep_from_empty [of priority_slots "candidates skip msgs"]
  by (auto simp: scan_messages_eq split: if_splits)

lemma pick_top_eq:
  "distinct (map snd heap) \<Longrightarrow> snd ` set heap \<inter> chosen_set = {} \<Longrightarrow>
   pick_top heap chosen_set chosen = (chosen_set \<union> snd ` set heap, chosen @ heap)"
  by (induction heap chosen_set chosen rule: pick_top.induct) auto

lemma pick_until_eq:
  "distinct (map snd items) \<Longrightarrow>
   pick_until limit items chosen_set chosen =
     (let new = take (limit - length chosen) (filter (\<lambda>c. snd c \<notin> chosen_set) items)
      in (chosen_set \<union> snd ` set new, chosen @ new))"
proof (induction limit items chosen_set chosen rule: pick_until.induct)
  case (2 limit item items chosen_set chosen)
  have fresh: "filter (\<lambda>c. snd c \<noteq> snd item \<and> snd c \<notin> chosen_set) items = filter (\<lambda>c. snd c \<notin> chosen_set) items"
    by (rule filter_cong) (use "2.prems" in \<open>auto simp: rev_image_eqI\<close>)
  from 2 fresh show ?case
    by (auto simp: Let_def take_Cons')
qed simp

lemma filter_take_enough:
  "card {c \<in> set xs. \<not> P c} \<le> d \<Longrightarrow> distinct xs \<Longrightarrow>
   take (n - d) (filter P (take n xs)) = take (n - d) (filter P xs)"
proof -
  assume few: "card {c \<in> set xs. \<not> P c} \<le> d" and dist: "distinct xs"
  show ?thesis
  proof (cases "length xs \<le> n")
    case False
    have "length (filter (\<lambda>c. \<not> P c) (take n xs)) = card {c \<in> set (take n xs). \<not> P c}"
      using dist by (simp flip: distinct_card)
    also have "\<dots> \<le> card {c \<in> set xs. \<not> P c}"
      by (rule card_mono) (auto dest: in_set_takeD)
    finally have "length (filter (\<lambda>c. \<not> P c) (take n xs)) \<le> d" using few by simp
    moreover have "length (filter P (take n xs)) + length (filter (\<lambda>c. \<not> P c) (take n xs)) = n"
      using False by (simp add: sum_length_filter_compl)
    ultimately have "n - d \<le> length (filter P (take n xs))" by simp
    moreover have "filter P xs = filter P (take n xs) @ filter P (drop n xs)"
      by (metis append_take_drop_id filter_append)
    ultimately show ?thesis by simp
  qed simp
qed

text \<open>
  What the pass selects: the best \<open>priority_slots\<close> candidates, and the oldest of the others up to
  \<^verbatim>\<open>max\<close> in all.
\<close>

definition best :: "nat \<Rightarrow> (Priority \<times> Offset) list \<Rightarrow> (Priority \<times> Offset) list" where
  "best n cs = take n (sort_key rank cs)"

definition selected :: "nat \<Rightarrow> u64 \<Rightarrow> (Priority \<times> Offset) list \<Rightarrow> (Priority \<times> Offset) list" where
  "selected mx poll_cnt cs =
     (let b = best (mx - reserved_slots mx poll_cnt) cs
      in b @ take (mx - length b) (filter (\<lambda>c. snd c \<notin> snd ` set b) cs))"

lemma set_best: "set (best n cs) \<subseteq> set cs"
  unfolding best_def by (metis set_sort set_take_subset)

lemma distinct_best: "distinct (map snd cs) \<Longrightarrow> distinct (map snd (best n cs))"
proof -
  assume "distinct (map snd cs)"
  then have "distinct (map snd (sort_key rank cs))"
    by (simp add: distinct_map inj_on_def)
  then show ?thesis by (simp add: best_def take_map [symmetric])
qed

lemma length_best [simp]: "length (best n cs) = min n (length cs)"
  by (simp add: best_def min.commute)

lemma few_chosen:
  assumes "distinct (map snd cs)"
  shows "card {c \<in> set cs. \<not> snd c \<notin> snd ` set (best n cs)} \<le> length (best n cs)"
proof -
  have "{c \<in> set cs. \<not> snd c \<notin> snd ` set (best n cs)} \<subseteq> set (best n cs)"
    using assms set_best [of n cs] by (auto simp: distinct_map inj_on_def)
  then show ?thesis by (meson card_length card_mono List.finite_set order.trans)
qed

lemma select_messages_selected:
  assumes "distinct (map fst msgs)"
  shows "select_messages mx poll_cnt skip msgs = sort_key rank (selected mx poll_cnt (candidates skip msgs))"
proof -
  let ?cs = "candidates skip msgs"
  let ?slots = "mx - reserved_slots mx poll_cnt"
  obtain earliest heap where scan: "scan_messages mx ?slots skip msgs [] [] = (earliest, heap)"
    by fastforce
  note scanned = scan_from_empty [OF scan]
  have dist: "distinct (map snd ?cs)" using assms by (simp add: snd_candidates)
  have heap: "mset heap = mset (best ?slots ?cs)" using scanned(2) by (simp add: best_def)
  then have set_heap: "set heap = set (best ?slots ?cs)" and len_heap: "length heap = length (best ?slots ?cs)"
    by (metis set_mset_mset, metis size_mset)
  have "distinct (map snd heap)"
    using distinct_best [OF dist, of ?slots] heap by (metis mset_eq_imp_distinct_iff mset_map)
  then have top: "pick_top heap {} [] = (snd ` set heap, heap)" by (simp add: pick_top_eq)
  have "distinct (map snd (take mx ?cs))" using dist by (simp add: take_map [symmetric])
  then have "select_messages mx poll_cnt skip msgs =
      sort_key rank (heap @ take (mx - length heap) (filter (\<lambda>c. snd c \<notin> snd ` set heap) (take mx ?cs)))"
    by (simp add: select_messages_def scan top pick_until_eq scanned(1) Let_def)
  also have "take (mx - length heap) (filter (\<lambda>c. snd c \<notin> snd ` set heap) (take mx ?cs)) =
      take (mx - length heap) (filter (\<lambda>c. snd c \<notin> snd ` set heap) ?cs)"
    unfolding set_heap len_heap
    by (rule filter_take_enough [OF few_chosen [OF dist]]) (use dist in \<open>simp add: distinct_map\<close>)
  also have "sort_key rank (heap @ \<dots>) = sort_key rank (selected mx poll_cnt ?cs)"
    by (rule sort_key_mset_cong [OF inj_rank])
      (simp add: selected_def Let_def set_heap len_heap heap del: length_best)
  finally show ?thesis .
qed

lemma length_rest:
  assumes "distinct (map snd cs)"
  shows "length (filter (\<lambda>c. snd c \<notin> snd ` set (best n cs)) cs) = length cs - length (best n cs)"
proof -
  have "{c \<in> set cs. snd c \<in> snd ` set (best n cs)} = set (best n cs)"
    using assms set_best [of n cs] by (auto simp: distinct_map inj_on_def)
  moreover have "length (filter (\<lambda>c. snd c \<in> snd ` set (best n cs)) cs) = card {c \<in> set cs. snd c \<in> snd ` set (best n cs)}"
    using assms by (simp add: distinct_map flip: distinct_card)
  moreover have "card (set (best n cs)) = length (best n cs)"
    using distinct_best [OF assms, of n] by (simp add: distinct_map distinct_card del: length_best)
  ultimately have "length (filter (\<lambda>c. snd c \<in> snd ` set (best n cs)) cs) = length (best n cs)" by simp
  then show ?thesis using sum_length_filter_compl [of "\<lambda>c. snd c \<in> snd ` set (best n cs)" cs] by simp
qed

lemma reserved_slots_le: "reserved_slots mx poll_cnt \<le> mx"
  by (simp add: reserved_slots_def Let_def)

lemma length_selected:
  assumes "distinct (map snd cs)"
  shows "length (selected mx poll_cnt cs) = min mx (length cs)"
  using reserved_slots_le [of mx poll_cnt]
  by (auto simp: selected_def Let_def length_rest [OF assms] min_def)

lemma set_selected: "set (selected mx poll_cnt cs) \<subseteq> set cs"
  using set_best by (fastforce simp: selected_def Let_def dest: in_set_takeD)

lemma distinct_selected:
  assumes "distinct (map snd cs)"
  shows "distinct (map snd (selected mx poll_cnt cs))"
proof -
  let ?b = "best (mx - reserved_slots mx poll_cnt) cs"
  let ?rest = "take (mx - length ?b) (filter (\<lambda>c. snd c \<notin> snd ` set ?b) cs)"
  have "distinct (map snd ?rest)"
    using assms by (simp add: take_map [symmetric] distinct_map_filter)
  moreover have "snd ` set ?b \<inter> snd ` set ?rest = {}"
    by (rule disjoint_imageI, drule in_set_takeD) simp
  ultimately show ?thesis
    using distinct_best [OF assms] by (simp add: selected_def Let_def)
qed

lemma selected_all:
  assumes "distinct (map snd cs)" and "length cs \<le> mx"
  shows "set (selected mx poll_cnt cs) = set cs"
proof (rule card_subset_eq)
  have "distinct (selected mx poll_cnt cs)" "distinct cs"
    using assms(1) distinct_selected [OF assms(1)] by (simp_all add: distinct_map)
  then show "card (set (selected mx poll_cnt cs)) = card (set cs)"
    using length_selected [OF assms(1)] assms(2) by (simp add: distinct_card)
qed (simp_all add: set_selected)

text \<open>The reserved share: the oldest candidates are selected whatever their priority.\<close>

lemma selected_reserved:
  assumes "distinct (map snd cs)"
  shows "set (take (reserved_slots mx poll_cnt) cs) \<subseteq> set (selected mx poll_cnt cs)"
proof
  let ?r = "reserved_slots mx poll_cnt"
  let ?b = "best (mx - ?r) cs"
  let ?P = "\<lambda>c. snd c \<notin> snd ` set ?b"
  fix c assume c: "c \<in> set (take ?r cs)"
  show "c \<in> set (selected mx poll_cnt cs)"
  proof (cases "?P c")
    case True
    have "length (filter ?P (take ?r cs)) \<le> ?r" "length ?b \<le> mx - ?r"
      by (rule order.trans [OF length_filter_le], simp, simp)
    then have "length (filter ?P (take ?r cs)) \<le> mx - length ?b"
      using reserved_slots_le [of mx poll_cnt] by linarith
    moreover have "filter ?P cs = filter ?P (take ?r cs) @ filter ?P (drop ?r cs)"
      by (metis append_take_drop_id filter_append)
    ultimately have "set (filter ?P (take ?r cs)) \<subseteq> set (take (mx - length ?b) (filter ?P cs))"
      by simp
    with c True show ?thesis by (auto simp: selected_def Let_def)
  next
    case False
    then obtain c' where "c' \<in> set ?b" "snd c' = snd c" by auto
    moreover have "c' \<in> set cs" "c \<in> set cs" using \<open>c' \<in> set ?b\<close> set_best c by (auto dest: in_set_takeD)
    ultimately have "c \<in> set ?b" using assms by (metis distinct_map inj_on_eq_iff)
    then show ?thesis by (simp add: selected_def Let_def)
  qed
qed

lemma selected_best: "set (best (mx - reserved_slots mx poll_cnt) cs) \<subseteq> set (selected mx poll_cnt cs)"
  by (auto simp: selected_def Let_def)

lemma reference_selected:
  assumes "distinct (map snd cs)"
  shows "reference_selection cs mx poll_cnt = map snd (sort_key rank (selected mx poll_cnt cs))"
proof (cases "cs = [] \<or> mx = 0")
  case True
  then have "length (selected mx poll_cnt cs) = 0" using length_selected [OF assms, of mx poll_cnt] by auto
  then show ?thesis using True by (auto simp: reference_selection_def)
next
  case False
  let ?slots = "mx - reserved_slots mx poll_cnt"
  let ?by_priority = "sort_key rank cs"
  let ?sel = "selected mx poll_cnt cs"
  have dist: "distinct (map snd ?by_priority)" using assms by (simp add: distinct_map)
  have p1: "pick_until ?slots ?by_priority {} [] = (snd ` set (best ?slots cs), best ?slots cs)"
    by (simp add: pick_until_eq [OF dist] best_def Let_def)
  have p2: "pick_until mx cs (snd ` set (best ?slots cs)) (best ?slots cs) = (snd ` set ?sel, ?sel)"
    by (simp add: pick_until_eq [OF assms] selected_def Let_def image_Un del: length_best)
  have "take (mx - length ?sel) (filter (\<lambda>c. snd c \<notin> snd ` set ?sel) ?by_priority) = []"
  proof (cases "length cs \<le> mx")
    case True
    then show ?thesis using selected_all [OF assms] by (auto simp: filter_empty_conv)
  next
    case False
    then show ?thesis using length_selected [OF assms] by simp
  qed
  then have p3: "snd (pick_until mx ?by_priority (snd ` set ?sel) ?sel) = ?sel"
    by (simp add: pick_until_eq [OF dist])
  show ?thesis
    using False p3 by (simp add: reference_selection_def Let_def p1 p2 case_prod_beta)
qed

end
