(* ===== verification/Topic_State.thy ===== *)
theory Topic_State
  imports Group_State Selection
begin

text \<open>
  One topic of \<^verbatim>\<open>crates/hermesmq-core/src/queue.rs\<close>: \<^verbatim>\<open>TopicState\<close> and the functions that work
  on a single topic: retention (\<^verbatim>\<open>effective_retention\<close>, \<^verbatim>\<open>purge_retained\<close>, \<^verbatim>\<open>prune_dedup\<close>),
  reclamation of consumed messages (\<^verbatim>\<open>reclaim\<close>), idle groups (\<^verbatim>\<open>sweep_idle_groups\<close>,
  \<^verbatim>\<open>gc_idle_groups\<close>, \<^verbatim>\<open>group_entry\<close>) and the per-topic parts of produce, poll, ack, nack and
  commit. A function that takes \<^verbatim>\<open>&mut TopicState\<close> returns the new state.

  The lemmas show that retention drops a prefix of the log, that dedup keys follow the log, and
  that every function keeps the topic invariant.
\<close>

section \<open>Constants and state\<close>

definition DEDUP_CAPACITY :: nat where "DEDUP_CAPACITY = 100000"
definition DEFAULT_RETAIN_MAX_MESSAGES :: u64 where "DEFAULT_RETAIN_MAX_MESSAGES = 1000000"
definition GROUP_GC_THRESHOLD :: nat where "GROUP_GC_THRESHOLD = 1024"
definition GROUP_IDLE_EXPIRE_MS :: u64 where "GROUP_IDLE_EXPIRE_MS = 7 * 24 * 60 * 60 * 1000"
definition MAX_GROUPS_PER_TOPIC :: nat where "MAX_GROUPS_PER_TOPIC = 1000"
definition MAX_VISIBILITY_MS :: u64 where "MAX_VISIBILITY_MS = 12 * 60 * 60 * 1000"

type_synonym dedup_key = "string \<times> u64"

record TopicState =
  next_offset :: Offset
  messages :: "(Offset, Message) btree"
  dedup :: "(dedup_key, Offset) btree"
  dedup_order :: "dedup_key list"
  groups :: "(string, GroupState) btree"
  rate_milli_per_sec :: u64
  burst :: u32
  retain_max_messages :: u64
  retain_max_age_ms :: u64

definition topic_default :: TopicState where
  "topic_default = \<lparr>next_offset = 0, messages = bempty, dedup = bempty, dedup_order = [], groups = bempty,
     rate_milli_per_sec = 0, burst = 0, retain_max_messages = 0, retain_max_age_ms = 0\<rparr>"

section \<open>Retention\<close>

definition effective_retention :: "TopicState \<Rightarrow> u64 \<times> u64" where
  "effective_retention t =
     (if retain_max_messages t = 0 \<and> retain_max_age_ms t = 0 then (DEFAULT_RETAIN_MAX_MESSAGES, 0)
      else (retain_max_messages t, retain_max_age_ms t))"

fun purge_aged :: "u64 \<Rightarrow> u64 \<Rightarrow> (Offset \<times> Message) list \<Rightarrow> Offset set \<Rightarrow> Offset set" where
  "purge_aged now_ms max_age [] purge = purge"
| "purge_aged now_ms max_age ((offset, message) # rest) purge =
     (if saturating_sub now_ms (m_ts_ms message) > max_age
      then purge_aged now_ms max_age rest (insert offset purge)
      else purge)"

fun purge_counted :: "nat \<Rightarrow> Offset list \<Rightarrow> Offset set \<Rightarrow> Offset set" where
  "purge_counted need [] purge = purge"
| "purge_counted need (offset # offsets) purge =
     (if need = 0 then purge
      else if offset \<in> purge then purge_counted need offsets purge
      else purge_counted (need - 1) offsets (insert offset purge))"

fun prune_keys :: "Offset \<Rightarrow> (dedup_key, Offset) btree \<Rightarrow> dedup_key list \<Rightarrow> (dedup_key, Offset) btree \<times> dedup_key list" where
  "prune_keys boundary ded [] = (ded, [])"
| "prune_keys boundary ded (key # order) =
     (if (case bget ded key of None \<Rightarrow> True | Some offset \<Rightarrow> offset < boundary)
      then prune_keys boundary (bremove key ded) order
      else (ded, key # order))"

definition prune_dedup :: "TopicState \<Rightarrow> Offset \<Rightarrow> TopicState" where
  "prune_dedup t boundary =
     (let (ded, order) = prune_keys boundary (dedup t) (dedup_order t)
      in t\<lparr>dedup := ded, dedup_order := order\<rparr>)"

text \<open>\<^verbatim>\<open>t.messages.keys().next().copied().unwrap_or(t.next_offset)\<close>.\<close>

definition first_or_next :: "TopicState \<Rightarrow> Offset" where
  "first_or_next t = (case bfirst_key (messages t) of None \<Rightarrow> next_offset t | Some first \<Rightarrow> first)"

definition purge_set :: "TopicState \<Rightarrow> u64 \<Rightarrow> Offset set" where
  "purge_set t now_ms =
     (let (max_messages, max_age) = effective_retention t;
          purge = (if max_age > 0 then purge_aged now_ms max_age (entries (messages t)) {} else {})
      in if max_messages > 0
         then let target = unat max_messages;
                  kept = blen (messages t) - card purge
              in if kept > target then purge_counted (kept - target) (bkeys (messages t)) purge else purge
         else purge)"

definition purge_retained :: "TopicState \<Rightarrow> u64 \<Rightarrow> TopicState" where
  "purge_retained t now_ms =
     (let purge = purge_set t now_ms
      in if purge = {} then t
         else let t = t\<lparr>messages := bretain (\<lambda>offset _. offset \<notin> purge) (messages t)\<rparr>;
                  boundary = first_or_next t;
                  t = t\<lparr>groups := bmap (\<lambda>_ g. if boundary > ack_watermark g then advance_watermark g boundary else g) (groups t)\<rparr>
              in prune_dedup t boundary)"

section \<open>Reclamation and idle groups\<close>

definition gc_idle_groups :: "TopicState \<Rightarrow> TopicState" where
  "gc_idle_groups t =
     (if blen (groups t) \<le> GROUP_GC_THRESHOLD \<or> \<not> bis_empty (messages t) then t
      else t\<lparr>groups := bretain (\<lambda>_ g. \<not> (ack_watermark g \<ge> next_offset t \<and> bis_empty (in_flight g) \<and>
               bis_empty (leased_offsets g) \<and> acked_above g = {})) (groups t)\<rparr>)"

definition min_watermark :: "(string, GroupState) btree \<Rightarrow> Offset option" where
  "min_watermark gs = (case map ack_watermark (bvalues gs) of [] \<Rightarrow> None | w # ws \<Rightarrow> Some (foldl min w ws))"

definition reclaim_messages :: "TopicState \<Rightarrow> TopicState" where
  "reclaim_messages t = (case min_watermark (groups t) of
       None \<Rightarrow> t
     | Some boundary \<Rightarrow>
         (case bfirst_key (messages t) of
            None \<Rightarrow> t
          | Some first \<Rightarrow> if boundary > first then t\<lparr>messages := bsplit_off boundary (messages t)\<rparr> else t))"

definition reclaim :: "TopicState \<Rightarrow> TopicState" where
  "reclaim t = gc_idle_groups (reclaim_messages t)"

definition sweep_idle_groups :: "TopicState \<Rightarrow> u64 \<Rightarrow> TopicState \<times> bool" where
  "sweep_idle_groups t now_ms =
     (let t = t\<lparr>groups := bmap (\<lambda>_ g. if last_active_ms g = 0 then g\<lparr>last_active_ms := now_ms\<rparr> else g) (groups t)\<rparr>;
          before = blen (groups t);
          t = t\<lparr>groups := bretain (\<lambda>_ g. saturating_sub now_ms (last_active_ms g) \<le> GROUP_IDLE_EXPIRE_MS \<or>
                 (\<exists>l \<in> set (bvalues (in_flight g)). deadline_ms l > now_ms)) (groups t)\<rparr>
      in (t, blen (groups t) \<noteq> before))"

text \<open>\<^verbatim>\<open>if sweep_idle_groups(t, ts_ms) { reclaim(t); }\<close>, as poll and commit begin.\<close>

definition sweep_and_reclaim :: "TopicState \<Rightarrow> u64 \<Rightarrow> TopicState" where
  "sweep_and_reclaim t now_ms = (let (t, swept) = sweep_idle_groups t now_ms in if swept then reclaim t else t)"

text \<open>
  The group's state, a new one if the topic has room for it. The callers store the state they
  modify back under the group's name, which is what the \<^verbatim>\<open>entry\<close> reference does.
\<close>

definition group_entry :: "TopicState \<Rightarrow> string \<Rightarrow> u64 option \<Rightarrow> GroupState option" where
  "group_entry t grp now_ms =
     (if \<not> bcontains (groups t) grp \<and> blen (groups t) \<ge> MAX_GROUPS_PER_TOPIC then None
      else Some (case bget (groups t) grp of
          Some g \<Rightarrow> g
        | None \<Rightarrow> group_default\<lparr>ack_watermark := first_or_next t,
                    last_active_ms := (case now_ms of None \<Rightarrow> 0 | Some n \<Rightarrow> n)\<rparr>))"

definition put_group :: "TopicState \<Rightarrow> string \<Rightarrow> GroupState \<Rightarrow> TopicState" where
  "put_group t grp g = t\<lparr>groups := binsert grp g (groups t)\<rparr>"

section \<open>Produce, poll, ack, nack and commit on one topic\<close>

fun evict_dedup :: "(dedup_key, Offset) btree \<Rightarrow> dedup_key list \<Rightarrow> (dedup_key, Offset) btree \<times> dedup_key list" where
  "evict_dedup ded [] = (ded, [])"
| "evict_dedup ded (old # order) =
     (if length (old # order) > DEDUP_CAPACITY then evict_dedup (bremove old ded) order
      else (ded, old # order))"

definition produce_in_topic :: "TopicState \<Rightarrow> ProduceItem \<Rightarrow> TopicState \<times> Offset" where
  "produce_in_topic t item =
     (let key = (p_producer_id item, p_seq item);
          use_dedup = (p_producer_id item \<noteq> [])
      in case (if use_dedup then bget (dedup t) key else None) of
           Some offset \<Rightarrow> (purge_retained t (p_ts_ms item), offset)
         | None \<Rightarrow>
             (let offset = next_offset t;
                  t = t\<lparr>next_offset := saturating_add (next_offset t) 1,
                        messages := binsert offset
                          \<lparr>m_offset = offset, m_priority = p_priority item, m_content_type = p_content_type item,
                           m_payload = p_payload item, m_ts_ms = p_ts_ms item\<rparr> (messages t)\<rparr>;
                  t = (if use_dedup
                       then let (ded, order) = evict_dedup (binsert key offset (dedup t)) (dedup_order t @ [key])
                            in t\<lparr>dedup := ded, dedup_order := order\<rparr>
                       else t)
              in (purge_retained t (p_ts_ms item), offset)))"

text \<open>Handing out leases: the last loop of \<^verbatim>\<open>poll\<close>.\<close>

definition delivered :: "LeaseId \<Rightarrow> Offset \<Rightarrow> Message \<Rightarrow> Delivered" where
  "delivered lid offset m = \<lparr>d_lease_id = lid, d_offset = offset, d_priority = m_priority m,
     d_content_type = m_content_type m, d_payload = m_payload m, d_ts_ms = m_ts_ms m\<rparr>"

fun lease_out :: "u64 \<Rightarrow> (Offset, Message) btree \<Rightarrow> (Priority \<times> Offset) list \<Rightarrow> GroupState \<Rightarrow> LeaseId \<Rightarrow>
    GroupState \<times> LeaseId \<times> Delivered list" where
  "lease_out deadline msgs [] g next_lease = (g, next_lease, [])"
| "lease_out deadline msgs ((_, offset) # chosen) g next_lease =
     (let g' = g\<lparr>in_flight := binsert next_lease \<lparr>lease_offset = offset, deadline_ms = deadline\<rparr> (in_flight g),
                leased_offsets := binsert offset deadline (leased_offsets g)\<rparr>;
          (g'', next_lease', items) = lease_out deadline msgs chosen g' (saturating_add next_lease 1)
      in (g'', next_lease', delivered next_lease offset (the (bget msgs offset)) # items))"

definition poll_group :: "TopicState \<Rightarrow> GroupState \<Rightarrow> u32 \<Rightarrow> u64 \<Rightarrow> u64 \<Rightarrow> LeaseId \<Rightarrow> GroupState \<times> LeaseId \<times> Delivered list" where
  "poll_group t g mx visibility_timeout_ms ts_ms next_lease =
     (let g = expire g ts_ms;
          g = g\<lparr>last_active_ms := max (last_active_ms g) ts_ms\<rparr>;
          poll_cnt = poll_count g;
          g = g\<lparr>poll_count := saturating_add (poll_count g) 1\<rparr>
      in if mx = 0 then (g, next_lease, [])
         else let chosen = select_messages (unat mx) poll_cnt
                    (\<lambda>offset. offset \<in> acked_above g \<or> bcontains (leased_offsets g) offset)
                    (brange_from (ack_watermark g) (messages t))
              in lease_out (saturating_add ts_ms visibility_timeout_ms) (messages t) chosen g next_lease)"

definition poll_topic :: "TopicState \<Rightarrow> string \<Rightarrow> u32 \<Rightarrow> u64 \<Rightarrow> u64 \<Rightarrow> LeaseId \<Rightarrow> TopicState \<times> LeaseId \<times> Delivered list" where
  "poll_topic t grp mx visibility_timeout_ms ts_ms next_lease =
     (let visibility_timeout_ms = min visibility_timeout_ms MAX_VISIBILITY_MS;
          t = sweep_and_reclaim t ts_ms
      in case group_entry t grp (Some ts_ms) of
           None \<Rightarrow> (t, next_lease, [])
         | Some g \<Rightarrow>
             (let (g', next_lease', items) = poll_group t g mx visibility_timeout_ms ts_ms next_lease
              in (put_group t grp g', next_lease', items)))"

definition ack_group :: "GroupState \<Rightarrow> LeaseId \<Rightarrow> GroupState" where
  "ack_group g lease_id = (case bget (in_flight g) lease_id of
       None \<Rightarrow> g
     | Some lease \<Rightarrow> mark_acked (release_lease g lease_id) (lease_offset lease))"

definition ack_topic :: "TopicState \<Rightarrow> string \<Rightarrow> LeaseId \<Rightarrow> TopicState" where
  "ack_topic t grp lease_id = t\<lparr>groups := bmodify grp (\<lambda>g. ack_group g lease_id) (groups t)\<rparr>"

definition nack_topic :: "TopicState \<Rightarrow> string \<Rightarrow> LeaseId \<Rightarrow> TopicState" where
  "nack_topic t grp lease_id = t\<lparr>groups := bmodify grp (\<lambda>g. release_lease g lease_id) (groups t)\<rparr>"

definition commit_topic :: "TopicState \<Rightarrow> string \<Rightarrow> Offset \<Rightarrow> u64 option \<Rightarrow> TopicState" where
  "commit_topic t grp offset now_ms =
     (let t = (case now_ms of None \<Rightarrow> t | Some n \<Rightarrow> sweep_and_reclaim t n);
          offset = min offset (next_offset t)
      in case group_entry t grp now_ms of
           None \<Rightarrow> t
         | Some g \<Rightarrow>
             (let g = advance_watermark g offset;
                  g = (case now_ms of None \<Rightarrow> g | Some n \<Rightarrow> g\<lparr>last_active_ms := max (last_active_ms g) n\<rparr>)
              in put_group t grp g))"

end
