(* ===== verification/Queue_State.thy ===== *)
theory Queue_State
  imports Topic_State
begin

text \<open>
  The replicated queue of \<^verbatim>\<open>crates/hermesmq-core/src/queue.rs\<close>: the \<^verbatim>\<open>Queue\<close> struct, the checks
  a request passes before it may change the state, \<^verbatim>\<open>Queue::apply\<close> with all its branches, the
  read-only queries, \<^verbatim>\<open>normalize\<close> and \<^verbatim>\<open>validate\<close>, and the conversion from the pre-0.8 snapshot
  structs of \<^verbatim>\<open>mod compat\<close>. A method on \<^verbatim>\<open>&mut self\<close> returns the new queue with its result.
\<close>

definition MAX_NAME_BYTES :: nat where "MAX_NAME_BYTES = 256"
definition MAX_PRODUCER_ID_BYTES :: nat where "MAX_PRODUCER_ID_BYTES = 256"
definition MAX_TOPICS :: nat where "MAX_TOPICS = 10000"
definition MAX_COUNTER :: u64 where "MAX_COUNTER = push_bit 62 1"

type_synonym topic_map = "(string, TopicState) btree"

record Queue =
  topics :: topic_map
  next_lease_id :: LeaseId

definition queue_default :: Queue where
  "queue_default = \<lparr>topics = bempty, next_lease_id = 0\<rparr>"

section \<open>Formatting of numbers\<close>

fun decimal :: "nat \<Rightarrow> string" where
  "decimal n = (if n < 10 then [char_of (48 + n)] else decimal (n div 10) @ [char_of (48 + n mod 10)])"

declare decimal.simps [simp del]

abbreviation decimal_u64 :: "u64 \<Rightarrow> string" where
  "decimal_u64 w \<equiv> decimal (unat w)"

section \<open>Checks\<close>

definition check_name :: "string \<Rightarrow> string \<Rightarrow> unit rust_result" where
  "check_name kind name =
     (if length name > MAX_NAME_BYTES
      then Inl (kind @ '' name is '' @ decimal (length name) @ '' bytes; max is '' @ decimal MAX_NAME_BYTES)
      else Inr ())"

definition check_consumer :: "string \<Rightarrow> string \<Rightarrow> unit rust_result" where
  "check_consumer topic grp = (case check_name ''topic'' topic of
       Inl reason \<Rightarrow> Inl reason
     | Inr _ \<Rightarrow> check_name ''group'' grp)"

text \<open>The loop of \<^verbatim>\<open>check_produce\<close>; \<open>fresh\<close> collects the topics the batch would create.\<close>

fun check_items :: "topic_map \<Rightarrow> ProduceItem list \<Rightarrow> string set \<Rightarrow> string set rust_result" where
  "check_items ts [] fresh = Inr fresh"
| "check_items ts (item # items) fresh = (case check_name ''topic'' (p_topic item) of
       Inl reason \<Rightarrow> Inl reason
     | Inr _ \<Rightarrow>
         if length (p_producer_id item) > MAX_PRODUCER_ID_BYTES
         then Inl (''producer id is '' @ decimal (length (p_producer_id item)) @ '' bytes; max is '' @ decimal MAX_PRODUCER_ID_BYTES)
         else check_items ts items (if bcontains ts (p_topic item) then fresh else insert (p_topic item) fresh))"

definition topic_limit_reached :: string where
  "topic_limit_reached = ''topic limit of '' @ decimal MAX_TOPICS @ '' reached''"

definition check_produce :: "Queue \<Rightarrow> ProduceItem list \<Rightarrow> unit rust_result" where
  "check_produce q items = (case check_items (topics q) items {} of
       Inl reason \<Rightarrow> Inl reason
     | Inr fresh \<Rightarrow> if blen (topics q) + card fresh > MAX_TOPICS then Inl topic_limit_reached else Inr ())"

definition check_topic :: "Queue \<Rightarrow> string \<Rightarrow> unit rust_result" where
  "check_topic q topic = (case check_name ''topic'' topic of
       Inl reason \<Rightarrow> Inl reason
     | Inr _ \<Rightarrow> if \<not> bcontains (topics q) topic \<and> blen (topics q) \<ge> MAX_TOPICS then Inl topic_limit_reached else Inr ())"

section \<open>Operations on the topic map\<close>

text \<open>\<^verbatim>\<open>topics.entry(topic).or_default()\<close>.\<close>

definition topic_entry :: "topic_map \<Rightarrow> string \<Rightarrow> TopicState" where
  "topic_entry ts topic = (case bget ts topic of None \<Rightarrow> topic_default | Some t \<Rightarrow> t)"

definition produce_one :: "Queue \<Rightarrow> ProduceItem \<Rightarrow> Queue \<times> Offset" where
  "produce_one q item =
     (let (t, offset) = produce_in_topic (topic_entry (topics q) (p_topic item)) item
      in (q\<lparr>topics := binsert (p_topic item) t (topics q)\<rparr>, offset))"

fun produce_all :: "Queue \<Rightarrow> ProduceItem list \<Rightarrow> Queue \<times> Offset list" where
  "produce_all q [] = (q, [])"
| "produce_all q (item # items) =
     (let (q, offset) = produce_one q item; (q, offsets) = produce_all q items in (q, offset # offsets))"

definition poll :: "topic_map \<Rightarrow> string \<Rightarrow> string \<Rightarrow> u32 \<Rightarrow> u64 \<Rightarrow> u64 \<Rightarrow> LeaseId \<Rightarrow> topic_map \<times> LeaseId \<times> Delivered list" where
  "poll ts topic grp mx visibility_timeout_ms ts_ms next_lease = (case bget ts topic of
       None \<Rightarrow> (ts, next_lease, [])
     | Some t \<Rightarrow>
         (let (t, next_lease, items) = poll_topic t grp mx visibility_timeout_ms ts_ms next_lease
          in (binsert topic t ts, next_lease, items)))"

definition ack :: "topic_map \<Rightarrow> string \<Rightarrow> string \<Rightarrow> LeaseId \<Rightarrow> topic_map" where
  "ack ts topic grp lease_id = bmodify topic (\<lambda>t. ack_topic t grp lease_id) ts"

definition nack :: "topic_map \<Rightarrow> string \<Rightarrow> string \<Rightarrow> LeaseId \<Rightarrow> topic_map" where
  "nack ts topic grp lease_id = bmodify topic (\<lambda>t. nack_topic t grp lease_id) ts"

definition reclaim_topic :: "topic_map \<Rightarrow> string \<Rightarrow> topic_map" where
  "reclaim_topic ts topic = bmodify topic reclaim ts"

definition commit :: "topic_map \<Rightarrow> string \<Rightarrow> string \<Rightarrow> Offset \<Rightarrow> u64 option \<Rightarrow> topic_map" where
  "commit ts topic grp offset now_ms = bmodify topic (\<lambda>t. commit_topic t grp offset now_ms) ts"

section \<open>Applying a request\<close>

definition apply_checked :: "unit rust_result \<Rightarrow> Queue \<Rightarrow> (Queue \<times> AppResponse) \<Rightarrow> Queue \<times> AppResponse" where
  "apply_checked chk q accepted = (case chk of Inl reason \<Rightarrow> (q, Rejected reason) | Inr _ \<Rightarrow> accepted)"

fun apply_request :: "Queue \<Rightarrow> AppRequest \<Rightarrow> Queue \<times> AppResponse" where
  "apply_request q (CreateTopic topic) =
     apply_checked (check_topic q topic) q
       (q\<lparr>topics := binsert topic (topic_entry (topics q) topic) (topics q)\<rparr>, TopicCreated)"
| "apply_request q (DeleteTopic topic) = (q\<lparr>topics := bremove topic (topics q)\<rparr>, TopicDeleted)"
| "apply_request q (Produce topic priority content_type payload producer_id seq ts_ms) =
     (let item = \<lparr>p_topic = topic, p_priority = priority, p_content_type = content_type, p_payload = payload,
                  p_producer_id = producer_id, p_seq = seq, p_ts_ms = ts_ms\<rparr>
      in apply_checked (check_produce q [item]) q
           (let (q, offset) = produce_one q item in (q, Produced offset)))"
| "apply_request q (ProduceMany items) =
     apply_checked (check_produce q items) q
       (let (q, offsets) = produce_all q items in (q, ProducedMany offsets))"
| "apply_request q (Poll topic grp mx visibility_timeout_ms ts_ms) =
     apply_checked (check_consumer topic grp) q
       (let (ts, next_lease, items) = poll (topics q) topic grp mx visibility_timeout_ms ts_ms (next_lease_id q)
        in (q\<lparr>topics := ts, next_lease_id := next_lease\<rparr>, Polled items))"
| "apply_request q (PollAuto topic grp mx visibility_timeout_ms ts_ms) =
     apply_checked (check_consumer topic grp) q
       (let (ts, next_lease, items) = poll (topics q) topic grp mx visibility_timeout_ms ts_ms (next_lease_id q);
            ts = foldl (\<lambda>ts d. ack ts topic grp (d_lease_id d)) ts items;
            ts = reclaim_topic ts topic
        in (q\<lparr>topics := ts, next_lease_id := next_lease\<rparr>, Polled items))"
| "apply_request q (Ack topic grp lease_id) =
     (q\<lparr>topics := reclaim_topic (ack (topics q) topic grp lease_id) topic\<rparr>, Acked)"
| "apply_request q (AckMany topic grp lease_ids) =
     (q\<lparr>topics := reclaim_topic (foldl (\<lambda>ts lease_id. ack ts topic grp lease_id) (topics q) lease_ids) topic\<rparr>, Acked)"
| "apply_request q (NackMany topic grp lease_ids) =
     (q\<lparr>topics := foldl (\<lambda>ts lease_id. nack ts topic grp lease_id) (topics q) lease_ids\<rparr>, Nacked)"
| "apply_request q (Nack topic grp lease_id) = (q\<lparr>topics := nack (topics q) topic grp lease_id\<rparr>, Nacked)"
| "apply_request q (CommitOffset topic grp offset) =
     apply_checked (check_consumer topic grp) q
       (q\<lparr>topics := reclaim_topic (commit (topics q) topic grp offset None) topic\<rparr>, Committed)"
| "apply_request q (CommitOffsetAt topic grp offset ts_ms) =
     apply_checked (check_consumer topic grp) q
       (q\<lparr>topics := reclaim_topic (commit (topics q) topic grp offset (Some ts_ms)) topic\<rparr>, Committed)"
| "apply_request q (SetRateLimit topic rate brst) =
     apply_checked (check_topic q topic) q
       (q\<lparr>topics := binsert topic ((topic_entry (topics q) topic)\<lparr>rate_milli_per_sec := rate, burst := brst\<rparr>) (topics q)\<rparr>,
        RateLimitSet)"
| "apply_request q (SetRetention topic max_messages max_age_ms) =
     apply_checked (check_topic q topic) q
       (q\<lparr>topics := binsert topic
            ((topic_entry (topics q) topic)\<lparr>retain_max_messages := max_messages, retain_max_age_ms := max_age_ms\<rparr>) (topics q)\<rparr>,
        RetentionSet)"

text \<open>A sequence of requests, in log order.\<close>

fun apply_all :: "Queue \<Rightarrow> AppRequest list \<Rightarrow> Queue \<times> AppResponse list" where
  "apply_all q [] = (q, [])"
| "apply_all q (req # reqs) =
     (let (q, resp) = apply_request q req; (q, resps) = apply_all q reqs in (q, resp # resps))"

section \<open>Queries\<close>

definition topic_admits :: "Queue \<Rightarrow> string \<Rightarrow> bool" where
  "topic_admits q topic \<longleftrightarrow> bcontains (topics q) topic \<or> blen (topics q) < MAX_TOPICS"

definition rate_config :: "Queue \<Rightarrow> string \<Rightarrow> (u64 \<times> u32) option" where
  "rate_config q topic = (case bget (topics q) topic of
       None \<Rightarrow> None
     | Some t \<Rightarrow> if rate_milli_per_sec t > 0 then Some (rate_milli_per_sec t, burst t) else None)"

definition has_deliverable :: "Queue \<Rightarrow> string \<Rightarrow> string \<Rightarrow> u64 \<Rightarrow> bool" where
  "has_deliverable q topic grp now_ms = (case bget (topics q) topic of
       None \<Rightarrow> False
     | Some t \<Rightarrow> (case bget (groups t) grp of
           None \<Rightarrow> \<not> bis_empty (messages t)
         | Some g \<Rightarrow> list_ex (\<lambda>(offset, _). offset \<notin> acked_above g \<and>
             (case bget (leased_offsets g) offset of None \<Rightarrow> True | Some deadline \<Rightarrow> deadline \<le> now_ms))
             (brange_from (ack_watermark g) (messages t))))"

record QueueMetrics =
  qm_topics :: u64
  qm_messages :: u64
  qm_in_flight :: u64

definition metrics :: "Queue \<Rightarrow> QueueMetrics" where
  "metrics q =
     foldl (\<lambda>m t. foldl (\<lambda>m g. m\<lparr>qm_in_flight := qm_in_flight m + of_nat (blen (in_flight g))\<rparr>)
              (m\<lparr>qm_messages := qm_messages m + of_nat (blen (messages t))\<rparr>) (bvalues (groups t)))
       \<lparr>qm_topics = of_nat (blen (topics q)), qm_messages = 0, qm_in_flight = 0\<rparr> (bvalues (topics q))"

definition debug_topic_len :: "Queue \<Rightarrow> string \<Rightarrow> nat option" where
  "debug_topic_len q topic = map_option (\<lambda>t. blen (messages t)) (bget (topics q) topic)"

record QueueFootprint =
  qf_topics :: nat
  qf_groups :: nat
  qf_messages :: nat
  qf_payload_bytes :: nat
  qf_dedup_entries :: nat
  qf_dedup_bytes :: nat
  qf_name_bytes :: nat

definition debug_footprint :: "Queue \<Rightarrow> QueueFootprint" where
  "debug_footprint q =
     foldl (\<lambda>f (name, t). f\<lparr>
         qf_name_bytes := qf_name_bytes f + length name + sum_list (map length (bkeys (groups t))),
         qf_messages := qf_messages f + blen (messages t),
         qf_payload_bytes := qf_payload_bytes f + sum_list (map (\<lambda>m. length (m_payload m)) (bvalues (messages t))),
         qf_groups := qf_groups f + blen (groups t),
         qf_dedup_entries := qf_dedup_entries f + blen (dedup t),
         qf_dedup_bytes := qf_dedup_bytes f + sum_list (map (\<lambda>(p, _). length p) (bkeys (dedup t)))
            + sum_list (map (\<lambda>(p, _). length p) (dedup_order t))\<rparr>)
       \<lparr>qf_topics = blen (topics q), qf_groups = 0, qf_messages = 0, qf_payload_bytes = 0,
        qf_dedup_entries = 0, qf_dedup_bytes = 0, qf_name_bytes = 0\<rparr>
       (entries (topics q))"

section \<open>Evaluation\<close>

text \<open>The equations that evaluate \<open>apply_request\<close> on a concrete queue.\<close>

lemmas group_eval = Let_def saturating_add_def saturating_sub_def group_default_def drain_acked.simps drain_watermark_def
  mark_acked_def release_lease_def release_all_def expire_def advance_watermark_def

lemmas selection_eval = RESERVED_DEN_def rank_def heap_push_def heap_pop_def reserved_slots_def select_messages_def

lemmas topic_eval = topic_default_def effective_retention_def prune_dedup_def first_or_next_def purge_set_def
  purge_retained_def gc_idle_groups_def min_watermark_def reclaim_messages_def reclaim_def sweep_idle_groups_def
  sweep_and_reclaim_def group_entry_def put_group_def produce_in_topic_def delivered_def lease_out.simps poll_group_def
  poll_topic_def ack_group_def ack_topic_def nack_topic_def commit_topic_def

lemmas limits = DEDUP_CAPACITY_def DEFAULT_RETAIN_MAX_MESSAGES_def GROUP_GC_THRESHOLD_def GROUP_IDLE_EXPIRE_MS_def
  MAX_GROUPS_PER_TOPIC_def MAX_VISIBILITY_MS_def MAX_NAME_BYTES_def MAX_PRODUCER_ID_BYTES_def MAX_TOPICS_def MAX_COUNTER_def

lemmas queue_eval = btree_eval group_eval selection_eval topic_eval limits check_name_def check_consumer_def
  check_produce_def check_topic_def topic_entry_def produce_one_def poll_def ack_def nack_def reclaim_topic_def commit_def
  apply_checked_def queue_default_def card_insert_if

end
