(* ===== verification/Topic_Invariants.thy ===== *)
theory Topic_Invariants
  imports Topic_State
begin

text \<open>
  The invariant of one topic and its preservation by every function of \<open>Topic_State\<close>, and the
  exact effect of retention: the messages it drops are a prefix of the log, the dedup keys it
  drops are those of dropped messages.
\<close>

section \<open>Retention drops a prefix\<close>

text \<open>How many of the oldest messages retention drops.\<close>

definition purge_count :: "TopicState \<Rightarrow> u64 \<Rightarrow> nat" where
  "purge_count t now_ms =
     (let (max_messages, max_age) = effective_retention t;
          aged = (if max_age > 0
                  then length (takeWhile (\<lambda>(_, m). saturating_sub now_ms (m_ts_ms m) > max_age) (entries (messages t)))
                  else 0)
      in if max_messages > 0 then max aged (blen (messages t) - unat max_messages) else aged)"

lemma purge_aged_eq:
  "purge_aged now_ms max_age es purge =
     purge \<union> fst ` set (takeWhile (\<lambda>(_, m). saturating_sub now_ms (m_ts_ms m) > max_age) es)"
  by (induction now_ms max_age es purge rule: purge_aged.induct) (auto simp: image_iff Bex_def)

lemma purge_counted_0 [simp]: "purge_counted 0 offsets purge = purge"
  by (cases offsets) simp_all

lemma purge_counted_skip: "set xs \<subseteq> purge \<Longrightarrow> purge_counted need (xs @ ys) purge = purge_counted need ys purge"
  by (induction xs) auto

lemma purge_counted_fresh:
  "distinct ys \<Longrightarrow> purge \<inter> set ys = {} \<Longrightarrow> purge_counted need ys purge = purge \<union> set (take need ys)"
  by (induction need ys purge rule: purge_counted.induct) (auto simp: take_Cons')

lemma purge_counted_prefix:
  assumes "distinct ks"
  shows "purge_counted need ks (set (take a ks)) = set (take (a + need) ks)"
proof -
  have "purge_counted need (take a ks @ drop a ks) (set (take a ks)) = purge_counted need (drop a ks) (set (take a ks))"
    by (rule purge_counted_skip) simp
  also have "\<dots> = set (take a ks) \<union> set (take need (drop a ks))"
    by (rule purge_counted_fresh) (use assms in \<open>simp_all add: set_take_disj_set_drop_if_distinct\<close>)
  also have "\<dots> = set (take (a + need) ks)" by (simp add: take_add)
  finally show ?thesis by simp
qed

lemma takeWhile_keys: "fst ` set (takeWhile P es) = set (take (length (takeWhile P es)) (map fst es))"
  by (simp add: takeWhile_eq_take [symmetric] take_map)

lemma purge_set_prefix: "purge_set t now_ms = set (take (purge_count t now_ms) (bkeys (messages t)))"
proof -
  obtain mm ma where er: "effective_retention t = (mm, ma)" by fastforce
  define a where "a = (if ma > 0
    then length (takeWhile (\<lambda>(_, m). saturating_sub now_ms (m_ts_ms m) > ma) (entries (messages t))) else 0)"
  define P where "P = (if ma > 0 then purge_aged now_ms ma (entries (messages t)) {} else {})"
  have P: "P = set (take a (bkeys (messages t)))"
    by (simp add: P_def a_def purge_aged_eq bkeys_def takeWhile_keys)
  have a_le: "a \<le> blen (messages t)"
    by (simp add: a_def blen_def length_takeWhile_le)
  then have card: "card P = a" by (simp add: P distinct_card)
  have "purge_set t now_ms = (if mm > 0 \<and> blen (messages t) - a > unat mm
      then purge_counted (blen (messages t) - a - unat mm) (bkeys (messages t)) P else P)"
    using er card by (simp add: purge_set_def Let_def P_def [symmetric])
  moreover have "purge_count t now_ms = (if mm > 0 then max a (blen (messages t) - unat mm) else a)"
    using er by (simp add: purge_count_def a_def Let_def)
  moreover have "purge_counted (blen (messages t) - a - unat mm) (bkeys (messages t)) P =
      set (take (a + (blen (messages t) - a - unat mm)) (bkeys (messages t)))"
    unfolding P by (rule purge_counted_prefix) simp
  ultimately show ?thesis
    using a_le by (auto simp: P max_def intro!: arg_cong [of _ _ "\<lambda>n. set (take n (bkeys (messages t)))"])
qed

lemma entries_retain_drop: "entries (bretain (\<lambda>k _. k \<notin> set (take n (bkeys m))) m) = drop n (entries m)"
proof -
  let ?P = "\<lambda>(k, _). k \<notin> set (take n (bkeys m))"
  have "filter ?P (take n (entries m)) = []"
    by (auto simp: filter_empty_conv bkeys_def take_map rev_image_eqI)
  moreover have "filter ?P (drop n (entries m)) = drop n (entries m)"
  proof (subst filter_id_conv, rule ballI)
    fix e assume "e \<in> set (drop n (entries m))"
    then have "fst e \<in> set (drop n (bkeys m))" by (simp add: bkeys_def drop_map)
    moreover have "set (take n (bkeys m)) \<inter> set (drop n (bkeys m)) = {}"
      by (rule set_take_disj_set_drop_if_distinct) simp_all
    ultimately show "?P e" by auto
  qed
  ultimately have "filter ?P (entries m) = drop n (entries m)"
    by (metis append_take_drop_id filter_append append_Nil)
  then show ?thesis by (simp add: bretain.rep_eq)
qed

section \<open>The dedup table\<close>

text \<open>
  The eviction queue lists exactly the keys of the table, in the order of their offsets: the
  claim of the comment on \<^verbatim>\<open>prune_dedup\<close>, which stops at the first key still in range.
\<close>

definition dedup_inv :: "Offset \<Rightarrow> (dedup_key, Offset) btree \<Rightarrow> dedup_key list \<Rightarrow> bool" where
  "dedup_inv next_off ded order \<longleftrightarrow>
     distinct order \<and> set order = dom (bget ded) \<and>
     sorted_wrt (\<lambda>k k'. the (bget ded k) < the (bget ded k')) order \<and>
     (\<forall>k offset. bget ded k = Some offset \<longrightarrow> offset < next_off)"

lemma dedup_inv_mono: "dedup_inv next_off ded order \<Longrightarrow> next_off \<le> next_off' \<Longrightarrow> dedup_inv next_off' ded order"
  unfolding dedup_inv_def by (meson less_le_trans)

lemma dedup_inv_pop:
  assumes "dedup_inv next_off ded (key # order)"
  shows "dedup_inv next_off (bremove key ded) order"
proof -
  from assms have key: "key \<notin> set order" and dom: "dom (bget ded) = insert key (set order)"
    by (auto simp: dedup_inv_def)
  have "sorted_wrt (\<lambda>k k'. the (bget (bremove key ded) k) < the (bget (bremove key ded) k')) order"
    using assms key by (auto simp: dedup_inv_def intro!: sorted_wrt_mono_rel [of order "\<lambda>k k'. the (bget ded k) < the (bget ded k')"])
  moreover have "set order = dom (bget (bremove key ded))"
    using key dom by (auto simp: dom_def set_eq_iff split: if_splits)
  ultimately show ?thesis using assms by (auto simp: dedup_inv_def split: if_splits)
qed

lemma dedup_inv_push:
  assumes "dedup_inv next_off ded order" and "bget ded key = None" and "next_off < next_off'"
  shows "dedup_inv next_off' (binsert key next_off ded) (order @ [key])"
proof -
  have key: "key \<notin> set order" using assms(1,2) by (auto simp: dedup_inv_def)
  have less: "k \<in> set order \<Longrightarrow> the (bget ded k) < next_off" for k
    using assms(1) by (cases k) (auto simp: dedup_inv_def)
  have "sorted_wrt (\<lambda>k k'. the (bget (binsert key next_off ded) k) < the (bget (binsert key next_off ded) k')) order"
    using assms(1) key by (auto simp: dedup_inv_def intro!: sorted_wrt_mono_rel [of order "\<lambda>k k'. the (bget ded k) < the (bget ded k')"])
  with assms key less show ?thesis
    by (auto simp: dedup_inv_def sorted_wrt_append split: if_splits) (force simp: dom_def split: if_splits)+
qed

text \<open>Pruning removes exactly the keys below the boundary.\<close>

lemma prune_keys_eq:
  assumes "dedup_inv next_off ded order"
  shows "prune_keys boundary ded order =
    (bretain (\<lambda>_ offset. boundary \<le> offset) ded, filter (\<lambda>k. boundary \<le> the (bget ded k)) order)"
  using assms
proof (induction boundary ded order rule: prune_keys.induct)
  case (1 boundary ded)
  then have "bget ded k = None" for k by (auto simp: dedup_inv_def)
  then have "bretain (\<lambda>_ offset. boundary \<le> offset) ded = ded" by (intro bretain_all) simp
  then show ?case by simp
next
  case (2 boundary ded key order)
  then have "key \<in> dom (bget ded)" unfolding dedup_inv_def by (metis list.set_intros(1))
  then obtain offset where off: "bget ded key = Some offset" by blast
  show ?case
  proof (cases "offset < boundary")
    case True
    from 2 True off have IH: "prune_keys boundary (bremove key ded) order =
        (bretain (\<lambda>_ offset. boundary \<le> offset) (bremove key ded), filter (\<lambda>k. boundary \<le> the (bget (bremove key ded) k)) order)"
      by (simp add: dedup_inv_pop)
    have "bretain (\<lambda>_ offset. boundary \<le> offset) (bremove key ded) = bretain (\<lambda>_ offset. boundary \<le> offset) ded"
      using True off by (intro btree_eqI_Some) auto
    moreover have "filter (\<lambda>k. boundary \<le> the (bget (bremove key ded) k)) order = filter (\<lambda>k. boundary \<le> the (bget ded k)) order"
      by (rule filter_cong) (use "2.prems" in \<open>auto simp: dedup_inv_def\<close>)
    ultimately show ?thesis using True off IH by simp
  next
    case False
    have above: "offset < the (bget ded k)" if "k \<in> set order" for k
      using "2.prems" off that by (simp add: dedup_inv_def)
    have "boundary \<le> offset'" if "bget ded k = Some offset'" for k offset'
    proof -
      from that "2.prems" have "k \<in> insert key (set order)" by (auto simp: dedup_inv_def)
      with that off False above [of k] show ?thesis by auto
    qed
    then have "bretain (\<lambda>_ offset. boundary \<le> offset) ded = ded" by (intro bretain_all)
    moreover have "boundary \<le> the (bget ded k)" if "k \<in> set order" for k
      using above [OF that] False by simp
    then have "filter (\<lambda>k. boundary \<le> the (bget ded k)) order = order" by (simp add: filter_True)
    ultimately show ?thesis using False off by simp
  qed
qed

lemma dedup_inv_retain:
  assumes "dedup_inv next_off ded order"
  shows "dedup_inv next_off (bretain (\<lambda>_ offset. boundary \<le> offset) ded) (filter (\<lambda>k. boundary \<le> the (bget ded k)) order)"
proof -
  let ?ded = "bretain (\<lambda>_ offset. boundary \<le> offset) ded"
  let ?order = "filter (\<lambda>k. boundary \<le> the (bget ded k)) order"
  have same: "bget ?ded k = bget ded k" if "k \<in> set ?order" for k
    using that assms by (auto simp: dedup_inv_def bget_retain split: option.splits)
  have "sorted_wrt (\<lambda>k k'. the (bget ded k) < the (bget ded k')) ?order"
    using assms by (simp add: dedup_inv_def sorted_wrt_filter)
  then have "sorted_wrt (\<lambda>k k'. the (bget ?ded k) < the (bget ?ded k')) ?order"
    by (rule sorted_wrt_mono_rel [rotated]) (simp add: same del: set_filter)
  with assms show ?thesis by (auto simp: dedup_inv_def dom_def)
qed

lemma evict_dedup_inv:
  "dedup_inv next_off ded order \<Longrightarrow> evict_dedup ded order = (ded', order') \<Longrightarrow>
   dedup_inv next_off ded' order' \<and> length order' \<le> DEDUP_CAPACITY \<and> (length order \<le> DEDUP_CAPACITY \<longrightarrow> ded' = ded \<and> order' = order)"
  by (induction ded order rule: evict_dedup.induct) (auto simp: dedup_inv_pop split: if_splits)

section \<open>The topic invariant\<close>

definition topic_inv :: "LeaseId \<Rightarrow> TopicState \<Rightarrow> bool" where
  "topic_inv next_lid t \<longleftrightarrow>
     (\<forall>offset m. bget (messages t) offset = Some m \<longrightarrow> m_offset m = offset \<and> offset < next_offset t) \<and>
     dedup_inv (next_offset t) (dedup t) (dedup_order t) \<and> length (dedup_order t) \<le> DEDUP_CAPACITY \<and>
     (\<forall>name g. bget (groups t) name = Some g \<longrightarrow> group_inv (next_offset t) next_lid g)"

lemma topic_inv_default [keeps_inv]: "topic_inv next_lid topic_default"
  by (simp add: topic_inv_def topic_default_def dedup_inv_def dom_def)

lemma topic_inv_mono: "topic_inv next_lid t \<Longrightarrow> next_lid \<le> next_lid' \<Longrightarrow> topic_inv next_lid' t"
  unfolding topic_inv_def by (blast intro: group_inv_mono)

lemma topic_inv_config [simp]:
  "topic_inv next_lid (t\<lparr>rate_milli_per_sec := r, burst := b\<rparr>) = topic_inv next_lid t"
  "topic_inv next_lid (t\<lparr>retain_max_messages := m, retain_max_age_ms := a\<rparr>) = topic_inv next_lid t"
  by (simp_all add: topic_inv_def)

lemma first_or_next_le:
  assumes "topic_inv next_lid t"
  shows "first_or_next t \<le> next_offset t"
  using assms by (auto simp: first_or_next_def topic_inv_def bfirst_key_Some intro: less_imp_le split: option.splits)

lemma topic_inv_groups:
  assumes "topic_inv next_lid t"
    and "\<And>name g. bget gs name = Some g \<Longrightarrow> group_inv (next_offset t) next_lid g"
  shows "topic_inv next_lid (t\<lparr>groups := gs\<rparr>)"
  using assms by (simp add: topic_inv_def)

lemma topic_inv_fewer_messages:
  assumes "topic_inv next_lid t"
    and "\<And>offset m. bget ms offset = Some m \<Longrightarrow> bget (messages t) offset = Some m"
  shows "topic_inv next_lid (t\<lparr>messages := ms\<rparr>)"
  using assms by (simp add: topic_inv_def)

lemma topic_inv_prune [keeps_inv]: "topic_inv next_lid t \<Longrightarrow> topic_inv next_lid (prune_dedup t boundary)"
  using order.trans [OF length_filter_le]
  by (auto simp: prune_dedup_def topic_inv_def prune_keys_eq intro: dedup_inv_retain)

lemma topic_inv_purge [keeps_inv]:
  assumes "topic_inv next_lid t"
  shows "topic_inv next_lid (purge_retained t now_ms)"
proof (cases "purge_set t now_ms = {}")
  case False
  let ?t1 = "t\<lparr>messages := bretain (\<lambda>offset _. offset \<notin> purge_set t now_ms) (messages t)\<rparr>"
  let ?b = "first_or_next ?t1"
  let ?t2 = "?t1\<lparr>groups := bmap (\<lambda>_ g. if ?b > ack_watermark g then advance_watermark g ?b else g) (groups t)\<rparr>"
  have inv1: "topic_inv next_lid ?t1"
    by (rule topic_inv_fewer_messages [OF assms]) simp
  from first_or_next_le [OF inv1] have "?b \<le> next_offset t" by simp
  then have "group_inv (next_offset t) next_lid (advance_watermark g ?b)" if "bget (groups t) name = Some g" for name g
    using that assms by (intro group_inv_advance) (auto simp: topic_inv_def)
  with assms have "topic_inv next_lid ?t2"
    by (intro topic_inv_groups [OF inv1]) (auto simp: topic_inv_def)
  then show ?thesis
    using False by (simp add: purge_retained_def Let_def topic_inv_prune)
qed (use assms in \<open>simp add: purge_retained_def\<close>)

lemma topic_inv_gc [keeps_inv]: "topic_inv next_lid t \<Longrightarrow> topic_inv next_lid (gc_idle_groups t)"
  by (auto simp: gc_idle_groups_def topic_inv_def)

lemma topic_inv_reclaim_messages [keeps_inv]: "topic_inv next_lid t \<Longrightarrow> topic_inv next_lid (reclaim_messages t)"
  by (auto simp: reclaim_messages_def intro!: topic_inv_fewer_messages split: option.splits if_splits)

lemma topic_inv_reclaim [keeps_inv]: "topic_inv next_lid t \<Longrightarrow> topic_inv next_lid (reclaim t)"
  by (simp add: reclaim_def topic_inv_gc topic_inv_reclaim_messages)

lemma topic_inv_sweep [keeps_inv]: "topic_inv next_lid t \<Longrightarrow> topic_inv next_lid (fst (sweep_idle_groups t now_ms))"
  by (auto simp: sweep_idle_groups_def Let_def topic_inv_def)

lemma topic_inv_sweep_and_reclaim [keeps_inv]: "topic_inv next_lid t \<Longrightarrow> topic_inv next_lid (sweep_and_reclaim t now_ms)"
  using topic_inv_sweep [of next_lid t now_ms]
  by (auto simp: sweep_and_reclaim_def topic_inv_reclaim split: prod.splits)

lemma group_entry_inv:
  assumes "topic_inv next_lid t" and "group_entry t grp now_ms = Some g"
  shows "group_inv (next_offset t) next_lid g"
  using assms first_or_next_le [OF assms(1)]
  by (auto simp: group_entry_def topic_inv_def intro!: group_inv_default split: if_splits option.splits)

lemma topic_inv_put_group [keeps_inv]:
  "topic_inv next_lid t \<Longrightarrow> group_inv (next_offset t) next_lid g \<Longrightarrow> topic_inv next_lid (put_group t grp g)"
  by (auto simp: put_group_def topic_inv_def)

lemma group_inv_ack [keeps_inv]:
  assumes "group_inv next_off next_lid g"
  shows "group_inv next_off next_lid (ack_group g lid)"
proof (cases "bget (in_flight g) lid")
  case (Some l)
  have ok: "lease_index_ok g" using assms by (simp add: group_inv_def)
  have "lease_offset l < next_off" using assms Some by (simp add: group_inv_def)
  with assms Some show ?thesis
    by (auto simp: ack_group_def release_lease_leased [OF ok Some] intro!: group_inv_mark_acked group_inv_release)
qed (use assms in \<open>simp add: ack_group_def\<close>)

lemma topic_inv_ack [keeps_inv]: "topic_inv next_lid t \<Longrightarrow> topic_inv next_lid (ack_topic t grp lid)"
  by (auto simp: ack_topic_def topic_inv_def intro: group_inv_ack)

lemma topic_inv_nack [keeps_inv]: "topic_inv next_lid t \<Longrightarrow> topic_inv next_lid (nack_topic t grp lid)"
  by (auto simp: nack_topic_def topic_inv_def intro: group_inv_release)

lemma topic_inv_commit [keeps_inv]:
  assumes "topic_inv next_lid t"
  shows "topic_inv next_lid (commit_topic t grp offset now_ms)"
proof -
  let ?t = "case now_ms of None \<Rightarrow> t | Some n \<Rightarrow> sweep_and_reclaim t n"
  have inv: "topic_inv next_lid ?t" using assms by (simp add: topic_inv_sweep_and_reclaim split: option.splits)
  show ?thesis
  proof (cases "group_entry ?t grp now_ms")
    case None
    with inv show ?thesis by (simp add: commit_topic_def)
  next
    case (Some g)
    from group_entry_inv [OF inv Some]
    have "group_inv (next_offset ?t) next_lid (advance_watermark g (min offset (next_offset ?t)))"
      by (rule group_inv_advance) simp
    with inv Some show ?thesis
      by (auto simp: commit_topic_def Let_def intro!: topic_inv_put_group split: option.splits)
  qed
qed

section \<open>Producing\<close>

lemma produce_in_topic_cases:
  fixes t :: TopicState and item :: ProduceItem
  defines "key \<equiv> (p_producer_id item, p_seq item)"
  obtains (duplicate) offset where "p_producer_id item \<noteq> []" "bget (dedup t) key = Some offset"
      "produce_in_topic t item = (purge_retained t (p_ts_ms item), offset)"
  | (keyed) ded order where "p_producer_id item \<noteq> []" "bget (dedup t) key = None"
      "evict_dedup (binsert key (next_offset t) (dedup t)) (dedup_order t @ [key]) = (ded, order)"
      "produce_in_topic t item =
         (purge_retained (t\<lparr>next_offset := saturating_add (next_offset t) 1,
            messages := binsert (next_offset t) \<lparr>m_offset = next_offset t, m_priority = p_priority item,
              m_content_type = p_content_type item, m_payload = p_payload item, m_ts_ms = p_ts_ms item\<rparr> (messages t),
            dedup := ded, dedup_order := order\<rparr>) (p_ts_ms item), next_offset t)"
  | (unkeyed) "p_producer_id item = []"
      "produce_in_topic t item =
         (purge_retained (t\<lparr>next_offset := saturating_add (next_offset t) 1,
            messages := binsert (next_offset t) \<lparr>m_offset = next_offset t, m_priority = p_priority item,
              m_content_type = p_content_type item, m_payload = p_payload item, m_ts_ms = p_ts_ms item\<rparr> (messages t)\<rparr>)
            (p_ts_ms item), next_offset t)"
proof (cases "p_producer_id item = []")
  case True
  then show thesis by (intro unkeyed) (simp_all add: produce_in_topic_def Let_def)
next
  case False
  show thesis
  proof (cases "bget (dedup t) key")
    case None
    obtain ded order where ev: "evict_dedup (binsert key (next_offset t) (dedup t)) (dedup_order t @ [key]) = (ded, order)"
      by fastforce
    show thesis
      by (rule keyed [OF False None ev]) (use False None ev in \<open>simp add: produce_in_topic_def Let_def key_def\<close>)
  next
    case (Some offset)
    show thesis
      by (rule duplicate [OF False Some]) (use False Some in \<open>simp add: produce_in_topic_def Let_def key_def\<close>)
  qed
qed

lemma topic_inv_append:
  assumes "topic_inv next_lid t" and "next_offset t \<noteq> - 1"
    and "dedup_inv (saturating_add (next_offset t) 1) ded order" and "length order \<le> DEDUP_CAPACITY"
    and "m_offset m = next_offset t"
  shows "topic_inv next_lid (t\<lparr>next_offset := saturating_add (next_offset t) 1,
    messages := binsert (next_offset t) m (messages t), dedup := ded, dedup_order := order\<rparr>)"
proof -
  have up: "next_offset t < saturating_add (next_offset t) 1" by (rule saturating_add_one_greater [OF assms(2)])
  have "group_inv (saturating_add (next_offset t) 1) next_lid g" if "bget (groups t) name = Some g" for name g
    using assms(1) that up by - (rule group_inv_mono [of "next_offset t" next_lid], auto simp: topic_inv_def)
  moreover have "offset < saturating_add (next_offset t) 1" if "bget (messages t) offset = Some m'" for offset m'
    using assms(1) that less_trans [OF _ up] by (simp add: topic_inv_def)
  ultimately show ?thesis
    using assms up by (auto simp: topic_inv_def split: if_splits)
qed

lemma topic_inv_produce [keeps_inv]:
  assumes inv: "topic_inv next_lid t" and room: "next_offset t \<noteq> - 1"
  shows "topic_inv next_lid (fst (produce_in_topic t item))"
proof -
  have ded: "dedup_inv (next_offset t) (dedup t) (dedup_order t)" and len: "length (dedup_order t) \<le> DEDUP_CAPACITY"
    using inv by (simp_all add: topic_inv_def)
  have up: "next_offset t < saturating_add (next_offset t) 1" by (rule saturating_add_one_greater [OF room])
  show ?thesis
  proof (cases rule: produce_in_topic_cases [of item t])
    case (duplicate offset)
    then show ?thesis using inv by (simp add: topic_inv_purge)
  next
    case (keyed ded' order')
    from evict_dedup_inv [OF dedup_inv_push [OF ded keyed(2) up] keyed(3)]
    have "dedup_inv (saturating_add (next_offset t) 1) ded' order'" "length order' \<le> DEDUP_CAPACITY" by simp_all
    then show ?thesis
      unfolding keyed(4) fst_conv by (intro topic_inv_purge topic_inv_append [OF inv room]) simp_all
  next
    case unkeyed
    have "topic_inv next_lid (t\<lparr>next_offset := saturating_add (next_offset t) 1,
        messages := binsert (next_offset t) \<lparr>m_offset = next_offset t, m_priority = p_priority item,
          m_content_type = p_content_type item, m_payload = p_payload item, m_ts_ms = p_ts_ms item\<rparr> (messages t),
        dedup := dedup t, dedup_order := dedup_order t\<rparr>)"
      using len by (intro topic_inv_append [OF inv room]) (auto intro: dedup_inv_mono [OF ded] less_imp_le [OF up])
    then show ?thesis
      unfolding unkeyed(2) fst_conv by (intro topic_inv_purge) simp
  qed
qed

section \<open>Polling\<close>

text \<open>Handing out one lease.\<close>

definition grant :: "u64 \<Rightarrow> GroupState \<Rightarrow> LeaseId \<Rightarrow> Offset \<Rightarrow> GroupState" where
  "grant deadline g lid offset =
     g\<lparr>in_flight := binsert lid \<lparr>lease_offset = offset, deadline_ms = deadline\<rparr> (in_flight g),
       leased_offsets := binsert offset deadline (leased_offsets g)\<rparr>"

definition grantable :: "Offset \<Rightarrow> GroupState \<Rightarrow> Offset \<Rightarrow> bool" where
  "grantable next_off g offset \<longleftrightarrow> ack_watermark g \<le> offset \<and> offset < next_off \<and>
     offset \<notin> acked_above g \<and> bget (leased_offsets g) offset = None"

lemma grant_sel [simp, frame]:
  "ack_watermark (grant deadline g lid offset) = ack_watermark g"
  "acked_above (grant deadline g lid offset) = acked_above g"
  "poll_count (grant deadline g lid offset) = poll_count g"
  "last_active_ms (grant deadline g lid offset) = last_active_ms g"
  "in_flight (grant deadline g lid offset) = binsert lid \<lparr>lease_offset = offset, deadline_ms = deadline\<rparr> (in_flight g)"
  "leased_offsets (grant deadline g lid offset) = binsert offset deadline (leased_offsets g)"
  by (simp_all add: grant_def)

lemma lease_index_fresh: "group_inv next_off next_lid g \<Longrightarrow> bget (in_flight g) next_lid = None"
  unfolding group_inv_def by (metis less_irrefl option.exhaust)

lemma lease_index_grant:
  assumes ok: "lease_index_ok g" and fresh: "bget (in_flight g) lid = None" and free: "bget (leased_offsets g) offset = None"
  shows "lease_index_ok (grant deadline g lid offset)"
proof -
  have none: "lease_offset l \<noteq> offset" if "bget (in_flight g) lid' = Some l" for lid' l
    using lease_index_in_flight [OF ok that] free by auto
  show ?thesis
    using ok fresh unfolding lease_index_ok_def grant_sel
    by (auto split: if_splits dest: none) (metis option.distinct(1))
qed

lemma group_inv_grant [keeps_inv]:
  assumes inv: "group_inv next_off next_lid g" and free: "grantable next_off g offset" and room: "next_lid \<noteq> - 1"
  shows "group_inv next_off (saturating_add next_lid 1) (grant deadline g next_lid offset)"
proof -
  have up: "next_lid < saturating_add next_lid 1" by (rule saturating_add_one_greater [OF room])
  have "lease_index_ok (grant deadline g next_lid offset)"
    using inv free by (intro lease_index_grant lease_index_fresh) (auto simp: group_inv_def grantable_def)
  with inv free up show ?thesis
    unfolding group_inv_def grantable_def grant_sel by (auto split: if_splits intro: less_trans [OF _ up])
qed

lemma lease_out_Cons [simp]:
  "lease_out deadline msgs ((p, offset) # chosen) g next_lease =
     (case lease_out deadline msgs chosen (grant deadline g next_lease offset) (saturating_add next_lease 1) of
        (g', next_lease', items) \<Rightarrow> (g', next_lease', delivered next_lease offset (the (bget msgs offset)) # items))"
  by (simp add: grant_def)

declare lease_out.simps(2) [simp del]

text \<open>
  The effect of the lease loop: one item per chosen message in the chosen order, with consecutive
  lease ids, and both lease tables extended by exactly these leases.
\<close>

lemma lease_out_effect:
  assumes "lease_out deadline msgs chosen g next_lease = (g', next_lease', items)"
  shows "map d_offset items = map snd chosen"
    and "list_all (\<lambda>d. d = delivered (d_lease_id d) (d_offset d) (the (bget msgs (d_offset d)))) items"
    and "ack_watermark g' = ack_watermark g \<and> acked_above g' = acked_above g \<and> poll_count g' = poll_count g \<and>
         last_active_ms g' = last_active_ms g"
    and "bget (leased_offsets g') offset = (if offset \<in> snd ` set chosen then Some deadline else bget (leased_offsets g) offset)"
  using assms
  by (induction chosen arbitrary: g next_lease items) (auto simp: delivered_def rev_image_eqI split: prod.splits if_splits)

lemma word_room_step:
  fixes next_lease :: u64
  assumes "unat next_lease + Suc n < 2 ^ 64"
  shows "next_lease \<noteq> - 1" "unat (saturating_add next_lease 1) = Suc (unat next_lease)"
  using assms unat_minus_one [where 'a = 64] by (auto simp: unat_saturating_add)

lemma lease_out_ids:
  assumes "lease_out deadline msgs chosen g next_lease = (g', next_lease', items)"
    and "unat next_lease + length chosen < 2 ^ 64"
  shows "unat next_lease' = unat next_lease + length chosen \<and> map (unat \<circ> d_lease_id) items = [unat next_lease..<unat next_lease']"
  using assms
proof (induction chosen arbitrary: g next_lease items)
  case (Cons c chosen)
  obtain p offset where c: "c = (p, offset)" by (cases c)
  obtain items' where rest: "lease_out deadline msgs chosen (grant deadline g next_lease offset) (saturating_add next_lease 1) = (g', next_lease', items')"
    and items: "items = delivered next_lease offset (the (bget msgs offset)) # items'"
    using Cons.prems(1) by (auto simp: c split: prod.splits)
  have step: "unat (saturating_add next_lease 1) = Suc (unat next_lease)"
    using Cons.prems(2) by (intro word_room_step(2) [of next_lease "length chosen"]) simp
  then have "unat (saturating_add next_lease 1) + length chosen < 2 ^ 64" using Cons.prems(2) by simp
  from Cons.IH [OF rest this] step show ?case
    using upt_conv_Cons [of "unat next_lease" "unat next_lease'"] by (simp add: items delivered_def)
qed simp

lemma grantable_grant: "offset' \<noteq> offset \<Longrightarrow> grantable next_off (grant deadline g lid offset) offset' = grantable next_off g offset'"
  by (simp add: grantable_def)

lemma group_inv_lease_out [keeps_inv]:
  assumes "lease_out deadline msgs chosen g next_lease = (g', next_lease', items)"
    and "group_inv next_off next_lease g" and "distinct (map snd chosen)"
    and "\<forall>c \<in> set chosen. grantable next_off g (snd c)"
    and "unat next_lease + length chosen < 2 ^ 64"
  shows "group_inv next_off next_lease' g'"
  using assms
proof (induction chosen arbitrary: g next_lease items)
  case (Cons c chosen)
  obtain p offset where c: "c = (p, offset)" by (cases c)
  obtain items' where rest: "lease_out deadline msgs chosen (grant deadline g next_lease offset) (saturating_add next_lease 1) = (g', next_lease', items')"
    using Cons.prems(1) by (auto simp: c split: prod.splits)
  show ?case
  proof (rule Cons.IH [OF rest])
    show "group_inv next_off (saturating_add next_lease 1) (grant deadline g next_lease offset)"
      using Cons.prems word_room_step(1) [of next_lease "length chosen"] by (intro group_inv_grant) (simp_all add: c)
    show "\<forall>c\<in>set chosen. grantable next_off (grant deadline g next_lease offset) (snd c)"
    proof
      fix d assume d: "d \<in> set chosen"
      then have "snd d \<noteq> offset" using Cons.prems(3) by (auto simp: c)
      with d Cons.prems(4) show "grantable next_off (grant deadline g next_lease offset) (snd d)"
        by (simp add: grantable_grant)
    qed
  qed (use Cons.prems word_room_step(2) [of next_lease "length chosen"] in simp_all)
qed simp

end
