(* ===== verification/Topic_Poll.thy ===== *)
theory Topic_Poll
  imports Topic_Invariants
begin

text \<open>
  What a poll delivers from one topic: exactly the reference selection over the group's deliverable
  messages, each under a fresh lease whose deadline is the request's clock plus the clamped
  visibility timeout; and that polling keeps the topic invariant while lease ids last.
\<close>

section \<open>Deliverable messages\<close>

text \<open>
  The specification of delivery: a retained message the group has not acknowledged and that no
  lease still running at \<open>now_ms\<close> hides.
\<close>

definition deliverable :: "TopicState \<Rightarrow> GroupState \<Rightarrow> u64 \<Rightarrow> Offset set" where
  "deliverable t g now_ms = {offset. bget (messages t) offset \<noteq> None \<and> offset \<notin> acked_set g \<and>
     (\<forall>d. bget (leased_offsets g) offset = Some d \<longrightarrow> d \<le> now_ms)}"

definition poll_candidates :: "TopicState \<Rightarrow> GroupState \<Rightarrow> u64 \<Rightarrow> (Priority \<times> Offset) list" where
  "poll_candidates t g now_ms =
     candidates (\<lambda>offset. offset \<in> acked_above g \<or> bcontains (leased_offsets (expire g now_ms)) offset)
       (brange_from (ack_watermark g) (messages t))"

definition poll_chosen :: "TopicState \<Rightarrow> GroupState \<Rightarrow> u32 \<Rightarrow> u64 \<Rightarrow> (Priority \<times> Offset) list" where
  "poll_chosen t g mx now_ms = sort_key rank (selected (unat mx) (poll_count g) (poll_candidates t g now_ms))"

lemma sorted_poll_candidates: "sorted_wrt (<) (map snd (poll_candidates t g now_ms))"
  unfolding poll_candidates_def snd_candidates by (intro sorted_wrt_filter sorted_brange_from)

lemma distinct_poll_candidates: "distinct (map snd (poll_candidates t g now_ms))"
  using sorted_poll_candidates strict_sorted_iff by blast

lemma set_poll_candidates:
  assumes "lease_index_ok g"
  shows "snd ` set (poll_candidates t g now_ms) = deliverable t g now_ms"
proof -
  have "snd ` set (poll_candidates t g now_ms) = set (map snd (poll_candidates t g now_ms))" by simp
  also have "\<dots> = {offset. bget (messages t) offset \<noteq> None \<and> ack_watermark g \<le> offset \<and> offset \<notin> acked_above g \<and>
       bget (leased_offsets (expire g now_ms)) offset = None}"
    unfolding poll_candidates_def snd_candidates
    by (auto simp: set_brange_from bcontains_def image_iff)
  also have "\<dots> = deliverable t g now_ms"
    by (auto simp: deliverable_def acked_set_def expire_leases(2) [OF assms] not_less)
  finally show ?thesis .
qed

lemma length_poll_candidates:
  "lease_index_ok g \<Longrightarrow> length (poll_candidates t g now_ms) = card (deliverable t g now_ms)"
  using distinct_card [OF distinct_poll_candidates, of t g now_ms] set_poll_candidates [of g t now_ms] by simp

lemma poll_chosen_props:
  shows "distinct (map snd (poll_chosen t g mx now_ms))"
    and "set (poll_chosen t g mx now_ms) \<subseteq> set (poll_candidates t g now_ms)"
    and "length (poll_chosen t g mx now_ms) = min (unat mx) (length (poll_candidates t g now_ms))"
    and "map snd (poll_chosen t g mx now_ms) = reference_selection (poll_candidates t g now_ms) (unat mx) (poll_count g)"
  using distinct_selected [OF distinct_poll_candidates, of "unat mx" "poll_count g" t g now_ms]
    set_selected [of "unat mx" "poll_count g" "poll_candidates t g now_ms"]
    length_selected [OF distinct_poll_candidates, of "unat mx" "poll_count g" t g now_ms]
    reference_selected [OF distinct_poll_candidates, of t g now_ms "unat mx" "poll_count g"]
  by (auto simp: poll_chosen_def distinct_map inj_on_def)

section \<open>The effect of a poll on one group\<close>

definition poll_started :: "GroupState \<Rightarrow> u64 \<Rightarrow> GroupState" where
  "poll_started g ts_ms = (expire g ts_ms)\<lparr>last_active_ms := max (last_active_ms g) ts_ms,
     poll_count := saturating_add (poll_count g) 1\<rparr>"

lemma poll_started_sel [simp]:
  "ack_watermark (poll_started g ts_ms) = ack_watermark g" "acked_above (poll_started g ts_ms) = acked_above g"
  "in_flight (poll_started g ts_ms) = in_flight (expire g ts_ms)"
  "leased_offsets (poll_started g ts_ms) = leased_offsets (expire g ts_ms)"
  "poll_count (poll_started g ts_ms) = saturating_add (poll_count g) 1"
  "last_active_ms (poll_started g ts_ms) = max (last_active_ms g) ts_ms"
  by (simp_all add: poll_started_def)

lemma group_inv_poll_started: "group_inv next_off next_lid g \<Longrightarrow> group_inv next_off next_lid (poll_started g ts_ms)"
  by (simp add: poll_started_def group_inv_expire)

lemma poll_group_eq:
  "poll_group t g mx vis ts_ms next_lease =
     lease_out (saturating_add ts_ms vis) (messages t) (poll_chosen t g mx ts_ms) (poll_started g ts_ms) next_lease"
proof (cases "mx = 0")
  case True
  then have "poll_chosen t g mx ts_ms = []" using poll_chosen_props(3) [of t g mx ts_ms] by simp
  with True show ?thesis by (simp add: poll_group_def poll_started_def Let_def)
next
  case False
  have "distinct (map fst (brange_from (ack_watermark g) (messages t)))"
    using sorted_brange_from strict_sorted_iff by blast
  from select_messages_selected [OF this] False show ?thesis
    by (simp add: poll_group_def poll_started_def poll_chosen_def poll_candidates_def Let_def)
qed

lemma poll_chosen_grantable:
  assumes "topic_inv next_lid t" and "lease_index_ok g" and "c \<in> set (poll_chosen t g mx ts_ms)"
  shows "grantable (next_offset t) (poll_started g ts_ms) (snd c)"
proof -
  have "snd c \<in> deliverable t g ts_ms"
    using assms(3) poll_chosen_props(2) [of t g mx ts_ms] set_poll_candidates [OF assms(2)] by blast
  with assms(1,2) show ?thesis
    by (auto simp: deliverable_def grantable_def acked_set_def topic_inv_def expire_leases not_less)
qed

lemma poll_group_delivers:
  assumes ok: "lease_index_ok g" and poll: "poll_group t g mx vis ts_ms next_lid = (g', next_lid', items)"
  shows "map d_offset items = reference_selection (poll_candidates t g ts_ms) (unat mx) (poll_count g)"
    and "d_offset ` set items \<subseteq> deliverable t g ts_ms" and "distinct (map d_offset items)"
    and "length items = min (unat mx) (card (deliverable t g ts_ms))"
    and "d \<in> set items \<Longrightarrow> d = delivered (d_lease_id d) (d_offset d) (the (bget (messages t) (d_offset d)))"
    and "acked_set g' = acked_set g"
    and "bget (leased_offsets g') offset = (if offset \<in> d_offset ` set items then Some (saturating_add ts_ms vis)
           else bget (leased_offsets (expire g ts_ms)) offset)"
proof -
  note out = lease_out_effect [OF poll [unfolded poll_group_eq]]
  from out(1) have img: "d_offset ` set items = snd ` set (poll_chosen t g mx ts_ms)"
    by (metis list.set_map)
  show "map d_offset items = reference_selection (poll_candidates t g ts_ms) (unat mx) (poll_count g)"
    using out(1) poll_chosen_props(4) by simp
  show "d_offset ` set items \<subseteq> deliverable t g ts_ms"
    using img poll_chosen_props(2) [of t g mx ts_ms] set_poll_candidates [OF ok] by blast
  show "distinct (map d_offset items)" using out(1) poll_chosen_props(1) by metis
  show "length items = min (unat mx) (card (deliverable t g ts_ms))"
    using out(1) poll_chosen_props(3) length_poll_candidates [OF ok] by (metis length_map)
  show "d \<in> set items \<Longrightarrow> d = delivered (d_lease_id d) (d_offset d) (the (bget (messages t) (d_offset d)))"
    using out(2) by (simp add: list_all_iff)
  show "acked_set g' = acked_set g" using out(3) by (simp add: acked_set_def)
  show "bget (leased_offsets g') offset = (if offset \<in> d_offset ` set items then Some (saturating_add ts_ms vis)
           else bget (leased_offsets (expire g ts_ms)) offset)"
    unfolding img using out(4) by simp
qed

section \<open>Polling a topic\<close>

lemma poll_topic_cases:
  fixes t :: TopicState and ts_ms :: u64
  defines "t1 \<equiv> sweep_and_reclaim t ts_ms"
  obtains (full) "group_entry t1 grp (Some ts_ms) = None" "poll_topic t grp mx vis ts_ms next_lid = (t1, next_lid, [])"
  | (polled) g g' next_lid' items where "group_entry t1 grp (Some ts_ms) = Some g"
      "poll_group t1 g mx (min vis MAX_VISIBILITY_MS) ts_ms next_lid = (g', next_lid', items)"
      "poll_topic t grp mx vis ts_ms next_lid = (put_group t1 grp g', next_lid', items)"
proof (cases "group_entry t1 grp (Some ts_ms)")
  case None
  then show thesis by (intro full) (simp_all add: poll_topic_def t1_def Let_def)
next
  case (Some g)
  obtain g' next_lid' items where p: "poll_group t1 g mx (min vis MAX_VISIBILITY_MS) ts_ms next_lid = (g', next_lid', items)"
    by (metis prod.exhaust)
  show thesis by (rule polled [OF Some p]) (use Some p in \<open>simp add: poll_topic_def t1_def Let_def\<close>)
qed

lemma poll_group_ids:
  assumes room: "unat next_lid + unat mx < 2 ^ 64" and poll: "poll_group t g mx vis ts_ms next_lid = (g', next_lid', items)"
  shows "unat next_lid' = unat next_lid + length items \<and> length items \<le> unat mx \<and>
    map (unat \<circ> d_lease_id) items = [unat next_lid..<unat next_lid']"
proof -
  note out = poll [unfolded poll_group_eq]
  have len: "length items = length (poll_chosen t g mx ts_ms)"
    using lease_out_effect(1) [OF out] by (metis length_map)
  then have "length items \<le> unat mx" using poll_chosen_props(3) [of t g mx ts_ms] by simp
  with room len lease_out_ids [OF out] show ?thesis by simp
qed

lemma poll_topic_ids:
  assumes "unat next_lid + unat mx < 2 ^ 64" and "poll_topic t grp mx vis ts_ms next_lid = (t', next_lid', items)"
  shows "unat next_lid' = unat next_lid + length items \<and> length items \<le> unat mx \<and>
    map (unat \<circ> d_lease_id) items = [unat next_lid..<unat next_lid']"
proof (cases rule: poll_topic_cases [of t ts_ms grp mx vis next_lid])
  case (polled g g' nl' items')
  from poll_group_ids [OF assms(1) polled(2)] show ?thesis using assms(2) polled(3) by simp
qed (use assms(2) in simp)

lemma group_inv_poll [keeps_inv]:
  assumes inv: "topic_inv next_lid t" and g: "group_inv (next_offset t) next_lid g"
    and room: "unat next_lid + unat mx < 2 ^ 64"
    and poll: "poll_group t g mx vis ts_ms next_lid = (g', next_lid', items)"
  shows "group_inv (next_offset t) next_lid' g'"
proof -
  have ok: "lease_index_ok g" using g by (simp add: group_inv_def)
  note out = poll [unfolded poll_group_eq]
  have "unat next_lid + length (poll_chosen t g mx ts_ms) < 2 ^ 64"
    using room poll_chosen_props(3) [of t g mx ts_ms] by simp
  then show ?thesis
    by (rule group_inv_lease_out [OF out group_inv_poll_started [OF g] poll_chosen_props(1), rotated])
       (use poll_chosen_grantable [OF inv ok] in blast)
qed

lemma topic_inv_poll [keeps_inv]:
  assumes inv: "topic_inv next_lid t" and room: "unat next_lid + unat mx < 2 ^ 64"
    and poll: "poll_topic t grp mx vis ts_ms next_lid = (t', next_lid', items)"
  shows "topic_inv next_lid' t'"
proof -
  let ?t1 = "sweep_and_reclaim t ts_ms"
  have inv1: "topic_inv next_lid ?t1" by (rule topic_inv_sweep_and_reclaim [OF inv])
  show ?thesis
  proof (cases rule: poll_topic_cases [of t ts_ms grp mx vis next_lid])
    case full
    then show ?thesis using poll inv1 by simp
  next
    case (polled g g' nl' items')
    note gi = group_inv_poll [OF inv1 group_entry_inv [OF inv1 polled(1)] room polled(2)]
    have "next_lid \<le> nl'" using poll_group_ids [OF room polled(2)] by (simp add: word_le_nat_alt)
    then have "topic_inv nl' (put_group ?t1 grp g')"
      by (intro topic_inv_put_group topic_inv_mono [OF inv1] gi)
    then show ?thesis using poll polled(3) by simp
  qed
qed

end
