(* ===== verification/Queue_Contract.thy ===== *)
theory Queue_Contract
  imports Queue_State Topic_Poll
begin

text \<open>
  The interface between the queue and its topics. An invariant of single topics that every
  per-topic operation keeps is an invariant of every state \<^verbatim>\<open>Queue::apply\<close> reaches: the locale
  \<open>topic_contract\<close> states what the operations promise and lifts it through \<open>apply_request\<close> once,
  for every invariant of the development.

  Counters saturate instead of wrapping, so the promises are relative to a budget: \<open>request_cost\<close>
  bounds what one request adds to any counter, and the contract is used while the total stays
  below the \<^verbatim>\<open>MAX_COUNTER\<close> that \<^verbatim>\<open>validate\<close> enforces.
\<close>

section \<open>What a request costs\<close>

fun request_cost :: "AppRequest \<Rightarrow> nat" where
  "request_cost (Produce _ _ _ _ _ _ _) = 1"
| "request_cost (ProduceMany items) = length items"
| "request_cost (Poll _ _ mx _ _) = max 1 (unat mx)"
| "request_cost (PollAuto _ _ mx _ _) = max 1 (unat mx)"
| "request_cost _ = 0"

definition total_cost :: "AppRequest list \<Rightarrow> nat" where
  "total_cost reqs = sum_list (map request_cost reqs)"

lemma total_cost_simps [simp]: "total_cost [] = 0" "total_cost (req # reqs) = request_cost req + total_cost reqs"
  by (simp_all add: total_cost_def)

definition counter_limit :: nat where
  "counter_limit = unat MAX_COUNTER"

lemma counter_limit_eq: "counter_limit = 2 ^ 62"
proof -
  have "unat (push_bit 62 1 :: u64) = 2 ^ 62" by (simp add: push_bit_eq_mult)
  then show ?thesis by (simp only: counter_limit_def MAX_COUNTER_def)
qed

definition topics_all :: "(nat \<Rightarrow> LeaseId \<Rightarrow> TopicState \<Rightarrow> bool) \<Rightarrow> nat \<Rightarrow> Queue \<Rightarrow> bool" where
  "topics_all I n q \<longleftrightarrow> unat (next_lease_id q) \<le> n \<and> (\<forall>name t. bget (topics q) name = Some t \<longrightarrow> I n (next_lease_id q) t)"

lemma topics_all_swap:
  "topics_all I n (q\<lparr>next_lease_id := next_lid, topics := ts\<rparr>) = topics_all I n (q\<lparr>topics := ts, next_lease_id := next_lid\<rparr>)"
  by (simp add: topics_all_def)

section \<open>Accepted requests\<close>

lemma check_name_ok: "check_name kind name = Inr () \<longleftrightarrow> length name \<le> MAX_NAME_BYTES"
  by (simp add: check_name_def)

lemma check_consumer_ok:
  "check_consumer topic grp = Inr () \<longleftrightarrow> length topic \<le> MAX_NAME_BYTES \<and> length grp \<le> MAX_NAME_BYTES"
  by (auto simp: check_consumer_def check_name_def)

lemma check_items_ok:
  "check_items ts items fresh = Inr fresh' \<Longrightarrow>
     (\<forall>item \<in> set items. length (p_topic item) \<le> MAX_NAME_BYTES \<and> length (p_producer_id item) \<le> MAX_PRODUCER_ID_BYTES) \<and>
     fresh' = fresh \<union> {p_topic item |item. item \<in> set items \<and> \<not> bcontains ts (p_topic item)}"
proof (induction ts items fresh rule: check_items.induct)
  case (2 ts item items fresh)
  then have ok: "length (p_topic item) \<le> MAX_NAME_BYTES" "length (p_producer_id item) \<le> MAX_PRODUCER_ID_BYTES"
    by (auto simp: check_name_def split: if_splits)
  with 2 show ?case by (auto simp: check_name_def split: if_splits)
qed simp

lemma check_produce_ok:
  assumes "check_produce q items = Inr ()"
  shows "\<forall>item \<in> set items. length (p_topic item) \<le> MAX_NAME_BYTES \<and> length (p_producer_id item) \<le> MAX_PRODUCER_ID_BYTES"
    and "blen (topics q) + card {p_topic item |item. item \<in> set items \<and> \<not> bcontains (topics q) (p_topic item)} \<le> MAX_TOPICS"
proof -
  obtain fresh where f: "check_items (topics q) items {} = Inr fresh" and c: "blen (topics q) + card fresh \<le> MAX_TOPICS"
    using assms by (auto simp: check_produce_def split: sum.splits if_splits)
  from check_items_ok [OF f] c
  show "\<forall>item \<in> set items. length (p_topic item) \<le> MAX_NAME_BYTES \<and> length (p_producer_id item) \<le> MAX_PRODUCER_ID_BYTES"
    "blen (topics q) + card {p_topic item |item. item \<in> set items \<and> \<not> bcontains (topics q) (p_topic item)} \<le> MAX_TOPICS"
    by simp_all
qed

lemma check_topic_ok:
  "check_topic q topic = Inr () \<longleftrightarrow>
     length topic \<le> MAX_NAME_BYTES \<and> (bcontains (topics q) topic \<or> blen (topics q) < MAX_TOPICS)"
  by (auto simp: check_topic_def check_name_def)

lemma apply_checked_cases:
  assumes "chk = Inr () \<Longrightarrow> P accepted" and "\<And>reason. chk = Inl reason \<Longrightarrow> P (q, Rejected reason)"
  shows "P (apply_checked chk q accepted)"
  using assms by (cases chk) (auto simp: apply_checked_def)

section \<open>The contract\<close>

locale topic_contract =
  fixes I :: "nat \<Rightarrow> LeaseId \<Rightarrow> TopicState \<Rightarrow> bool"
  assumes default: "I n next_lid topic_default"
    and mono: "I n next_lid t \<Longrightarrow> n \<le> n' \<Longrightarrow> next_lid \<le> next_lid' \<Longrightarrow> I n' next_lid' t"
    and produce: "I n next_lid t \<Longrightarrow> n < counter_limit \<Longrightarrow> length (p_producer_id item) \<le> MAX_PRODUCER_ID_BYTES \<Longrightarrow>
      I (Suc n) next_lid (fst (produce_in_topic t item))"
    and poll: "I n next_lid t \<Longrightarrow> unat next_lid \<le> n \<Longrightarrow> n + max 1 (unat mx) \<le> counter_limit \<Longrightarrow>
      length grp \<le> MAX_NAME_BYTES \<Longrightarrow> poll_topic t grp mx vis ts_ms next_lid = (t', next_lid', items) \<Longrightarrow>
      I (n + max 1 (unat mx)) next_lid' t'"
    and ack: "I n next_lid t \<Longrightarrow> I n next_lid (ack_topic t grp lid)"
    and nack: "I n next_lid t \<Longrightarrow> I n next_lid (nack_topic t grp lid)"
    and reclaim: "I n next_lid t \<Longrightarrow> I n next_lid (reclaim t)"
    and commit: "I n next_lid t \<Longrightarrow> length grp \<le> MAX_NAME_BYTES \<Longrightarrow> I n next_lid (commit_topic t grp offset now_ms)"
    and rate: "I n next_lid t \<Longrightarrow> I n next_lid (t\<lparr>rate_milli_per_sec := r, burst := b\<rparr>)"
    and retention: "I n next_lid t \<Longrightarrow> I n next_lid (t\<lparr>retain_max_messages := mm, retain_max_age_ms := ma\<rparr>)"
begin

lemma all_mono: "topics_all I n q \<Longrightarrow> n \<le> n' \<Longrightarrow> topics_all I n' q"
  unfolding topics_all_def by (meson mono order.refl order.trans)

lemma all_entry: "topics_all I n q \<Longrightarrow> I n (next_lease_id q) (topic_entry (topics q) topic)"
  by (auto simp: topics_all_def topic_entry_def default split: option.splits)

lemma all_insert:
  "topics_all I n q \<Longrightarrow> I n (next_lease_id q) t \<Longrightarrow> topics_all I n (q\<lparr>topics := binsert topic t (topics q)\<rparr>)"
  by (auto simp: topics_all_def)

lemma all_modify:
  "topics_all I n (q\<lparr>topics := ts\<rparr>) \<Longrightarrow> (\<And>t. I n (next_lease_id q) t \<Longrightarrow> I n (next_lease_id q) (f t)) \<Longrightarrow>
   topics_all I n (q\<lparr>topics := bmodify topic f ts\<rparr>)"
  by (auto simp: topics_all_def)

lemma all_same: "topics_all I n q \<Longrightarrow> topics_all I n (q\<lparr>topics := topics q\<rparr>)"
  by simp

lemma all_ack: "topics_all I n (q\<lparr>topics := ts\<rparr>) \<Longrightarrow> topics_all I n (q\<lparr>topics := Queue_State.ack ts topic grp lid\<rparr>)"
  unfolding Queue_State.ack_def by (rule all_modify) (auto intro: ack)

lemma all_nack: "topics_all I n (q\<lparr>topics := ts\<rparr>) \<Longrightarrow> topics_all I n (q\<lparr>topics := Queue_State.nack ts topic grp lid\<rparr>)"
  unfolding Queue_State.nack_def by (rule all_modify) (auto intro: nack)

lemma all_reclaim: "topics_all I n (q\<lparr>topics := ts\<rparr>) \<Longrightarrow> topics_all I n (q\<lparr>topics := reclaim_topic ts topic\<rparr>)"
  unfolding reclaim_topic_def by (rule all_modify) (auto intro: reclaim)

lemma all_commit:
  "topics_all I n (q\<lparr>topics := ts\<rparr>) \<Longrightarrow> length grp \<le> MAX_NAME_BYTES \<Longrightarrow>
   topics_all I n (q\<lparr>topics := Queue_State.commit ts topic grp offset now_ms\<rparr>)"
  unfolding Queue_State.commit_def by (rule all_modify) (auto intro: commit)

lemma all_acks: "topics_all I n (q\<lparr>topics := ts\<rparr>) \<Longrightarrow> topics_all I n (q\<lparr>topics := foldl (\<lambda>ts x. Queue_State.ack ts topic grp (lid x)) ts xs\<rparr>)"
  by (induction xs arbitrary: ts) (simp_all add: all_ack)

lemma all_nacks: "topics_all I n (q\<lparr>topics := ts\<rparr>) \<Longrightarrow> topics_all I n (q\<lparr>topics := foldl (\<lambda>ts x. Queue_State.nack ts topic grp (lid x)) ts xs\<rparr>)"
  by (induction xs arbitrary: ts) (simp_all add: all_nack)

lemma all_produce_one:
  assumes "topics_all I n q" and "n < counter_limit" and "length (p_producer_id item) \<le> MAX_PRODUCER_ID_BYTES"
  shows "topics_all I (Suc n) (fst (produce_one q item))"
  using produce [OF all_entry [OF assms(1)] assms(2,3), of "p_topic item"] all_mono [OF assms(1), of "Suc n"]
  by (auto simp: produce_one_def Let_def all_insert split: prod.splits)

lemma all_produce_all:
  assumes "topics_all I n q" and "n + length items \<le> counter_limit"
    and "\<forall>item \<in> set items. length (p_producer_id item) \<le> MAX_PRODUCER_ID_BYTES"
  shows "topics_all I (n + length items) (fst (produce_all q items))"
  using assms
proof (induction items arbitrary: n q)
  case (Cons item items)
  obtain q' offset where p: "produce_one q item = (q', offset)" by fastforce
  have "topics_all I (Suc n) q'" using all_produce_one [of n q item] Cons.prems p by simp
  from Cons.IH [OF this] Cons.prems show ?case by (simp add: p case_prod_beta)
qed simp

lemma all_poll:
  assumes all: "topics_all I n q" and room: "n + max 1 (unat mx) \<le> counter_limit" and name: "length grp \<le> MAX_NAME_BYTES"
    and p: "Queue_State.poll (topics q) topic grp mx vis ts_ms (next_lease_id q) = (ts, next_lid, items)"
  shows "topics_all I (n + max 1 (unat mx)) (q\<lparr>topics := ts, next_lease_id := next_lid\<rparr>)"
proof (cases "bget (topics q) topic")
  case None
  with p all_mono [OF all, of "n + max 1 (unat mx)"] show ?thesis by (auto simp: Queue_State.poll_def topics_all_def)
next
  case (Some t)
  obtain t' where pt: "poll_topic t grp mx vis ts_ms (next_lease_id q) = (t', next_lid, items)" and ts: "ts = binsert topic t' (topics q)"
    using p Some by (auto simp: Queue_State.poll_def Let_def split: prod.splits)
  have n: "unat (next_lease_id q) \<le> n" and It: "I n (next_lease_id q) t" using all Some by (auto simp: topics_all_def)
  have "unat (next_lease_id q) + unat mx < 2 ^ 64" using n room by (simp add: counter_limit_eq)
  from poll_topic_ids [OF this pt]
  have up: "unat next_lid = unat (next_lease_id q) + length items" "length items \<le> unat mx" by simp_all
  then have le: "next_lease_id q \<le> next_lid" by (simp add: word_le_nat_alt)
  have "I (n + max 1 (unat mx)) next_lid t'" by (rule poll [OF It n room name pt])
  moreover have "I (n + max 1 (unat mx)) next_lid t''" if "bget (topics q) name = Some t''" for name t''
    using all that le by - (rule mono [of n "next_lease_id q" t''], auto simp: topics_all_def)
  ultimately show ?thesis using n up by (auto simp: topics_all_def ts)
qed

lemma all_step:
  assumes "topics_all I n q" and "n + request_cost req \<le> counter_limit"
  shows "topics_all I (n + request_cost req) (fst (apply_request q req))"
  using assms
proof (cases req)
  case (Poll topic grp mx vis ts_ms)
  obtain ts next_lid items where p: "Queue_State.poll (topics q) topic grp mx vis ts_ms (next_lease_id q) = (ts, next_lid, items)"
    by (metis prod.exhaust)
  show ?thesis using all_mono [OF assms(1)] all_poll [OF assms(1) _ _ p] assms(2)
    by (auto simp: Poll p check_consumer_ok intro!: apply_checked_cases [where P = "\<lambda>r. topics_all I _ (fst r)"])
next
  case (PollAuto topic grp mx vis ts_ms)
  obtain ts next_lid items where p: "Queue_State.poll (topics q) topic grp mx vis ts_ms (next_lease_id q) = (ts, next_lid, items)"
    by (metis prod.exhaust)
  have "topics_all I (n + max 1 (unat mx)) ((q\<lparr>next_lease_id := next_lid\<rparr>)\<lparr>topics :=
      reclaim_topic (foldl (\<lambda>ts d. Queue_State.ack ts topic grp (d_lease_id d)) ts items) topic\<rparr>)"
    if "length grp \<le> MAX_NAME_BYTES"
    using all_poll [OF assms(1) _ that p] assms(2) by (intro all_reclaim all_acks) (simp add: PollAuto topics_all_swap)
  then show ?thesis using all_mono [OF assms(1)] assms(2)
    by (auto simp: PollAuto p check_consumer_ok topics_all_swap intro!: apply_checked_cases [where P = "\<lambda>r. topics_all I _ (fst r)"])
next
  case (ProduceMany items)
  then show ?thesis using all_mono [OF assms(1)] assms all_produce_all [OF assms(1), of items] check_produce_ok(1) [of q items]
    by (auto simp: case_prod_beta intro!: apply_checked_cases [where P = "\<lambda>r. topics_all I _ (fst r)"])
next
  case (Produce topic priority content_type payload producer_id seq ts_ms)
  define item where "item = \<lparr>p_topic = topic, p_priority = priority, p_content_type = content_type, p_payload = payload,
                  p_producer_id = producer_id, p_seq = seq, p_ts_ms = ts_ms\<rparr>"
  show ?thesis using all_mono [OF assms(1)] assms all_produce_one [OF assms(1), of item] check_produce_ok(1) [of q "[item]"]
    by (auto simp: Produce item_def [symmetric] case_prod_beta Let_def intro!: apply_checked_cases [where P = "\<lambda>r. topics_all I _ (fst r)"])
next
  case (DeleteTopic topic)
  then show ?thesis using assms by (auto simp: topics_all_def)
qed (use assms in \<open>auto intro!: apply_checked_cases [where P = "\<lambda>r. topics_all I _ (fst r)"] all_reclaim all_commit all_acks all_nacks
       all_ack all_nack all_same all_insert rate retention all_entry simp: check_consumer_ok\<close>)

lemma all_run:
  assumes "topics_all I n q" and "n + total_cost reqs \<le> counter_limit"
  shows "topics_all I (n + total_cost reqs) (fst (apply_all q reqs))"
  using assms
proof (induction reqs arbitrary: n q)
  case (Cons req reqs)
  obtain q' resp where a: "apply_request q req = (q', resp)" by fastforce
  have "topics_all I (n + request_cost req) q'" using all_step [OF Cons.prems(1), of req] Cons.prems(2) a by simp
  from Cons.IH [OF this] Cons.prems(2) show ?case by (simp add: a add.assoc case_prod_beta)
qed simp

lemma all_default: "topics_all I 0 queue_default"
  by (simp add: topics_all_def queue_default_def)

lemma all_reachable: "total_cost reqs \<le> counter_limit \<Longrightarrow> topics_all I (total_cost reqs) (fst (apply_all queue_default reqs))"
  using all_run [OF all_default, of reqs] by simp

end

end
