(* ===== verification/Queue_Validate.thy ===== *)
theory Queue_Validate
  imports Queue_State
begin

text \<open>
  \<^verbatim>\<open>Queue::normalize\<close>, \<^verbatim>\<open>Queue::validate\<close> and the conversions of \<^verbatim>\<open>mod compat\<close> in
  \<^verbatim>\<open>crates/hermesmq-core/src/queue.rs\<close>: the checks a decoded snapshot passes before it replaces
  the queue. Each \<^verbatim>\<open>return Err(format!(..))\<close> is a branch with its message, in source order.
\<close>

section \<open>Normalising\<close>

definition normalize :: "Queue \<Rightarrow> Queue" where
  "normalize q = q\<lparr>topics := bmap (\<lambda>_ t. t\<lparr>groups := bmap (\<lambda>_ g.
     if ack_watermark g > next_offset t then g\<lparr>ack_watermark := next_offset t\<rparr> else g) (groups t)\<rparr>) (topics q)\<rparr>"

section \<open>Validating\<close>

text \<open>A \<^verbatim>\<open>for\<close> loop whose body may \<^verbatim>\<open>return Err\<close>, and the sequence of two checks.\<close>

fun for_each :: "('a \<Rightarrow> unit rust_result) \<Rightarrow> 'a list \<Rightarrow> unit rust_result" where
  "for_each chk [] = Inr ()"
| "for_each chk (x # xs) = (case chk x of Inl reason \<Rightarrow> Inl reason | Inr _ \<Rightarrow> for_each chk xs)"

definition then_check :: "unit rust_result \<Rightarrow> unit rust_result \<Rightarrow> unit rust_result" where
  "then_check r r' = (case r of Inl reason \<Rightarrow> Inl reason | Inr _ \<Rightarrow> r')"

definition fail_if :: "bool \<Rightarrow> string \<Rightarrow> unit rust_result" where
  "fail_if c reason = (if c then Inl reason else Inr ())"

fun checks :: "unit rust_result list \<Rightarrow> unit rust_result" where
  "checks [] = Inr ()"
| "checks (r # rs) = then_check r (checks rs)"

lemma for_each_ok: "for_each chk xs = Inr () \<longleftrightarrow> (\<forall>x \<in> set xs. chk x = Inr ())"
  by (induction xs) (auto split: sum.splits)

lemma checks_ok: "checks rs = Inr () \<longleftrightarrow> list_all (\<lambda>r. r = Inr ()) rs"
  by (induction rs) (auto simp: then_check_def split: sum.splits)

declare checks.simps [simp del]

lemma fail_if_ok [simp]: "fail_if c reason = Inr () \<longleftrightarrow> \<not> c"
  by (simp add: fail_if_def)

text \<open>\<^verbatim>\<open>iter().next_back()\<close> and \<^verbatim>\<open>iter().next()\<close> on a \<^verbatim>\<open>BTreeSet\<close>.\<close>

definition set_highest :: "Offset set \<Rightarrow> Offset option" where
  "set_highest s = (if s = {} then None else Some (Max s))"

definition set_lowest :: "Offset set \<Rightarrow> Offset option" where
  "set_lowest s = (if s = {} then None else Some (Min s))"

definition by_lease :: "GroupState \<Rightarrow> (Offset, u64) btree" where
  "by_lease g = bof_list (map (\<lambda>l. (lease_offset l, deadline_ms l)) (bvalues (in_flight g)))"

definition validate_lease :: "string \<Rightarrow> LeaseId \<Rightarrow> TopicState \<Rightarrow> LeaseId \<times> Lease \<Rightarrow> unit rust_result" where
  "validate_lease ctx next_lid t e = (case e of (lease_id, lease) \<Rightarrow> checks [
     fail_if (lease_id \<ge> next_lid)
       (ctx @ '': lease id '' @ decimal_u64 lease_id @ '' is at or above next_lease_id '' @ decimal_u64 next_lid),
     fail_if (lease_offset lease \<ge> next_offset t)
       (ctx @ '': lease holds offset '' @ decimal_u64 (lease_offset lease) @ '' at or above next_offset '' @ decimal_u64 (next_offset t))])"

definition validate_group :: "string \<Rightarrow> LeaseId \<Rightarrow> TopicState \<Rightarrow> string \<times> GroupState \<Rightarrow> unit rust_result" where
  "validate_group name next_lid t e = (case e of (grp, g) \<Rightarrow>
     (let ctx = ''topic '' @ name @ '' group '' @ grp in checks [
        fail_if (poll_count g > MAX_COUNTER) (ctx @ '': poll_count is '' @ decimal_u64 (poll_count g)),
        fail_if (ack_watermark g > next_offset t)
          (ctx @ '': watermark '' @ decimal_u64 (ack_watermark g) @ '' is above next_offset '' @ decimal_u64 (next_offset t)),
        (case set_highest (acked_above g) of None \<Rightarrow> Inr () | Some highest \<Rightarrow>
           fail_if (highest \<ge> next_offset t)
             (ctx @ '': acked_above holds '' @ decimal_u64 highest @ '' at or above next_offset '' @ decimal_u64 (next_offset t))),
        for_each (validate_lease ctx next_lid t) (entries (in_flight g)),
        fail_if (blen (by_lease g) \<noteq> blen (in_flight g)) (ctx @ '': two leases share one offset''),
        fail_if (by_lease g \<noteq> leased_offsets g) (ctx @ '': in_flight and leased_offsets disagree''),
        fail_if (ack_watermark g \<in> acked_above g)
          (ctx @ '': acked_above still holds the watermark '' @ decimal_u64 (ack_watermark g)),
        (case set_lowest (acked_above g) of None \<Rightarrow> Inr () | Some lowest \<Rightarrow>
           fail_if (lowest < ack_watermark g)
             (ctx @ '': acked_above holds '' @ decimal_u64 lowest @ '' below watermark '' @ decimal_u64 (ack_watermark g))),
        (case bfirst_key (leased_offsets g) of None \<Rightarrow> Inr () | Some lowest \<Rightarrow>
           fail_if (lowest < ack_watermark g)
             (ctx @ '': lease at '' @ decimal_u64 lowest @ '' is below watermark '' @ decimal_u64 (ack_watermark g)))]))"

definition validate_topic :: "LeaseId \<Rightarrow> string \<times> TopicState \<Rightarrow> unit rust_result" where
  "validate_topic next_lid e = (case e of (name, t) \<Rightarrow>
     (let ctx = ''topic '' @ name in checks [
        fail_if (next_offset t > MAX_COUNTER) (ctx @ '': next_offset is '' @ decimal_u64 (next_offset t)),
        for_each (\<lambda>(offset, message). fail_if (m_offset message \<noteq> offset)
          (ctx @ '': message stored at '' @ decimal_u64 offset @ '' carries offset '' @ decimal_u64 (m_offset message)))
          (entries (messages t)),
        (case blast_key (messages t) of None \<Rightarrow> Inr () | Some highest \<Rightarrow>
           fail_if (highest \<ge> next_offset t)
             (ctx @ '': message offset '' @ decimal_u64 highest @ '' is at or above next_offset '' @ decimal_u64 (next_offset t))),
        fail_if (blen (dedup t) \<noteq> length (dedup_order t))
          (ctx @ '': dedup has '' @ decimal (blen (dedup t)) @ '' entries but dedup_order has '' @ decimal (length (dedup_order t))),
        fail_if (blen (dedup t) > DEDUP_CAPACITY) (ctx @ '': dedup holds '' @ decimal (blen (dedup t)) @ '' entries''),
        fail_if (card (set (dedup_order t)) \<noteq> length (dedup_order t)) (ctx @ '': dedup_order holds a duplicate key''),
        for_each (\<lambda>key. fail_if (\<not> bcontains (dedup t) key) (ctx @ '': dedup_order key is missing from dedup'')) (dedup_order t),
        for_each (validate_group name next_lid t) (entries (groups t))]))"

definition validate :: "Queue \<Rightarrow> unit rust_result" where
  "validate q = checks [
     fail_if (next_lease_id q > MAX_COUNTER) (''next_lease_id is '' @ decimal_u64 (next_lease_id q)),
     for_each (validate_topic (next_lease_id q)) (entries (topics q))]"

section \<open>Snapshots of earlier releases\<close>

record GroupStateV0 =
  v0_ack_watermark :: Offset
  v0_acked_above :: "Offset set"
  v0_in_flight :: "(LeaseId, Lease) btree"
  v0_leased_offsets :: "(Offset, u64) btree"
  v0_poll_count :: u64

record TopicStateV0 =
  v0_next_offset :: Offset
  v0_messages :: "(Offset, Message) btree"
  v0_dedup :: "(dedup_key, Offset) btree"
  v0_dedup_order :: "dedup_key list"
  v0_groups :: "(string, GroupStateV0) btree"
  v0_rate_milli_per_sec :: u64
  v0_burst :: u32
  v0_retain_max_messages :: u64
  v0_retain_max_age_ms :: u64

record QueueV0 =
  v0_topics :: "(string, TopicStateV0) btree"
  v0_next_lease_id :: LeaseId

definition group_from_v0 :: "GroupStateV0 \<Rightarrow> GroupState" where
  "group_from_v0 g = \<lparr>ack_watermark = v0_ack_watermark g, acked_above = v0_acked_above g, in_flight = v0_in_flight g,
     leased_offsets = v0_leased_offsets g, poll_count = v0_poll_count g, last_active_ms = 0\<rparr>"

definition topic_from_v0 :: "TopicStateV0 \<Rightarrow> TopicState" where
  "topic_from_v0 t = \<lparr>next_offset = v0_next_offset t, messages = v0_messages t, dedup = v0_dedup t,
     dedup_order = v0_dedup_order t, groups = bmap (\<lambda>_ g. group_from_v0 g) (v0_groups t),
     rate_milli_per_sec = v0_rate_milli_per_sec t, burst = v0_burst t,
     retain_max_messages = v0_retain_max_messages t, retain_max_age_ms = v0_retain_max_age_ms t\<rparr>"

definition queue_from_v0 :: "QueueV0 \<Rightarrow> Queue" where
  "queue_from_v0 q = \<lparr>topics = bmap (\<lambda>_ t. topic_from_v0 t) (v0_topics q), next_lease_id = v0_next_lease_id q\<rparr>"

section \<open>What a validated state satisfies\<close>

text \<open>The accepted states, without the order of the checks and the texts of their errors.\<close>

definition group_valid :: "Offset \<Rightarrow> LeaseId \<Rightarrow> GroupState \<Rightarrow> bool" where
  "group_valid next_off next_lid g \<longleftrightarrow>
     poll_count g \<le> MAX_COUNTER \<and> ack_watermark g \<le> next_off \<and>
     (\<forall>offset \<in> acked_above g. ack_watermark g < offset \<and> offset < next_off) \<and>
     (\<forall>lid l. bget (in_flight g) lid = Some l \<longrightarrow>
        lid < next_lid \<and> ack_watermark g \<le> lease_offset l \<and> lease_offset l < next_off) \<and>
     lease_index_ok g"

definition topic_valid :: "LeaseId \<Rightarrow> TopicState \<Rightarrow> bool" where
  "topic_valid next_lid t \<longleftrightarrow>
     next_offset t \<le> MAX_COUNTER \<and>
     (\<forall>offset m. bget (messages t) offset = Some m \<longrightarrow> m_offset m = offset \<and> offset < next_offset t) \<and>
     distinct (dedup_order t) \<and> set (dedup_order t) = dom (bget (dedup t)) \<and> length (dedup_order t) \<le> DEDUP_CAPACITY \<and>
     (\<forall>name g. bget (groups t) name = Some g \<longrightarrow> group_valid (next_offset t) next_lid g)"

definition queue_valid :: "Queue \<Rightarrow> bool" where
  "queue_valid q \<longleftrightarrow> next_lease_id q \<le> MAX_COUNTER \<and>
     (\<forall>name t. bget (topics q) name = Some t \<longrightarrow> topic_valid (next_lease_id q) t)"

lemma set_highest_ok:
  fixes s :: "Offset set"
  shows "(case set_highest s of None \<Rightarrow> Inr () | Some highest \<Rightarrow> fail_if (highest \<ge> lim) (r highest)) = Inr () \<longleftrightarrow> (\<forall>x \<in> s. x < lim)"
  by (auto simp: set_highest_def not_le)

lemma set_lowest_ok:
  fixes s :: "Offset set"
  shows "(case set_lowest s of None \<Rightarrow> Inr () | Some lowest \<Rightarrow> fail_if (lowest < lim) (r lowest)) = Inr () \<longleftrightarrow> (\<forall>x \<in> s. lim \<le> x)"
  by (auto simp: set_lowest_def not_less)

lemma bfirst_key_ok:
  "(case bfirst_key m of None \<Rightarrow> Inr () | Some lowest \<Rightarrow> fail_if (lowest < lim) (r lowest)) = Inr () \<longleftrightarrow>
   (\<forall>k v. bget m k = Some v \<longrightarrow> lim \<le> k)"
  by (auto simp: bfirst_key_Some bis_empty_iff not_less intro: order.trans split: option.splits)

lemma blast_key_ok:
  "(case blast_key m of None \<Rightarrow> Inr () | Some highest \<Rightarrow> fail_if (highest \<ge> lim) (r highest)) = Inr () \<longleftrightarrow>
   (\<forall>k v. bget m k = Some v \<longrightarrow> k < lim)"
proof (cases "entries m = []")
  case True
  then show ?thesis by (simp add: blast_key_def bget_entries)
next
  case False
  define e where "e = last (entries m)"
  have mem: "e \<in> set (entries m)" using False by (simp add: e_def)
  have "k \<le> fst e" if "(k, v) \<in> set (entries m)" for k v
  proof -
    have "sorted_wrt (<) (map fst (butlast (entries m)) @ [fst e])"
      using sorted_entries [of m] False by (metis append_butlast_last_id e_def list.simps(8,9) map_append)
    moreover have "(k, v) \<in> set (butlast (entries m)) \<or> (k, v) = e"
      using that False by (metis append_butlast_last_id e_def UnE empty_iff empty_set list.set(2) insertE set_append)
    ultimately show ?thesis by (auto simp: sorted_wrt_append)
  qed
  moreover obtain k v where "e = (k, v)" by (cases e)
  ultimately show ?thesis
    using False mem by (auto simp: blast_key_def e_def [symmetric] bget_entries not_le intro: order.strict_trans1)
qed

lemma by_lease_keys: "dom (bget (by_lease g)) = lease_offset ` set (bvalues (in_flight g))"
  by (simp add: by_lease_def bget_of_list dom_map_of_conv_image_fst image_image)

lemma distinct_lease_offsets:
  "distinct (map lease_offset (bvalues (in_flight g))) \<longleftrightarrow>
   (\<forall>lid l lid' l'. bget (in_flight g) lid = Some l \<longrightarrow> bget (in_flight g) lid' = Some l' \<longrightarrow>
      lease_offset l = lease_offset l' \<longrightarrow> lid = lid')"
proof -
  have "map lease_offset (bvalues (in_flight g)) = map (\<lambda>k. lease_offset (the (bget (in_flight g) k))) (bkeys (in_flight g))"
    unfolding bvalues_def by (subst entries_by_keys) simp
  then show ?thesis by (auto simp: distinct_map inj_on_def in_bkeys)
qed

lemma lease_eta: "\<lparr>lease_offset = lease_offset l, deadline_ms = deadline_ms l\<rparr> = l"
  by (cases l) simp

lemma bget_by_lease:
  assumes "distinct (map lease_offset (bvalues (in_flight g)))"
  shows "bget (by_lease g) offset = Some d \<longleftrightarrow>
    (\<exists>lid. bget (in_flight g) lid = Some \<lparr>lease_offset = offset, deadline_ms = d\<rparr>)"
proof -
  let ?kvs = "map (\<lambda>l. (lease_offset l, deadline_ms l)) (bvalues (in_flight g))"
  have "map fst (rev ?kvs) = rev (map lease_offset (bvalues (in_flight g)))" by (simp add: rev_map)
  with assms have "distinct (map fst (rev ?kvs))" by simp
  then have "bget (by_lease g) offset = Some d \<longleftrightarrow> (offset, d) \<in> set ?kvs"
    by (simp add: by_lease_def bget_of_list map_of_eq_Some_iff)
  also have "\<dots> \<longleftrightarrow> \<lparr>lease_offset = offset, deadline_ms = d\<rparr> \<in> set (bvalues (in_flight g))"
    by (auto simp: image_iff lease_eta intro!: bexI [of _ "\<lparr>lease_offset = offset, deadline_ms = d\<rparr>"])
  finally show ?thesis by (simp add: in_bvalues)
qed

lemma by_lease_ok: "blen (by_lease g) = blen (in_flight g) \<and> by_lease g = leased_offsets g \<longleftrightarrow> lease_index_ok g"
proof -
  have "blen (by_lease g) = card (set (map lease_offset (bvalues (in_flight g))))"
    by (metis card_dom_bget by_lease_keys list.set_map)
  moreover have "blen (in_flight g) = length (map lease_offset (bvalues (in_flight g)))"
    by (simp add: blen_def bvalues_def)
  ultimately have len: "blen (by_lease g) = blen (in_flight g) \<longleftrightarrow> distinct (map lease_offset (bvalues (in_flight g)))"
    by (metis card_distinct distinct_card)
  have "by_lease g = leased_offsets g \<longleftrightarrow> (\<forall>offset d. bget (leased_offsets g) offset = Some d \<longleftrightarrow>
        (\<exists>lid. bget (in_flight g) lid = Some \<lparr>lease_offset = offset, deadline_ms = d\<rparr>))"
    if "distinct (map lease_offset (bvalues (in_flight g)))"
    using bget_by_lease [OF that] by (metis btree_eqI_Some)
  with len show ?thesis unfolding lease_index_ok_def distinct_lease_offsets by blast
qed

lemma leased_keys_ok:
  assumes "lease_index_ok g"
  shows "(\<forall>k v. bget (leased_offsets g) k = Some v \<longrightarrow> lim \<le> k) \<longleftrightarrow> (\<forall>lid l. bget (in_flight g) lid = Some l \<longrightarrow> lim \<le> lease_offset l)"
  using lease_index_leased [OF assms] lease_index_in_flight [OF assms] by (metis Lease.select_convs(1))

lemma validate_group_ok:
  "validate_group name next_lid t (grp, g) = Inr () \<longleftrightarrow> group_valid (next_offset t) next_lid g"
proof -
  have lease: "validate_lease ctx next_lid t (lid, l) = Inr () \<longleftrightarrow> lid < next_lid \<and> lease_offset l < next_offset t" for ctx lid l
    by (simp add: validate_lease_def checks_ok not_le)
  have leases: "for_each (validate_lease ctx next_lid t) (entries (in_flight g)) = Inr () \<longleftrightarrow>
      (\<forall>lid l. bget (in_flight g) lid = Some l \<longrightarrow> lid < next_lid \<and> lease_offset l < next_offset t)" for ctx
    using lease by (auto simp: for_each_ok bget_entries)
  have acked: "(\<forall>x\<in>acked_above g. x < next_offset t) \<and> ack_watermark g \<notin> acked_above g \<and> (\<forall>x\<in>acked_above g. ack_watermark g \<le> x) \<longleftrightarrow>
      (\<forall>offset \<in> acked_above g. ack_watermark g < offset \<and> offset < next_offset t)"
    by (auto simp: less_le)
  have "validate_group name next_lid t (grp, g) = Inr () \<longleftrightarrow>
      poll_count g \<le> MAX_COUNTER \<and> ack_watermark g \<le> next_offset t \<and> (\<forall>x\<in>acked_above g. x < next_offset t) \<and>
      (\<forall>lid l. bget (in_flight g) lid = Some l \<longrightarrow> lid < next_lid \<and> lease_offset l < next_offset t) \<and>
      blen (by_lease g) = blen (in_flight g) \<and> by_lease g = leased_offsets g \<and> ack_watermark g \<notin> acked_above g \<and>
      (\<forall>x\<in>acked_above g. ack_watermark g \<le> x) \<and> (\<forall>k v. bget (leased_offsets g) k = Some v \<longrightarrow> ack_watermark g \<le> k)"
    unfolding validate_group_def prod.case Let_def checks_ok list.pred_inject
      set_highest_ok set_lowest_ok bfirst_key_ok leases fail_if_ok not_not not_less by simp
  moreover have "(\<forall>lid l. bget (in_flight g) lid = Some l \<longrightarrow> lid < next_lid \<and> ack_watermark g \<le> lease_offset l \<and> lease_offset l < next_offset t) \<longleftrightarrow>
      (\<forall>lid l. bget (in_flight g) lid = Some l \<longrightarrow> lid < next_lid \<and> lease_offset l < next_offset t) \<and>
      (\<forall>lid l. bget (in_flight g) lid = Some l \<longrightarrow> ack_watermark g \<le> lease_offset l)"
    by blast
  ultimately show ?thesis
    unfolding group_valid_def
    using by_lease_ok [of g] leased_keys_ok [of g "ack_watermark g"] acked by argo
qed

lemma validate_topic_ok: "validate_topic next_lid (name, t) = Inr () \<longleftrightarrow> topic_valid next_lid t"
proof -
  have msgs: "for_each (\<lambda>(offset, message). fail_if (m_offset message \<noteq> offset) (r offset message)) (entries (messages t)) = Inr () \<longleftrightarrow>
      (\<forall>offset m. bget (messages t) offset = Some m \<longrightarrow> m_offset m = offset)" for r
    by (auto simp: for_each_ok bget_entries)
  have grps: "for_each (validate_group name next_lid t) (entries (groups t)) = Inr () \<longleftrightarrow>
      (\<forall>name g. bget (groups t) name = Some g \<longrightarrow> group_valid (next_offset t) next_lid g)"
    by (auto simp: for_each_ok bget_entries validate_group_ok)
  have dup: "card (set (dedup_order t)) = length (dedup_order t) \<longleftrightarrow> distinct (dedup_order t)"
    by (metis card_distinct distinct_card)
  have ded: "blen (dedup t) = length (dedup_order t) \<and> distinct (dedup_order t) \<and> (\<forall>k \<in> set (dedup_order t). bcontains (dedup t) k) \<longleftrightarrow>
      distinct (dedup_order t) \<and> set (dedup_order t) = dom (bget (dedup t))"
  proof -
    have sub: "(\<forall>k \<in> set (dedup_order t). bcontains (dedup t) k) \<longleftrightarrow> set (dedup_order t) \<subseteq> dom (bget (dedup t))"
      unfolding bcontains_def dom_def by blast
    have "set (dedup_order t) = dom (bget (dedup t)) \<longleftrightarrow>
        set (dedup_order t) \<subseteq> dom (bget (dedup t)) \<and> blen (dedup t) = length (dedup_order t)" if "distinct (dedup_order t)"
      using card_subset_eq [OF finite_dom_bget, of "set (dedup_order t)" "dedup t"] distinct_card [OF that]
        card_dom_bget [of "dedup t"] by auto
    with sub show ?thesis by blast
  qed
  have keys: "for_each (\<lambda>key. fail_if (\<not> bcontains (dedup t) key) r) (dedup_order t) = Inr () \<longleftrightarrow> (\<forall>k \<in> set (dedup_order t). bcontains (dedup t) k)" for r
    by (simp add: for_each_ok)
  have "validate_topic next_lid (name, t) = Inr () \<longleftrightarrow>
      next_offset t \<le> MAX_COUNTER \<and> (\<forall>offset m. bget (messages t) offset = Some m \<longrightarrow> m_offset m = offset) \<and>
      (\<forall>k v. bget (messages t) k = Some v \<longrightarrow> k < next_offset t) \<and> blen (dedup t) = length (dedup_order t) \<and>
      blen (dedup t) \<le> DEDUP_CAPACITY \<and> distinct (dedup_order t) \<and> (\<forall>k \<in> set (dedup_order t). bcontains (dedup t) k) \<and>
      (\<forall>name g. bget (groups t) name = Some g \<longrightarrow> group_valid (next_offset t) next_lid g)"
    unfolding validate_topic_def prod.case Let_def checks_ok list.pred_inject blast_key_ok msgs grps keys
      fail_if_ok not_not not_less dup by simp
  also have "\<dots> \<longleftrightarrow> topic_valid next_lid t"
    unfolding topic_valid_def using ded by auto
  finally show ?thesis .
qed

lemma validate_ok: "validate q = Inr () \<longleftrightarrow> queue_valid q"
  by (auto simp: validate_def checks_ok for_each_ok queue_valid_def validate_topic_ok bget_entries)

end
