(* ===== verification/Queue_Invariants.thy ===== *)
theory Queue_Invariants
  imports Queue_Contract Queue_Validate
begin

text \<open>
  The invariants of the queue: well-formed topics whose counters stay within the budget (hence
  \<^verbatim>\<open>validate\<close> accepts every reachable state), the caps on groups, names and producer ids, and
  that a topic's retained messages are a gapless suffix of what was produced. Each is an
  interpretation of \<open>topic_contract\<close>.
\<close>

section \<open>Fields the operations leave alone\<close>

lemma prune_dedup_sel [simp, frame]:
  "next_offset (prune_dedup t b) = next_offset t" "messages (prune_dedup t b) = messages t" "groups (prune_dedup t b) = groups t"
  "retain_max_messages (prune_dedup t b) = retain_max_messages t" "retain_max_age_ms (prune_dedup t b) = retain_max_age_ms t"
  by (simp_all add: prune_dedup_def split: prod.splits)

lemma purge_retained_sel [simp, frame]:
  "next_offset (purge_retained t now_ms) = next_offset t"
  "retain_max_messages (purge_retained t now_ms) = retain_max_messages t"
  "retain_max_age_ms (purge_retained t now_ms) = retain_max_age_ms t"
  by (simp_all add: purge_retained_def Let_def)

lemma purge_retained_messages:
  "messages (purge_retained t now_ms) = bretain (\<lambda>offset _. offset \<notin> purge_set t now_ms) (messages t)"
  by (simp add: purge_retained_def Let_def bretain_all)

lemma purge_retained_groups:
  "bget (groups (purge_retained t now_ms)) name = map_option (\<lambda>g.
     if purge_set t now_ms \<noteq> {} \<and> first_or_next (purge_retained t now_ms) > ack_watermark g
     then advance_watermark g (first_or_next (purge_retained t now_ms)) else g) (bget (groups t) name)"
proof (cases "purge_set t now_ms = {}")
  case True
  then show ?thesis by (simp add: purge_retained_def option.map_ident)
next
  case False
  define b where "b = first_or_next (t\<lparr>messages := bretain (\<lambda>offset _. offset \<notin> purge_set t now_ms) (messages t)\<rparr>)"
  have "first_or_next (purge_retained t now_ms) = b"
    unfolding b_def first_or_next_def purge_retained_messages by (simp cong: option.case_cong)
  moreover have "groups (purge_retained t now_ms) =
      bmap (\<lambda>_ g. if b > ack_watermark g then advance_watermark g b else g) (groups t)"
    unfolding b_def using False by (simp add: purge_retained_def Let_def)
  ultimately show ?thesis using False by (simp cong: if_cong)
qed

lemma reclaim_messages_sel [simp, frame]:
  "next_offset (reclaim_messages t) = next_offset t" "groups (reclaim_messages t) = groups t"
  "dedup (reclaim_messages t) = dedup t" "dedup_order (reclaim_messages t) = dedup_order t"
  by (simp_all add: reclaim_messages_def split: option.splits)

lemma gc_idle_groups_sel [simp, frame]:
  "next_offset (gc_idle_groups t) = next_offset t" "messages (gc_idle_groups t) = messages t"
  "dedup (gc_idle_groups t) = dedup t" "dedup_order (gc_idle_groups t) = dedup_order t"
  by (simp_all add: gc_idle_groups_def)

lemma gc_idle_groups_subset: "bget (groups (gc_idle_groups t)) name = Some g \<Longrightarrow> bget (groups t) name = Some g"
  by (simp add: gc_idle_groups_def split: if_splits)

lemma reclaim_sel [simp, frame]:
  "next_offset (reclaim t) = next_offset t" "dedup (reclaim t) = dedup t" "dedup_order (reclaim t) = dedup_order t"
  "messages (reclaim t) = messages (reclaim_messages t)"
  by (simp_all add: reclaim_def)

lemma reclaim_groups_subset: "bget (groups (reclaim t)) name = Some g \<Longrightarrow> bget (groups t) name = Some g"
  by (auto simp: reclaim_def dest: gc_idle_groups_subset)

lemma sweep_idle_groups_sel [simp, frame]:
  "next_offset (fst (sweep_idle_groups t now_ms)) = next_offset t" "messages (fst (sweep_idle_groups t now_ms)) = messages t"
  "dedup (fst (sweep_idle_groups t now_ms)) = dedup t" "dedup_order (fst (sweep_idle_groups t now_ms)) = dedup_order t"
  by (simp_all add: sweep_idle_groups_def Let_def)

lemma sweep_groups_from:
  "bget (groups (fst (sweep_idle_groups t now_ms))) name = Some g \<Longrightarrow>
   \<exists>g0. bget (groups t) name = Some g0 \<and> g = g0\<lparr>last_active_ms := (if last_active_ms g0 = 0 then now_ms else last_active_ms g0)\<rparr>"
  by (auto simp: sweep_idle_groups_def Let_def)

lemma sweep_and_reclaim_sel [simp, frame]:
  "next_offset (sweep_and_reclaim t now_ms) = next_offset t" "dedup (sweep_and_reclaim t now_ms) = dedup t"
  "dedup_order (sweep_and_reclaim t now_ms) = dedup_order t"
  using sweep_idle_groups_sel [of t now_ms]
  by (auto simp: sweep_and_reclaim_def case_prod_beta)

lemma sweep_and_reclaim_groups_from:
  "bget (groups (sweep_and_reclaim t now_ms)) name = Some g \<Longrightarrow>
   \<exists>g0. bget (groups t) name = Some g0 \<and> g = g0\<lparr>last_active_ms := (if last_active_ms g0 = 0 then now_ms else last_active_ms g0)\<rparr>"
  by (auto simp: sweep_and_reclaim_def case_prod_beta dest!: reclaim_groups_subset sweep_groups_from split: if_splits)

lemma put_group_sel [simp, frame]:
  "next_offset (put_group t grp g) = next_offset t" "messages (put_group t grp g) = messages t" "dedup (put_group t grp g) = dedup t"
  "dedup_order (put_group t grp g) = dedup_order t" "groups (put_group t grp g) = binsert grp g (groups t)"
  by (simp_all add: put_group_def)

lemma ack_topic_sel [simp, frame]:
  "next_offset (ack_topic t grp lid) = next_offset t" "messages (ack_topic t grp lid) = messages t" "dedup (ack_topic t grp lid) = dedup t"
  "groups (ack_topic t grp lid) = bmodify grp (\<lambda>g. ack_group g lid) (groups t)"
  by (simp_all add: ack_topic_def)

lemma nack_topic_sel [simp, frame]:
  "next_offset (nack_topic t grp lid) = next_offset t" "messages (nack_topic t grp lid) = messages t" "dedup (nack_topic t grp lid) = dedup t"
  "groups (nack_topic t grp lid) = bmodify grp (\<lambda>g. release_lease g lid) (groups t)"
  by (simp_all add: nack_topic_def)

lemma ack_group_sel [simp, frame]:
  "poll_count (ack_group g lid) = poll_count g" "last_active_ms (ack_group g lid) = last_active_ms g"
  by (simp_all add: ack_group_def split: option.splits)

lemma group_entry_from:
  assumes "group_entry t grp now_ms = Some g"
  shows "bget (groups t) grp = Some g \<or> bget (groups t) grp = None \<and> blen (groups t) < MAX_GROUPS_PER_TOPIC \<and>
    g = group_default\<lparr>ack_watermark := first_or_next t, last_active_ms := (case now_ms of None \<Rightarrow> 0 | Some n \<Rightarrow> n)\<rparr>"
  using assms by (auto simp: group_entry_def bcontains_def split: option.splits if_splits)

lemma commit_topic_cases:
  fixes t :: TopicState and now_ms :: "u64 option"
  defines "t1 \<equiv> case now_ms of None \<Rightarrow> t | Some n \<Rightarrow> sweep_and_reclaim t n"
  obtains (full) "group_entry t1 grp now_ms = None" "commit_topic t grp offset now_ms = t1"
  | (committed) g g' where "group_entry t1 grp now_ms = Some g"
      "g' = (let g = advance_watermark g (min offset (next_offset t1))
             in case now_ms of None \<Rightarrow> g | Some n \<Rightarrow> g\<lparr>last_active_ms := max (last_active_ms g) n\<rparr>)"
      "commit_topic t grp offset now_ms = put_group t1 grp g'"
proof (cases "group_entry t1 grp now_ms")
  case None
  then show thesis by (intro full) (simp_all add: commit_topic_def t1_def Let_def)
next
  case (Some g)
  show thesis by (rule committed [OF Some refl]) (use Some in \<open>simp add: commit_topic_def t1_def Let_def\<close>)
qed

section \<open>Counters stay within the budget\<close>

definition topic_counters :: "nat \<Rightarrow> TopicState \<Rightarrow> bool" where
  "topic_counters n t \<longleftrightarrow> unat (next_offset t) \<le> n \<and>
     (\<forall>name g. bget (groups t) name = Some g \<longrightarrow> unat (poll_count g) \<le> n)"

lemma topic_counters_mono: "topic_counters n t \<Longrightarrow> n \<le> n' \<Longrightarrow> topic_counters n' t"
  unfolding topic_counters_def by (meson order.trans)

lemma topic_counters_purge: "topic_counters n t \<Longrightarrow> topic_counters n (purge_retained t now_ms)"
  by (auto simp: topic_counters_def purge_retained_groups split: if_splits)

lemma topic_counters_reclaim: "topic_counters n t \<Longrightarrow> topic_counters n (reclaim t)"
  by (auto simp: topic_counters_def dest: reclaim_groups_subset)

lemma topic_counters_sweep: "topic_counters n t \<Longrightarrow> topic_counters n (sweep_and_reclaim t now_ms)"
  by (auto simp: topic_counters_def dest!: sweep_and_reclaim_groups_from)

lemma topic_counters_put: "topic_counters n t \<Longrightarrow> unat (poll_count g) \<le> n \<Longrightarrow> topic_counters n (put_group t grp g)"
  by (auto simp: topic_counters_def)

lemma topic_counters_entry: "topic_counters n t \<Longrightarrow> group_entry t grp now_ms = Some g \<Longrightarrow> unat (poll_count g) \<le> n"
  by (auto simp: topic_counters_def group_default_def dest!: group_entry_from)

lemma unat_saturating_inc: "unat (x :: u64) \<le> n \<Longrightarrow> unat (saturating_add x 1) \<le> Suc n"
  by (simp add: unat_saturating_add)

lemma topic_counters_produce: "topic_counters n t \<Longrightarrow> topic_counters (Suc n) (fst (produce_in_topic t item))"
proof (cases rule: produce_in_topic_cases [of item t])
  case (duplicate offset)
  then show "topic_counters n t \<Longrightarrow> ?thesis" by (simp add: topic_counters_purge topic_counters_mono)
next
  case (keyed ded order)
  then show "topic_counters n t \<Longrightarrow> ?thesis"
    by (auto intro!: topic_counters_purge) (auto simp: topic_counters_def unat_saturating_inc le_SucI)
next
  case unkeyed
  then show "topic_counters n t \<Longrightarrow> ?thesis"
    by (auto intro!: topic_counters_purge) (auto simp: topic_counters_def unat_saturating_inc le_SucI)
qed

lemma poll_group_poll_count:
  "poll_group t g mx vis ts_ms next_lid = (g', next_lid', items) \<Longrightarrow> poll_count g' = saturating_add (poll_count g) 1"
  unfolding poll_group_eq using lease_out_effect(3) by fastforce

lemma topic_counters_poll:
  assumes "topic_counters n t" and "poll_topic t grp mx vis ts_ms next_lid = (t', next_lid', items)"
  shows "topic_counters (Suc n) t'"
proof (cases rule: poll_topic_cases [of t ts_ms grp mx vis next_lid])
  case full
  then show ?thesis using assms by (auto intro: topic_counters_mono topic_counters_sweep)
next
  case (polled g g' nl' items')
  have sw: "topic_counters n (sweep_and_reclaim t ts_ms)" by (rule topic_counters_sweep [OF assms(1)])
  have "unat (poll_count g') \<le> Suc n"
    using topic_counters_entry [OF sw polled(1)] poll_group_poll_count [OF polled(2)] by (simp add: unat_saturating_inc)
  then show ?thesis using polled(3) assms(2) topic_counters_put [OF topic_counters_mono [OF sw]] by simp
qed

lemma topic_counters_commit: "topic_counters n t \<Longrightarrow> topic_counters n (commit_topic t grp offset now_ms)"
proof (cases rule: commit_topic_cases [of t now_ms grp offset])
  case full
  then show "topic_counters n t \<Longrightarrow> ?thesis" by (simp add: topic_counters_sweep split: option.splits)
next
  case (committed g g')
  assume t: "topic_counters n t"
  then have t1: "topic_counters n (case now_ms of None \<Rightarrow> t | Some n \<Rightarrow> sweep_and_reclaim t n)"
    by (simp add: topic_counters_sweep split: option.splits)
  have "unat (poll_count g') \<le> n"
    using topic_counters_entry [OF t1 committed(1)] by (simp add: committed(2) Let_def split: option.splits)
  with t1 show ?thesis by (simp add: committed(3) topic_counters_put)
qed

section \<open>Well-formedness\<close>

definition topic_wf :: "nat \<Rightarrow> LeaseId \<Rightarrow> TopicState \<Rightarrow> bool" where
  "topic_wf n next_lid t \<longleftrightarrow> topic_inv next_lid t \<and> topic_counters n t"

lemma topic_wf_room: "topic_wf n next_lid t \<Longrightarrow> n < counter_limit \<Longrightarrow> next_offset t \<noteq> - 1"
  using unat_minus_one [where 'a = 64] by (auto simp: topic_wf_def topic_counters_def counter_limit_eq)

interpretation wf: topic_contract topic_wf
proof (unfold_locales, goal_cases)
  case (1 n next_lid)
  show ?case by (simp add: topic_wf_def topic_inv_default) (simp add: topic_counters_def topic_default_def)
next
  case (2 n next_lid t n' next_lid')
  then show ?case by (auto simp: topic_wf_def intro: topic_inv_mono topic_counters_mono)
next
  case (3 n next_lid t item)
  then show ?case
    using topic_wf_room [OF 3(1,2)] by (simp add: topic_wf_def topic_inv_produce topic_counters_produce)
next
  case (4 n next_lid t mx grp vis ts_ms t' next_lid' items)
  then have "unat next_lid + unat mx < 2 ^ 64" by (simp add: counter_limit_eq)
  with 4 show ?case
    by (auto simp: topic_wf_def intro: topic_inv_poll topic_counters_mono [OF topic_counters_poll])
next
  case (8 n next_lid t grp offset now_ms)
  then show ?case by (simp add: topic_wf_def topic_inv_commit topic_counters_commit)
qed (auto simp: topic_wf_def topic_inv_ack topic_inv_nack topic_inv_reclaim topic_counters_reclaim,
     auto simp: topic_counters_def)

text \<open>Every reachable state is accepted by \<^verbatim>\<open>validate\<close>.\<close>

lemma topic_wf_valid: "topic_wf n next_lid t \<Longrightarrow> n \<le> counter_limit \<Longrightarrow> topic_valid next_lid t"
proof -
  assume wf: "topic_wf n next_lid t" and n: "n \<le> counter_limit"
  have small: "unat x \<le> n \<Longrightarrow> x \<le> MAX_COUNTER" for x
    using n by (simp add: word_le_nat_alt counter_limit_def)
  then have "group_valid (next_offset t) next_lid g" if "bget (groups t) name = Some g" for name g
    using wf that by (auto simp: topic_wf_def topic_inv_def topic_counters_def group_inv_def group_valid_def)
  with wf small show ?thesis
    by (simp add: topic_wf_def topic_inv_def topic_counters_def topic_valid_def dedup_inv_def)
qed

lemma wf_valid: "topics_all topic_wf n q \<Longrightarrow> n \<le> counter_limit \<Longrightarrow> validate q = Inr ()"
  by (auto simp: validate_ok queue_valid_def topics_all_def word_le_nat_alt counter_limit_def
      intro!: topic_wf_valid)

section \<open>Caps\<close>

definition topic_caps :: "TopicState \<Rightarrow> bool" where
  "topic_caps t \<longleftrightarrow> blen (groups t) \<le> MAX_GROUPS_PER_TOPIC \<and>
     (\<forall>name \<in> set (bkeys (groups t)). length name \<le> MAX_NAME_BYTES) \<and>
     (\<forall>key \<in> set (bkeys (dedup t)). length (fst key) \<le> MAX_PRODUCER_ID_BYTES)"

lemma topic_caps_fewer:
  assumes "topic_caps t"
    and "\<And>name. bget (groups t') name \<noteq> None \<Longrightarrow> bget (groups t) name \<noteq> None"
    and "\<And>key. bget (dedup t') key \<noteq> None \<Longrightarrow> bget (dedup t) key \<noteq> None"
  shows "topic_caps t'"
proof -
  have "set (bkeys (groups t')) \<subseteq> set (bkeys (groups t))" "set (bkeys (dedup t')) \<subseteq> set (bkeys (dedup t))"
    by (rule subsetI, unfold in_bkeys, rule assms(2), assumption, rule subsetI, unfold in_bkeys, rule assms(3), assumption)
  moreover have "blen (groups t') \<le> blen (groups t)" by (rule blen_mono) (rule assms(2))
  ultimately show ?thesis using assms(1) unfolding topic_caps_def by (meson order.trans subsetD)
qed

lemma prune_keys_subset: "prune_keys b ded order = (ded', order') \<Longrightarrow> bget ded' key \<noteq> None \<Longrightarrow> bget ded key \<noteq> None"
  by (induction b ded order rule: prune_keys.induct) (auto split: if_splits)

lemma evict_dedup_subset: "evict_dedup ded order = (ded', order') \<Longrightarrow> bget ded' key = Some offset \<Longrightarrow> bget ded key = Some offset"
  by (induction ded order rule: evict_dedup.induct) (auto split: if_splits)

lemma purge_retained_dedup_subset: "bget (dedup (purge_retained t now_ms)) key \<noteq> None \<Longrightarrow> bget (dedup t) key \<noteq> None"
  by (auto simp: purge_retained_def Let_def prune_dedup_def dest: prune_keys_subset split: prod.splits if_splits)

lemma topic_caps_purge: "topic_caps t \<Longrightarrow> topic_caps (purge_retained t now_ms)"
  by (erule topic_caps_fewer) (simp add: purge_retained_groups, erule purge_retained_dedup_subset)

lemma topic_caps_reclaim: "topic_caps t \<Longrightarrow> topic_caps (reclaim t)"
  by (erule topic_caps_fewer) (auto dest: reclaim_groups_subset)

lemma topic_caps_sweep: "topic_caps t \<Longrightarrow> topic_caps (sweep_and_reclaim t now_ms)"
  by (erule topic_caps_fewer) (auto dest: sweep_and_reclaim_groups_from)

lemma topic_caps_put:
  assumes "topic_caps t" and "group_entry t grp now_ms = Some g" and "length grp \<le> MAX_NAME_BYTES"
  shows "topic_caps (put_group t grp g')"
  using assms group_entry_from [OF assms(2)]
  by (auto simp: topic_caps_def in_bkeys blen_insert bcontains_def split: if_splits)

lemma topic_caps_produce:
  assumes caps: "topic_caps t" and pid: "length (p_producer_id item) \<le> MAX_PRODUCER_ID_BYTES"
  shows "topic_caps (fst (produce_in_topic t item))"
proof (cases rule: produce_in_topic_cases [of item t])
  case (duplicate offset)
  then show ?thesis using caps by (simp add: topic_caps_purge)
next
  case (keyed ded order)
  have sub: "set (bkeys ded) \<subseteq> insert (p_producer_id item, p_seq item) (set (bkeys (dedup t)))"
  proof
    fix key assume "key \<in> set (bkeys ded)"
    then obtain offset where "bget ded key = Some offset" by (metis in_bkeys not_None_eq)
    from evict_dedup_subset [OF keyed(3) this] show "key \<in> insert (p_producer_id item, p_seq item) (set (bkeys (dedup t)))"
      by (auto simp: in_bkeys split: if_splits)
  qed
  have "topic_caps (t\<lparr>next_offset := nx, messages := ms, dedup := ded, dedup_order := order\<rparr>)" for nx ms
    using caps pid subsetD [OF sub] by (fastforce simp: topic_caps_def)
  then show ?thesis unfolding keyed(4) fst_conv by (rule topic_caps_purge)
next
  case unkeyed
  have "topic_caps (t\<lparr>next_offset := nx, messages := ms\<rparr>)" for nx ms using caps by (simp add: topic_caps_def)
  then show ?thesis unfolding unkeyed(2) fst_conv by (rule topic_caps_purge)
qed

lemma topic_caps_poll:
  assumes "topic_caps t" and "length grp \<le> MAX_NAME_BYTES"
    and "poll_topic t grp mx vis ts_ms next_lid = (t', next_lid', items)"
  shows "topic_caps t'"
proof (cases rule: poll_topic_cases [of t ts_ms grp mx vis next_lid])
  case full
  then show ?thesis using assms by (auto intro: topic_caps_sweep)
next
  case (polled g g' nl' items')
  from topic_caps_put [OF topic_caps_sweep [OF assms(1)] polled(1) assms(2), of g'] show ?thesis
    using polled(3) assms(3) by simp
qed

lemma topic_caps_commit:
  assumes "topic_caps t" and "length grp \<le> MAX_NAME_BYTES"
  shows "topic_caps (commit_topic t grp offset now_ms)"
proof -
  have t1: "topic_caps (case now_ms of None \<Rightarrow> t | Some n \<Rightarrow> sweep_and_reclaim t n)"
    using assms(1) by (simp add: topic_caps_sweep split: option.splits)
  show ?thesis
    by (cases rule: commit_topic_cases [of t now_ms grp offset])
       (use t1 topic_caps_put [OF t1 _ assms(2)] in simp_all)
qed

interpretation caps: topic_contract "\<lambda>_ _. topic_caps"
proof (unfold_locales, goal_cases)
  case (6 n next_lid t grp lid)
  then show ?case by (elim topic_caps_fewer) (auto split: if_splits)
next
  case (5 n next_lid t grp lid)
  then show ?case by (elim topic_caps_fewer) (auto split: if_splits)
qed (auto intro: topic_caps_produce topic_caps_poll topic_caps_reclaim topic_caps_commit,
     auto simp: topic_caps_def topic_default_def)

text \<open>\<^verbatim>\<open>GROUP_GC_THRESHOLD\<close> exceeds \<^verbatim>\<open>MAX_GROUPS_PER_TOPIC\<close>: the garbage collection never runs.\<close>

lemma gc_idle_groups_noop: "topic_caps t \<Longrightarrow> gc_idle_groups t = t"
  by (simp add: gc_idle_groups_def topic_caps_def GROUP_GC_THRESHOLD_def MAX_GROUPS_PER_TOPIC_def)

lemma reclaim_noop_gc: "topic_caps t \<Longrightarrow> reclaim t = reclaim_messages t"
  unfolding reclaim_def by (rule gc_idle_groups_noop) (simp add: topic_caps_def)

section \<open>The retained messages are a gapless suffix\<close>

definition gapless :: "TopicState \<Rightarrow> bool" where
  "gapless t \<longleftrightarrow> (\<forall>offset offset'. bcontains (messages t) offset \<longrightarrow> offset \<le> offset' \<longrightarrow> offset' < next_offset t \<longrightarrow>
     bcontains (messages t) offset')"

lemma gapless_suffix:
  assumes "gapless t" and "next_offset t' = next_offset t"
    and "\<And>offset. bcontains (messages t') offset \<longleftrightarrow> bcontains (messages t) offset \<and> P offset"
    and "\<And>offset offset'. P offset \<Longrightarrow> offset \<le> offset' \<Longrightarrow> bcontains (messages t) offset \<Longrightarrow> bcontains (messages t) offset' \<Longrightarrow> P offset'"
  shows "gapless t'"
  unfolding gapless_def
proof (intro allI impI)
  fix offset offset' assume o: "bcontains (messages t') offset" "offset \<le> offset'" "offset' < next_offset t'"
  then have "bcontains (messages t) offset" "P offset" using assms(3) by simp_all
  moreover have "bcontains (messages t) offset'"
    using assms(1,2) o(2,3) calculation(1) unfolding gapless_def by simp
  ultimately show "bcontains (messages t') offset'" using assms(3,4) o(2) by blast
qed

lemma gapless_same: "gapless t \<Longrightarrow> next_offset t' = next_offset t \<Longrightarrow> messages t' = messages t \<Longrightarrow> gapless t'"
  by (simp add: gapless_def)

lemma take_keys_downward:
  assumes "offset' \<in> set (take n (bkeys m))" and "offset \<le> offset'" and "bcontains m offset"
  shows "offset \<in> set (take n (bkeys m))"
proof (rule ccontr)
  assume not: "offset \<notin> set (take n (bkeys m))"
  have "offset \<in> set (take n (bkeys m) @ drop n (bkeys m))" using assms(3) by (simp add: bcontains_def in_bkeys)
  with not have "offset \<in> set (drop n (bkeys m))" by (simp del: append_take_drop_id)
  moreover have "sorted_wrt (<) (take n (bkeys m) @ drop n (bkeys m))" by simp
  ultimately have "offset' < offset" using assms(1) unfolding sorted_wrt_append by blast
  with assms(2) show False by simp
qed

lemma gapless_purge: "gapless t \<Longrightarrow> gapless (purge_retained t now_ms)"
  by (erule gapless_suffix [where P = "\<lambda>offset. offset \<notin> purge_set t now_ms"])
     (auto simp: purge_retained_messages bcontains_def purge_set_prefix dest: take_keys_downward [unfolded bcontains_def])

lemma reclaim_messages_split: "\<exists>b. messages (reclaim_messages t) = bsplit_off b (messages t)"
proof -
  have "bsplit_off 0 (messages t) = messages t" by (rule btree_eqI) simp
  then have "\<exists>b. messages t = bsplit_off b (messages t)" by metis
  then show ?thesis by (auto simp: reclaim_messages_def split: option.splits)
qed

lemma gapless_reclaim: "gapless t \<Longrightarrow> gapless (reclaim t)"
proof -
  assume "gapless t"
  moreover obtain b where "messages (reclaim_messages t) = bsplit_off b (messages t)"
    using reclaim_messages_split by blast
  ultimately show ?thesis
    by (elim gapless_suffix [where P = "\<lambda>offset. b \<le> offset"]) (auto simp: bcontains_def)
qed

lemma gapless_sweep: "gapless t \<Longrightarrow> gapless (sweep_and_reclaim t now_ms)"
  unfolding sweep_and_reclaim_def case_prod_beta Let_def
  by (auto intro!: gapless_reclaim) (auto elim!: gapless_same)

text \<open>Gaplessness relies on \<^verbatim>\<open>next_offset\<close> not being saturated, so the counter bound goes with it.\<close>

definition topic_gapless :: "nat \<Rightarrow> TopicState \<Rightarrow> bool" where
  "topic_gapless n t \<longleftrightarrow> unat (next_offset t) \<le> n \<and> gapless t"

lemma gapless_append:
  assumes "topic_gapless n t" and "n < counter_limit"
    and "next_offset t' = saturating_add (next_offset t) 1" and "messages t' = binsert (next_offset t) m (messages t)"
  shows "topic_gapless (Suc n) t'"
proof -
  have "next_offset t \<noteq> - 1"
    using assms(1,2) unat_minus_one [where 'a = 64] by (auto simp: topic_gapless_def counter_limit_eq)
  from less_saturating_add_one [OF this] have up: "offset < next_offset t' \<longleftrightarrow> offset \<le> next_offset t" for offset
    by (simp add: assms(3))
  have "gapless t'"
    unfolding gapless_def
  proof (intro allI impI)
    fix offset offset' assume o: "bcontains (messages t') offset" "offset \<le> offset'" "offset' < next_offset t'"
    show "bcontains (messages t') offset'"
    proof (cases "offset' = next_offset t")
      case False
      then have lt: "offset' < next_offset t" using o(3) up by simp
      with o(2) have "offset \<noteq> next_offset t" by auto
      with o(1) have "bcontains (messages t) offset" by (simp add: bcontains_def assms(4))
      then have "bcontains (messages t) offset'"
        using assms(1) o(2) lt unfolding topic_gapless_def gapless_def by blast
      with False show ?thesis by (simp add: bcontains_def assms(4))
    qed (simp add: bcontains_def assms(4))
  qed
  then show ?thesis using assms(1,3) by (simp add: topic_gapless_def unat_saturating_inc)
qed

lemma topic_gapless_purge: "topic_gapless n t \<Longrightarrow> topic_gapless n (purge_retained t now_ms)"
  by (simp add: topic_gapless_def gapless_purge)

lemma topic_gapless_produce:
  assumes "topic_gapless n t" and "n < counter_limit"
  shows "topic_gapless (Suc n) (fst (produce_in_topic t item))"
proof (cases rule: produce_in_topic_cases [of item t])
  case (duplicate offset)
  then show ?thesis using assms by (simp add: topic_gapless_def gapless_purge)
next
  case (keyed ded order)
  show ?thesis unfolding keyed(4) fst_conv by (intro topic_gapless_purge gapless_append [OF assms]) simp_all
next
  case unkeyed
  show ?thesis unfolding unkeyed(2) fst_conv by (intro topic_gapless_purge gapless_append [OF assms]) simp_all
qed

lemma poll_topic_messages:
  assumes "poll_topic t grp mx vis ts_ms next_lid = (t', next_lid', items)"
  shows "next_offset t' = next_offset t" and "messages t' = messages (sweep_and_reclaim t ts_ms)"
  by (rule poll_topic_cases [of t ts_ms grp mx vis next_lid]; use assms in auto)+

lemma commit_topic_messages:
  "next_offset (commit_topic t grp offset now_ms) = next_offset t"
  "messages (commit_topic t grp offset now_ms) = messages (case now_ms of None \<Rightarrow> t | Some n \<Rightarrow> sweep_and_reclaim t n)"
  by (rule commit_topic_cases [of t now_ms grp offset]; auto split: option.splits)+

interpretation gapless: topic_contract "\<lambda>n _. topic_gapless n"
proof (unfold_locales, goal_cases)
  case (1 n next_lid)
  show ?case by (simp add: topic_gapless_def gapless_def topic_default_def bcontains_def)
next
  case (4 n next_lid t mx grp vis ts_ms t' next_lid' items)
  then show ?case
    using gapless_same [OF gapless_sweep, of t t' ts_ms] poll_topic_messages [OF 4(5)] by (simp add: topic_gapless_def)
next
  case (8 n next_lid t grp offset now_ms)
  then show ?case
    using commit_topic_messages [of t grp offset now_ms] gapless_same [OF gapless_sweep, of t "commit_topic t grp offset now_ms"]
      gapless_same [of t "commit_topic t grp offset now_ms"]
    by (cases now_ms) (simp_all add: topic_gapless_def)
qed (auto simp: topic_gapless_produce, auto simp: topic_gapless_def gapless_reclaim elim: gapless_same)

section \<open>Caps on topics\<close>

definition queue_caps :: "Queue \<Rightarrow> bool" where
  "queue_caps q \<longleftrightarrow> blen (topics q) \<le> MAX_TOPICS \<and> (\<forall>name \<in> set (bkeys (topics q)). length name \<le> MAX_NAME_BYTES)"

lemma queue_caps_default: "queue_caps queue_default"
  by (simp add: queue_caps_def queue_default_def MAX_TOPICS_def)

lemma queue_caps_keys:
  assumes "queue_caps q" and "set (bkeys (topics q')) \<subseteq> set (bkeys (topics q))"
  shows "queue_caps q'"
proof -
  have "blen (topics q') \<le> blen (topics q)" using assms(2) by (intro blen_mono) (auto simp: subset_iff in_bkeys)
  with assms show ?thesis unfolding queue_caps_def by (meson order.trans subsetD)
qed

lemma keys_modify [simp]: "set (bkeys (bmodify k f m)) = set (bkeys m)"
  by (auto simp: in_bkeys split: if_splits)

lemma keys_insert [simp]: "set (bkeys (binsert k v m)) = insert k (set (bkeys m))"
  by (auto simp: in_bkeys split: if_splits)

lemma keys_ops [simp]:
  "set (bkeys (ack ts topic grp lid)) = set (bkeys ts)" "set (bkeys (nack ts topic grp lid)) = set (bkeys ts)"
  "set (bkeys (reclaim_topic ts topic)) = set (bkeys ts)" "set (bkeys (commit ts topic grp offset now_ms)) = set (bkeys ts)"
  by (simp_all add: ack_def nack_def reclaim_topic_def commit_def)

lemma keys_acks [simp]: "set (bkeys (foldl (\<lambda>ts x. ack ts topic grp (lid x)) ts xs)) = set (bkeys ts)"
  "set (bkeys (foldl (\<lambda>ts x. nack ts topic grp (lid x)) ts xs)) = set (bkeys ts)"
  by (induction xs arbitrary: ts) simp_all

lemma keys_poll: "poll ts topic grp mx vis ts_ms next_lid = (ts', next_lid', items) \<Longrightarrow> set (bkeys ts') = set (bkeys ts)"
  by (auto simp: poll_def in_bkeys case_prod_beta split: option.splits)

lemma keys_produce_one: "set (bkeys (topics (fst (produce_one q item)))) = insert (p_topic item) (set (bkeys (topics q)))"
  by (simp add: produce_one_def case_prod_beta)

lemma keys_produce_all: "set (bkeys (topics (fst (produce_all q items)))) = p_topic ` set items \<union> set (bkeys (topics q))"
  by (induction items arbitrary: q) (auto simp: case_prod_beta keys_produce_one)

lemma queue_caps_insert:
  "queue_caps q \<Longrightarrow> check_topic q topic = Inr () \<Longrightarrow> queue_caps (q\<lparr>topics := binsert topic t (topics q)\<rparr>)"
  by (auto simp: queue_caps_def check_topic_ok blen_insert bcontains_def in_bkeys)

lemma queue_caps_produce_all:
  assumes "queue_caps q" and ok: "check_produce q items = Inr ()"
  shows "queue_caps (fst (produce_all q items))"
proof -
  let ?fresh = "{p_topic item |item. item \<in> set items \<and> \<not> bcontains (topics q) (p_topic item)}"
  let ?q = "fst (produce_all q items)"
  have "set (bkeys (topics ?q)) = set (bkeys (topics q)) \<union> ?fresh"
    unfolding keys_produce_all bcontains_def in_bkeys [symmetric] by blast
  moreover have "card (set (bkeys (topics q)) \<union> ?fresh) \<le> blen (topics q) + card ?fresh"
    using card_Un_le [of "set (bkeys (topics q))" ?fresh] by (simp add: distinct_card)
  moreover have "card (set (bkeys (topics ?q))) = blen (topics ?q)" by (simp add: distinct_card)
  ultimately have "blen (topics ?q) \<le> MAX_TOPICS"
    using check_produce_ok(2) [OF ok] by simp
  moreover have "length name \<le> MAX_NAME_BYTES" if "name \<in> p_topic ` set items \<union> set (bkeys (topics q))" for name
    using that assms(1) check_produce_ok(1) [OF ok] unfolding queue_caps_def by blast
  ultimately show ?thesis unfolding queue_caps_def keys_produce_all by blast
qed

lemma produce_all_single: "produce_all q [item] = (fst (produce_one q item), [snd (produce_one q item)])"
  by (simp add: case_prod_beta)

lemma queue_caps_checked:
  "queue_caps q \<Longrightarrow> (chk = Inr () \<Longrightarrow> queue_caps (fst accepted)) \<Longrightarrow> queue_caps (fst (apply_checked chk q accepted))"
  by (rule apply_checked_cases [where P = "\<lambda>r. queue_caps (fst r)"]) simp_all

lemma queue_caps_step: "queue_caps q \<Longrightarrow> queue_caps (fst (apply_request q req))"
proof (cases req)
  case (Poll topic grp mx vis ts_ms)
  obtain ts next_lid items where p: "poll (topics q) topic grp mx vis ts_ms (next_lease_id q) = (ts, next_lid, items)"
    by (metis prod.exhaust)
  then show "queue_caps q \<Longrightarrow> ?thesis"
    using keys_poll [OF p] by (auto simp: Poll intro!: queue_caps_checked elim: queue_caps_keys)
next
  case (PollAuto topic grp mx vis ts_ms)
  obtain ts next_lid items where p: "poll (topics q) topic grp mx vis ts_ms (next_lease_id q) = (ts, next_lid, items)"
    by (metis prod.exhaust)
  then show "queue_caps q \<Longrightarrow> ?thesis"
    using keys_poll [OF p] by (auto simp: PollAuto intro!: queue_caps_checked elim: queue_caps_keys)
next
  case (Produce topic priority content_type payload producer_id seq ts_ms)
  then show "queue_caps q \<Longrightarrow> ?thesis" using queue_caps_produce_all [of q "[_]", unfolded produce_all_single]
    by (auto simp: case_prod_beta Let_def intro!: queue_caps_checked)
next
  case (DeleteTopic topic)
  then show "queue_caps q \<Longrightarrow> ?thesis" by (auto simp: in_bkeys elim!: queue_caps_keys split: if_splits)
qed (auto simp: case_prod_beta intro!: queue_caps_checked queue_caps_insert queue_caps_produce_all
      elim: queue_caps_keys)

lemma queue_caps_run: "queue_caps q \<Longrightarrow> queue_caps (fst (apply_all q reqs))"
proof (induction reqs arbitrary: q)
  case (Cons req reqs)
  from Cons.IH [OF queue_caps_step [OF Cons.prems, of req]] show ?case by (simp add: case_prod_beta)
qed simp

end
