(* ===== verification/Queue_Batches.thy ===== *)
theory Queue_Batches
  imports Queue_Invariants
begin

text \<open>
  The batched requests of \<^verbatim>\<open>Queue::apply\<close> against the single ones: \<^verbatim>\<open>ProduceMany\<close> is the sequence
  of its produces, \<^verbatim>\<open>AckMany\<close> the sequence of its acks, \<^verbatim>\<open>PollAuto\<close> a poll followed by the acks
  of what it delivered; and a rejected request changes nothing.
\<close>

section \<open>The produce check\<close>

definition item_ok :: "ProduceItem \<Rightarrow> bool" where
  "item_ok item \<longleftrightarrow> length (p_topic item) \<le> MAX_NAME_BYTES \<and> length (p_producer_id item) \<le> MAX_PRODUCER_ID_BYTES"

lemma check_items_iff: "(\<exists>fresh'. check_items ts items fresh = Inr fresh') \<longleftrightarrow> list_all item_ok items"
  by (induction ts items fresh rule: check_items.induct) (auto simp: item_ok_def check_name_def)

lemma check_produce_iff:
  "check_produce q items = Inr () \<longleftrightarrow>
     list_all item_ok items \<and> card (set (bkeys (topics q)) \<union> p_topic ` set items) \<le> MAX_TOPICS"
proof -
  let ?K = "set (bkeys (topics q))"
  have "card (?K \<union> p_topic ` set items) = blen (topics q) + card (p_topic ` set items - ?K)"
    by (metis Un_Diff_cancel card_Un_disjoint Diff_disjoint List.finite_set finite_Diff finite_imageI distinct_bkeys distinct_card length_bkeys)
  moreover have "{p_topic item |item. item \<in> set items \<and> \<not> bcontains (topics q) (p_topic item)} = p_topic ` set items - ?K"
    by (auto simp: bcontains_def in_bkeys)
  ultimately show ?thesis
    using check_items_iff [of "topics q" items "{}"] check_items_ok [of "topics q" items "{}"]
    by (auto simp: check_produce_def split: sum.splits)
qed

lemma check_produce_single:
  assumes "blen (topics q) \<le> MAX_TOPICS"
  shows "check_produce q [item] = Inr () \<longleftrightarrow> item_ok item \<and> topic_admits q (p_topic item)"
proof -
  have "card (set (bkeys (topics q))) = blen (topics q)" using distinct_card [OF distinct_bkeys] length_bkeys by metis
  then have "card (set (bkeys (topics q)) \<union> {p_topic item}) \<le> MAX_TOPICS \<longleftrightarrow> topic_admits q (p_topic item)"
    using assms by (auto simp: topic_admits_def bcontains_def in_bkeys card_insert_if)
  then show ?thesis by (simp add: check_produce_iff)
qed

lemma check_produce_Cons:
  assumes "check_produce q (item # items) = Inr ()"
  shows "check_produce q [item] = Inr ()" and "check_produce (fst (produce_one q item)) items = Inr ()"
proof -
  have "card (set (bkeys (topics q)) \<union> p_topic ` set [item]) \<le> card (set (bkeys (topics q)) \<union> p_topic ` set (item # items))"
    by (rule card_mono) auto
  with assms show "check_produce q [item] = Inr ()" by (simp add: check_produce_iff)
  show "check_produce (fst (produce_one q item)) items = Inr ()"
    using assms by (simp add: check_produce_iff keys_produce_one)
qed

section \<open>Batches\<close>

text \<open>The single request with the fields of one batch item.\<close>

definition produce_request :: "ProduceItem \<Rightarrow> AppRequest" where
  "produce_request item = Produce (p_topic item) (p_priority item) (p_content_type item) (p_payload item)
     (p_producer_id item) (p_seq item) (p_ts_ms item)"

lemma apply_produce_request:
  "apply_request q (produce_request item) = apply_checked (check_produce q [item]) q
     (fst (produce_one q item), Produced (snd (produce_one q item)))"
  by (cases item) (simp add: produce_request_def Let_def case_prod_beta)

lemma apply_produce_all:
  "check_produce q items = Inr () \<Longrightarrow>
   apply_all q (map produce_request items) = (fst (produce_all q items), map Produced (snd (produce_all q items)))"
proof (induction items arbitrary: q)
  case (Cons item items)
  note single = check_produce_Cons [OF Cons.prems]
  have "apply_request q (produce_request item) = (fst (produce_one q item), Produced (snd (produce_one q item)))"
    by (simp add: apply_produce_request apply_checked_def single(1))
  with Cons.IH [OF single(2)] show ?case by (simp add: case_prod_beta)
qed simp

text \<open>(C13) An accepted \<^verbatim>\<open>ProduceMany\<close> leaves the queue in the state that producing its items one by one
  leaves it in, and answers with the same offsets in the same order.\<close>

theorem produce_many_sequential:
  assumes "check_produce q items = Inr ()"
  shows "\<exists>offsets. apply_request q (ProduceMany items) = (fst (apply_all q (map produce_request items)), ProducedMany offsets) \<and>
     snd (apply_all q (map produce_request items)) = map Produced offsets"
  using assms by (simp add: apply_produce_all apply_checked_def case_prod_beta)

definition sample_item :: "string \<Rightarrow> string \<Rightarrow> u64 \<Rightarrow> u64 \<Rightarrow> ProduceItem" where
  "sample_item topic pid seq ts = \<lparr>p_topic = topic, p_priority = 3, p_content_type = Raw, p_payload = [1],
     p_producer_id = pid, p_seq = seq, p_ts_ms = ts\<rparr>"

theorem produce_many_sequential_witness:
  "\<exists>offsets. apply_request queue_default (ProduceMany [sample_item ''a'' ''p'' 0 5, sample_item ''b'' [] 0 6, sample_item ''a'' ''p'' 0 7]) =
       (fst (apply_all queue_default (map produce_request [sample_item ''a'' ''p'' 0 5, sample_item ''b'' [] 0 6, sample_item ''a'' ''p'' 0 7])),
        ProducedMany offsets) \<and>
     snd (apply_all queue_default (map produce_request [sample_item ''a'' ''p'' 0 5, sample_item ''b'' [] 0 6, sample_item ''a'' ''p'' 0 7])) =
       map Produced offsets"
  by (rule produce_many_sequential) (simp add: sample_item_def queue_eval)

section \<open>Acknowledgements\<close>

lemma saturating_add_one_ge: "x \<le> saturating_add x (1 :: u64)"
  by (rule saturating_add_ge)

lemma drain_acked_mono: "drain_acked wm acked = (wm', acked') \<Longrightarrow> wm \<le> wm'"
proof (induction wm acked rule: drain_acked.induct)
  case (1 wm acked)
  show ?case
  proof (cases "wm \<in> acked")
    case True
    with 1 have "saturating_add wm 1 \<le> wm'" by (simp add: drain_acked_step [of wm acked])
    with saturating_add_one_ge show ?thesis by (rule order.trans)
  next
    case False
    with "1.prems" show ?thesis by (simp add: drain_acked_step [of wm acked])
  qed
qed

lemma ack_group_watermark: "ack_watermark g \<le> ack_watermark (ack_group g lid)"
  using drain_acked_mono [of "ack_watermark g"]
  by (auto simp: ack_group_def mark_acked_def drain_watermark_def Let_def split: option.splits prod.splits)

lemma min_watermark_None: "min_watermark gs = None \<longleftrightarrow> bis_empty gs"
  by (auto simp: min_watermark_def bis_empty_def bvalues_def split: list.splits)

lemma foldl_min: "foldl min w ws = Min (insert w (set (ws :: 'a::linorder list)))"
proof (induction ws arbitrary: w)
  case (Cons w' ws)
  have "Min (insert w (insert w' (set ws))) = Min (insert (min w w') (set ws))"
    by (cases "ws = []") (simp_all add: min.assoc min.commute min.left_commute)
  then show ?case by (simp add: Cons.IH)
qed simp

lemma min_watermark_Some:
  "min_watermark gs = Some b \<longleftrightarrow> \<not> bis_empty gs \<and> b = Min (ack_watermark ` set (bvalues gs))"
  by (cases "bvalues gs") (auto simp: min_watermark_def foldl_min bis_empty_def bvalues_def)

lemma min_watermark_le: "min_watermark gs = Some b \<Longrightarrow> bget gs name = Some g \<Longrightarrow> b \<le> ack_watermark g"
  by (auto simp: min_watermark_Some intro!: Min_le imageI) (auto simp: in_bvalues)

lemma min_watermark_mono:
  assumes "min_watermark gs = Some b" and "min_watermark gs' = Some b'"
    and "\<And>name g'. bget gs' name = Some g' \<Longrightarrow> \<exists>g. bget gs name = Some g \<and> ack_watermark g \<le> ack_watermark g'"
  shows "b \<le> b'"
proof -
  have "b' \<in> ack_watermark ` set (bvalues gs')"
    using assms(2) unfolding min_watermark_Some by (auto simp: bis_empty_def bvalues_def intro!: Min_in)
  then obtain name g' where g': "bget gs' name = Some g'" "b' = ack_watermark g'" by (auto simp: in_bvalues)
  then obtain g where "bget gs name = Some g" "ack_watermark g \<le> b'" using assms(3) by blast
  then show ?thesis using min_watermark_le [OF assms(1)] by (meson order.trans)
qed

text \<open>Reclaiming trims the log to the lowest watermark.\<close>

lemma reclaim_messages_eq:
  "messages (reclaim_messages t) = (case min_watermark (groups t) of None \<Rightarrow> messages t | Some b \<Rightarrow> bsplit_off b (messages t))"
proof (cases "min_watermark (groups t)")
  case (Some b)
  have same: "bsplit_off b (messages t) = messages t" if "\<And>first. bfirst_key (messages t) = Some first \<Longrightarrow> b \<le> first"
  proof (rule btree_eqI)
    fix k
    have "b \<le> k" if "bget (messages t) k \<noteq> None"
    proof -
      have "\<not> bis_empty (messages t)" using that by (auto simp: bis_empty_iff)
      then obtain first where f: "bfirst_key (messages t) = Some first" by (metis bfirst_key_None not_None_eq)
      then have "first \<le> k" using that by (simp add: bfirst_key_Some)
      with \<open>\<And>first. bfirst_key (messages t) = Some first \<Longrightarrow> b \<le> first\<close> [OF f] show ?thesis by simp
    qed
    then show "bget (bsplit_off b (messages t)) k = bget (messages t) k" by (cases "bget (messages t) k") auto
  qed
  show ?thesis
  proof (cases "bfirst_key (messages t)")
    case None
    then show ?thesis using Some same by (simp add: reclaim_messages_def del: bfirst_key_None)
  next
    case (Some first)
    then show ?thesis using same \<open>min_watermark (groups t) = Some b\<close> by (auto simp: reclaim_messages_def)
  qed
qed (simp add: reclaim_messages_def)

lemma reclaim_messages_update: "reclaim_messages t = t\<lparr>messages := messages (reclaim_messages t)\<rparr>"
  by (simp add: reclaim_messages_def split: option.splits)

lemma split_off_twice: "b \<le> b' \<Longrightarrow> bsplit_off b' (bsplit_off b m) = bsplit_off b' m"
  by (rule btree_eqI) auto

lemma caps_ack: "topic_caps t \<Longrightarrow> topic_caps (ack_topic t grp lid)"
  by (erule topic_caps_fewer) (auto split: if_splits)

lemma ack_topic_reclaim_messages: "ack_topic (reclaim_messages t) grp lid = (ack_topic t grp lid)\<lparr>messages := messages (reclaim_messages t)\<rparr>"
  unfolding ack_topic_def by (subst reclaim_messages_update) simp

lemma reclaim_ack_reclaim:
  assumes "topic_caps t"
  shows "reclaim (ack_topic (reclaim t) grp lid) = reclaim (ack_topic t grp lid)"
proof -
  let ?a = "ack_topic t grp lid" and ?m = "messages (reclaim_messages t)"
  have caps: "topic_caps (?a\<lparr>messages := ?m\<rparr>)" using caps_ack [OF assms, of grp lid] by (simp add: topic_caps_def)
  have "reclaim (ack_topic (reclaim t) grp lid) = reclaim_messages (?a\<lparr>messages := ?m\<rparr>)"
    unfolding reclaim_noop_gc [OF assms] ack_topic_reclaim_messages by (rule reclaim_noop_gc [OF caps])
  moreover have "reclaim ?a = reclaim_messages ?a" by (rule reclaim_noop_gc [OF caps_ack [OF assms]])
  moreover have "reclaim_messages (?a\<lparr>messages := ?m\<rparr>) = reclaim_messages ?a"
  proof -
    have "messages (reclaim_messages (?a\<lparr>messages := ?m\<rparr>)) = messages (reclaim_messages ?a)"
    proof (cases "min_watermark (groups t)")
      case None
      then show ?thesis by (simp add: reclaim_messages_eq cong: option.case_cong)
    next
      case (Some b)
      have "b \<le> b'" if "min_watermark (groups ?a) = Some b'" for b'
        using ack_group_watermark
        by (intro min_watermark_mono [OF Some that]) (auto split: if_splits)
      moreover have "min_watermark (groups ?a) \<noteq> None"
        using Some by (auto simp: min_watermark_None bis_empty_iff min_watermark_Some split: if_splits)
      ultimately show ?thesis using Some by (auto simp: reclaim_messages_eq split_off_twice)
    qed
    then show ?thesis
      by (subst (1 2) reclaim_messages_update) simp
  qed
  ultimately show ?thesis by simp
qed

lemma reclaim_acks_reclaim:
  "topic_caps t \<Longrightarrow> lids \<noteq> [] \<Longrightarrow> foldl (\<lambda>t lid. reclaim (ack_topic t grp lid)) t lids = reclaim (foldl (\<lambda>t lid. ack_topic t grp lid) t lids)"
proof (induction lids rule: rev_induct)
  case (snoc lid lids)
  have caps: "topic_caps (foldl (\<lambda>t lid. ack_topic t grp lid) t lids)"
    by (rule foldl_invariant [where P = topic_caps]) (use snoc.prems caps_ack in auto)
  show ?case
  proof (cases "lids = []")
    case False
    with snoc show ?thesis by (simp add: reclaim_ack_reclaim [OF caps])
  qed simp
qed simp

lemma bmodify_bmodify: "bmodify k f (bmodify k f' m) = bmodify k (f \<circ> f') m"
  by (rule btree_eqI) (simp add: option.map_comp)

lemma bmodify_cong: "(\<And>v. bget m k = Some v \<Longrightarrow> f v = f' v) \<Longrightarrow> bmodify k f m = bmodify k f' m"
  by (rule btree_eqI) (auto intro: option.map_cong)

lemma foldl_bmodify: "foldl (\<lambda>m x. bmodify k (f x) m) m xs = bmodify k (\<lambda>v. foldl (\<lambda>v x. f x v) v xs) m"
proof (induction xs rule: rev_induct)
  case Nil
  show ?case by (rule btree_eqI) (auto simp: option.map_ident)
next
  case (snoc x xs)
  then show ?case by (simp add: bmodify_bmodify o_def)
qed

lemma foldl_ack: "foldl (\<lambda>ts lid. ack ts topic grp lid) ts lids = bmodify topic (\<lambda>t. foldl (\<lambda>t lid. ack_topic t grp lid) t lids) ts"
  unfolding ack_def by (rule foldl_bmodify)

lemma foldl_nack: "foldl (\<lambda>ts lid. nack ts topic grp lid) ts lids = bmodify topic (\<lambda>t. foldl (\<lambda>t lid. nack_topic t grp lid) t lids) ts"
  unfolding nack_def by (rule foldl_bmodify)

lemma apply_acks:
  "apply_all q (map (Ack topic grp) lids) =
     (q\<lparr>topics := foldl (\<lambda>ts lid. reclaim_topic (ack ts topic grp lid) topic) (topics q) lids\<rparr>, replicate (length lids) Acked)"
  by (induction lids arbitrary: q) (simp_all add: case_prod_beta)

lemma ack_many_topics:
  assumes "\<And>t. bget ts topic = Some t \<Longrightarrow> topic_caps t" and "lids \<noteq> []"
  shows "reclaim_topic (foldl (\<lambda>ts lid. ack ts topic grp lid) ts lids) topic =
    foldl (\<lambda>ts lid. reclaim_topic (ack ts topic grp lid) topic) ts lids"
proof -
  have "foldl (\<lambda>ts lid. reclaim_topic (ack ts topic grp lid) topic) ts lids =
      bmodify topic (\<lambda>t. foldl (\<lambda>t lid. reclaim (ack_topic t grp lid)) t lids) ts"
    by (simp add: reclaim_topic_def ack_def bmodify_bmodify o_def foldl_bmodify)
  also have "\<dots> = bmodify topic (\<lambda>t. reclaim (foldl (\<lambda>t lid. ack_topic t grp lid) t lids)) ts"
    using assms by (intro bmodify_cong reclaim_acks_reclaim)
  finally show ?thesis by (simp add: reclaim_topic_def ack_def foldl_bmodify bmodify_bmodify o_def)
qed

text \<open>(C14) In every reachable state a nonempty \<^verbatim>\<open>AckMany\<close> has the effect of acknowledging its leases one
  by one, although it reclaims consumed messages once instead of after each lease.\<close>

theorem ack_many_sequential:
  assumes "total_cost reqs \<le> counter_limit" and "lease_ids \<noteq> []" and "q = fst (apply_all queue_default reqs)"
  shows "fst (apply_request q (AckMany topic grp lease_ids)) = fst (apply_all q (map (Ack topic grp) lease_ids))"
proof -
  have "topic_caps t" if "bget (topics q) topic = Some t" for t
    using caps.all_reachable [OF assms(1)] that by (simp add: topics_all_def assms(3))
  then show ?thesis using assms(2) by (simp add: apply_acks ack_many_topics)
qed

theorem ack_many_sequential_witness:
  "let q = fst (apply_all queue_default [produce_request (sample_item ''a'' [] 0 5), produce_request (sample_item ''a'' [] 0 6),
       Poll ''a'' ''g'' 2 100 10])
   in fst (apply_request q (AckMany ''a'' ''g'' [0, 1])) = fst (apply_all q (map (Ack ''a'' ''g'') [0, 1]))"
proof -
  have "total_cost [produce_request (sample_item ''a'' [] 0 5), produce_request (sample_item ''a'' [] 0 6), Poll ''a'' ''g'' 2 100 10] \<le> counter_limit"
    by (simp add: produce_request_def counter_limit_eq)
  from ack_many_sequential [OF this _ refl, of "[0, 1]" "''a''" "''g''"] show ?thesis by (simp add: Let_def)
qed

text \<open>\<^verbatim>\<open>PollAuto\<close> delivers what \<^verbatim>\<open>Poll\<close> would deliver and leaves the queue as if the consumer had
  polled and then acknowledged every lease it was given.\<close>

lemma poll_auto_is_poll_then_ack:
  assumes "apply_request q (Poll topic grp mx visibility_timeout_ms ts_ms) = (q', Polled items)"
  shows "apply_request q (PollAuto topic grp mx visibility_timeout_ms ts_ms) =
    (fst (apply_request q' (AckMany topic grp (map d_lease_id items))), Polled items)"
  using assms by (auto simp: apply_checked_def case_prod_beta foldl_map split: sum.splits)

text \<open>A rejected request leaves the replicated state exactly as it was: in particular a rejected
  batch leaves no partial state.\<close>

lemma rejected_unchanged:
  assumes "apply_request q req = (q', Rejected reason)"
  shows "q' = q"
  using assms by (cases req) (auto simp: apply_checked_def case_prod_beta Let_def split: sum.splits)

end
