(* ===== verification/Queue_Retained.thy ===== *)
theory Queue_Retained
  imports Queue_Batches
begin

text \<open>
  No message is lost before a group is done with it. Messages leave a topic in two ways only:
  reclamation, which drops what every group has acknowledged, and retention, which moves every
  group's watermark past what it drops. The invariant \<open>keeps_unacked\<close> says that both leave every
  group's unacknowledged messages in the log; it holds in every reachable state.
\<close>

section \<open>Acknowledged sets only grow\<close>

lemma ack_group_acked:
  assumes "group_inv next_off next_lid g"
  shows "acked_set (ack_group g lid) =
    (case bget (in_flight g) lid of None \<Rightarrow> acked_set g | Some l \<Rightarrow> insert (lease_offset l) (acked_set g))"
proof (cases "bget (in_flight g) lid")
  case (Some l)
  then have "lease_offset l < next_off" using assms by (simp add: group_inv_def)
  from mark_acked_set [OF group_inv_release [OF assms] this, of lid] Some show ?thesis
    by (simp add: ack_group_def acked_set_def)
qed (simp add: ack_group_def)

lemma release_lease_acked [simp]: "acked_set (release_lease g lid) = acked_set g"
  by (simp add: acked_set_def)

lemma acked_set_stamp [simp]: "acked_set (g\<lparr>last_active_ms := ts\<rparr>) = acked_set g"
  by (simp add: acked_set_def)

lemma ack_group_acked_mono: "group_inv next_off next_lid g \<Longrightarrow> acked_set g \<subseteq> acked_set (ack_group g lid)"
  by (auto simp: ack_group_acked split: option.splits)

section \<open>Unacknowledged messages are retained\<close>

definition keeps_unacked :: "TopicState \<Rightarrow> bool" where
  "keeps_unacked t \<longleftrightarrow> (\<forall>name g. bget (groups t) name = Some g \<longrightarrow>
     (\<forall>offset < next_offset t. offset \<notin> acked_set g \<longrightarrow> bcontains (messages t) offset))"

lemma keeps_unacked_groups:
  assumes "keeps_unacked t" and "next_offset t' = next_offset t"
    and "\<And>offset. offset < next_offset t \<Longrightarrow> bcontains (messages t) offset \<Longrightarrow> bcontains (messages t') offset"
    and "\<And>name g'. bget (groups t') name = Some g' \<Longrightarrow> \<exists>g. bget (groups t) name = Some g \<and> acked_set g \<subseteq> acked_set g'"
  shows "keeps_unacked t'"
  unfolding keeps_unacked_def
proof (intro allI impI)
  fix name g' offset
  assume g': "bget (groups t') name = Some g'" and off: "offset < next_offset t'" "offset \<notin> acked_set g'"
  obtain g where "bget (groups t) name = Some g" "acked_set g \<subseteq> acked_set g'" using assms(4) [OF g'] by blast
  then have "bcontains (messages t) offset" using assms(1,2) off by (auto simp: keeps_unacked_def)
  then show "bcontains (messages t') offset" using assms(2,3) off(1) by simp
qed

lemma purge_set_below:
  assumes "offset \<in> purge_set t now_ms" and "offset < next_offset t"
  shows "offset < first_or_next (purge_retained t now_ms)"
proof (cases "bfirst_key (messages (purge_retained t now_ms))")
  case None
  then show ?thesis using assms(2) by (simp add: first_or_next_def del: bfirst_key_None)
next
  case (Some first)
  then have "bcontains (messages t) first" "first \<notin> purge_set t now_ms"
    by (auto simp: bfirst_key_Some purge_retained_messages bcontains_def)
  then have "\<not> first \<le> offset" using take_keys_downward assms(1) unfolding purge_set_prefix by blast
  with Some show ?thesis by (simp add: first_or_next_def)
qed

lemma keeps_unacked_purge:
  assumes inv: "topic_inv next_lid t" and keeps: "keeps_unacked t"
  shows "keeps_unacked (purge_retained t now_ms)"
  unfolding keeps_unacked_def
proof (intro allI impI)
  fix name g' offset
  let ?t = "purge_retained t now_ms"
  let ?b = "first_or_next ?t"
  assume g': "bget (groups ?t) name = Some g'" and off: "offset < next_offset ?t" and un: "offset \<notin> acked_set g'"
  obtain g where g: "bget (groups t) name = Some g"
      "g' = (if purge_set t now_ms \<noteq> {} \<and> ?b > ack_watermark g then advance_watermark g ?b else g)"
    using g' unfolding purge_retained_groups by auto
  then have gi: "group_inv (next_offset t) next_lid g" using inv by (auto simp: topic_inv_def)
  have "offset \<notin> acked_set g" using un g(2) advance_watermark_set [OF gi] by (auto split: if_splits)
  then have "bcontains (messages t) offset" using keeps g(1) off by (simp add: keeps_unacked_def)
  moreover have "offset \<notin> purge_set t now_ms"
  proof
    assume "offset \<in> purge_set t now_ms"
    with purge_set_below off have "offset < ?b" "purge_set t now_ms \<noteq> {}" by auto
    with un g(2) advance_watermark_set [OF gi] show False by (auto simp: acked_set_def split: if_splits)
  qed
  ultimately show "bcontains (messages ?t) offset" by (auto simp: purge_retained_messages bcontains_def)
qed

lemma keeps_unacked_reclaim: "keeps_unacked t \<Longrightarrow> keeps_unacked (reclaim t)"
proof -
  assume keeps: "keeps_unacked t"
  have "bcontains (messages (reclaim t)) offset"
    if g: "bget (groups (reclaim t)) name = Some g" and "offset < next_offset t" and un: "offset \<notin> acked_set g" for name g offset
  proof -
    from g have g0: "bget (groups t) name = Some g" by (rule reclaim_groups_subset)
    with keeps that have "bcontains (messages t) offset" by (simp add: keeps_unacked_def)
    moreover have "b \<le> offset" if "min_watermark (groups t) = Some b" for b
      using min_watermark_le [OF that g0] un by (auto simp: acked_set_def not_less intro: order.trans)
    ultimately show ?thesis by (auto simp: reclaim_messages_eq bcontains_def split: option.splits)
  qed
  then show ?thesis by (simp add: keeps_unacked_def)
qed

lemma keeps_unacked_sweep: "keeps_unacked t \<Longrightarrow> keeps_unacked (sweep_and_reclaim t now_ms)"
proof -
  assume "keeps_unacked t"
  then have "keeps_unacked (fst (sweep_idle_groups t now_ms))"
    by (rule keeps_unacked_groups) (auto dest!: sweep_groups_from)
  then show ?thesis by (simp add: sweep_and_reclaim_def case_prod_beta keeps_unacked_reclaim)
qed

lemma keeps_unacked_entry:
  assumes keeps: "keeps_unacked t" and gl: "gapless t" and g: "group_entry t grp now_ms = Some g"
    and off: "offset < next_offset t" "offset \<notin> acked_set g"
  shows "bcontains (messages t) offset"
proof (cases "bget (groups t) grp")
  case None
  with group_entry_from [OF g] off(2) have le: "first_or_next t \<le> offset" by (auto simp: acked_set_def)
  with off(1) obtain first where "bfirst_key (messages t) = Some first" "first \<le> offset"
    by (auto simp: first_or_next_def split: option.splits)
  with gl off(1) show ?thesis unfolding gapless_def bfirst_key_Some bcontains_def by blast
next
  case (Some g')
  with group_entry_from [OF g] keeps off show ?thesis by (auto simp: keeps_unacked_def)
qed

lemma keeps_unacked_put:
  assumes "keeps_unacked t" and "gapless t" and "group_entry t grp now_ms = Some g" and "acked_set g \<subseteq> acked_set g'"
  shows "keeps_unacked (put_group t grp g')"
  unfolding keeps_unacked_def
proof (intro allI impI)
  fix name g'' offset
  assume "bget (groups (put_group t grp g')) name = Some g''" "offset < next_offset (put_group t grp g')" "offset \<notin> acked_set g''"
  then show "bcontains (messages (put_group t grp g')) offset"
    using assms(1,4) keeps_unacked_entry [OF assms(1-3), of offset] by (auto simp: keeps_unacked_def split: if_splits)
qed

lemma keeps_unacked_append:
  assumes "keeps_unacked t" and "next_offset t \<noteq> - 1" and "next_offset t' = saturating_add (next_offset t) 1"
    and "messages t' = binsert (next_offset t) m (messages t)" and "groups t' = groups t"
  shows "keeps_unacked t'"
  unfolding keeps_unacked_def
proof (intro allI impI)
  fix name g offset
  assume "bget (groups t') name = Some g" "offset < next_offset t'" "offset \<notin> acked_set g"
  then show "bcontains (messages t') offset"
    using assms less_saturating_add_one [OF assms(2), of offset]
    by (cases "offset = next_offset t") (auto simp: keeps_unacked_def bcontains_def)
qed

text \<open>The invariants together satisfy the contract.\<close>

definition topic_safe :: "nat \<Rightarrow> LeaseId \<Rightarrow> TopicState \<Rightarrow> bool" where
  "topic_safe n next_lid t \<longleftrightarrow> topic_wf n next_lid t \<and> topic_gapless n t \<and> keeps_unacked t \<and> topic_caps t"

lemma topic_safe_gapless: "topic_safe n next_lid t \<Longrightarrow> gapless t"
  by (simp add: topic_safe_def topic_gapless_def)

lemma topic_safe_inv: "topic_safe n next_lid t \<Longrightarrow> topic_inv next_lid t"
  by (simp add: topic_safe_def topic_wf_def)

lemma keeps_unacked_produce:
  assumes safe: "topic_safe n next_lid t" and "n < counter_limit"
  shows "keeps_unacked (fst (produce_in_topic t item))"
proof -
  have room: "next_offset t \<noteq> - 1" using topic_wf_room assms by (auto simp: topic_safe_def)
  have keeps: "keeps_unacked t" using safe by (simp add: topic_safe_def)
  have inv: "topic_inv next_lid t" by (rule topic_safe_inv [OF safe])
  show ?thesis
  proof (cases rule: produce_in_topic_cases [of item t])
    case (duplicate offset)
    then show ?thesis using keeps_unacked_purge [OF inv keeps] by simp
  next
    case (keyed ded order)
    have up: "next_offset t < saturating_add (next_offset t) 1" by (rule saturating_add_one_greater [OF room])
    have "dedup_inv (next_offset t) (dedup t) (dedup_order t)" using inv by (simp add: topic_inv_def)
    from evict_dedup_inv [OF dedup_inv_push [OF this keyed(2) up] keyed(3)]
    have ded: "dedup_inv (saturating_add (next_offset t) 1) ded order" "length order \<le> DEDUP_CAPACITY" by simp_all
    show ?thesis unfolding keyed(4) fst_conv
      by (rule keeps_unacked_purge [OF topic_inv_append [OF inv room ded]], simp)
         (rule keeps_unacked_append [OF keeps room], simp_all)
  next
    case unkeyed
    have "dedup_inv (saturating_add (next_offset t) 1) (dedup t) (dedup_order t)" "length (dedup_order t) \<le> DEDUP_CAPACITY"
      using inv less_imp_le [OF saturating_add_one_greater [OF room]] by (auto simp: topic_inv_def intro: dedup_inv_mono)
    from topic_inv_append [OF inv room this] show ?thesis unfolding unkeyed(2) fst_conv
      by - (rule keeps_unacked_purge [where next_lid = next_lid], simp,
            rule keeps_unacked_append [OF keeps room], simp_all)
  qed
qed

interpretation safe: topic_contract topic_safe
proof (unfold_locales, goal_cases)
  case (1 n next_lid)
  show ?case using wf.default gapless.default caps.default by (simp add: topic_safe_def keeps_unacked_def) (simp add: topic_default_def)
next
  case (2 n next_lid t n' next_lid')
  then show ?case using wf.mono gapless.mono [of n t n'] by (auto simp: topic_safe_def)
next
  case (3 n next_lid t item)
  then show ?case
    using wf.produce gapless.produce keeps_unacked_produce [OF 3(1,2)] by (simp add: topic_safe_def topic_caps_produce)
next
  case (4 n next_lid t mx grp vis ts_ms t' next_lid' items)
  have gl: "gapless (sweep_and_reclaim t ts_ms)" using 4(1) by (intro gapless_sweep topic_safe_gapless)
  have keeps: "keeps_unacked (sweep_and_reclaim t ts_ms)" using 4(1) by (intro keeps_unacked_sweep) (simp add: topic_safe_def)
  have "keeps_unacked t'"
  proof (cases rule: poll_topic_cases [of t ts_ms grp mx vis next_lid])
    case (polled g g' nl' items')
    have "lease_index_ok g"
      using group_entry_inv [OF topic_inv_sweep_and_reclaim [OF topic_safe_inv [OF 4(1)]] polled(1)] by (simp add: group_inv_def)
    from poll_group_delivers(6) [OF this polled(2)] show ?thesis
      using keeps_unacked_put [OF keeps gl polled(1), of g'] polled(3) 4(5) by simp
  qed (use keeps 4(5) in simp)
  then show ?case using 4 wf.poll [OF _ 4(2-5)] gapless.poll [OF _ 4(2-5)] topic_caps_poll [OF _ 4(4,5)] by (simp add: topic_safe_def)
next
  case (5 n next_lid t grp lid)
  then have "group_inv (next_offset t) next_lid g" if "bget (groups t) name = Some g" for name g
    using that by (auto simp: topic_safe_def topic_wf_def topic_inv_def)
  then have "keeps_unacked (ack_topic t grp lid)"
    using 5 by - (rule keeps_unacked_groups [of t], auto simp: topic_safe_def split: if_splits dest: subsetD [OF ack_group_acked_mono])
  then show ?case using 5 wf.ack gapless.ack [of n t] caps.ack [of t] by (simp add: topic_safe_def)
next
  case (6 n next_lid t grp lid)
  then have "keeps_unacked (nack_topic t grp lid)"
    by - (rule keeps_unacked_groups [of t], auto simp: topic_safe_def split: if_splits)
  then show ?case using 6 wf.nack gapless.nack [of n t] caps.nack [of t] by (simp add: topic_safe_def)
next
  case (7 n next_lid t)
  then show ?case using wf.reclaim gapless.reclaim [of n t] by (simp add: topic_safe_def keeps_unacked_reclaim topic_caps_reclaim)
next
  case (8 n next_lid t grp offset now_ms)
  let ?t1 = "case now_ms of None \<Rightarrow> t | Some n \<Rightarrow> sweep_and_reclaim t n"
  have t1: "keeps_unacked ?t1" "gapless ?t1" "topic_inv next_lid ?t1"
    using 8(1) by (auto simp: topic_safe_def topic_gapless_def topic_wf_def keeps_unacked_sweep gapless_sweep topic_inv_sweep_and_reclaim split: option.splits)
  have "keeps_unacked (commit_topic t grp offset now_ms)"
  proof (cases rule: commit_topic_cases [of t now_ms grp offset])
    case (committed g g')
    have "acked_set g \<subseteq> acked_set g'"
      using advance_watermark_set [OF group_entry_inv [OF t1(3) committed(1)]] committed(2)
      by (auto simp: acked_set_def Let_def split: option.splits)
    then show ?thesis unfolding committed(3) by (rule keeps_unacked_put [OF t1(1,2) committed(1)])
  qed (use t1 in simp)
  then show ?case using 8 wf.commit [OF _ 8(2)] gapless.commit [OF _ 8(2), of n t] topic_caps_commit [OF _ 8(2)] by (simp add: topic_safe_def)
next
  case (9 n next_lid t r b)
  then show ?case using wf.rate gapless.rate [of n t] caps.rate [of t] by (simp add: topic_safe_def keeps_unacked_def)
next
  case (10 n next_lid t mm ma)
  then show ?case using wf.retention gapless.retention [of n t] caps.retention [of t] by (simp add: topic_safe_def keeps_unacked_def)
qed

lemma reachable_safe:
  assumes "total_cost reqs \<le> counter_limit" and "bget (topics (fst (apply_all queue_default reqs))) topic = Some t"
  shows "topic_safe (total_cost reqs) (next_lease_id (fst (apply_all queue_default reqs))) t"
  using safe.all_reachable [OF assms(1)] assms(2) by (simp add: topics_all_def)

lemma safe_message_keys:
  assumes "topic_safe n next_lid t"
  shows "set (bkeys (messages t)) = {first_or_next t..<next_offset t}"
proof (cases "bfirst_key (messages t)")
  case None
  then have "bkeys (messages t) = []" by (simp add: bis_empty_def bkeys_def)
  with None show ?thesis by (simp add: first_or_next_def del: bfirst_key_None)
next
  case (Some first)
  with topic_safe_inv [OF assms] topic_safe_gapless [OF assms] show ?thesis
    unfolding bfirst_key_Some gapless_def bcontains_def topic_inv_def
    by (auto simp: first_or_next_def in_bkeys Some)
qed

section \<open>Properties of every reachable state\<close>

text \<open>(C1) Every state the queue reaches from the empty state is accepted by \<^verbatim>\<open>validate\<close>, as long as the
  produced items and polled slots together stay within \<^verbatim>\<open>MAX_COUNTER\<close>: a replica can always restore
  its own snapshot.\<close>

theorem reachable_validates:
  assumes "total_cost reqs \<le> counter_limit"
  shows "validate (fst (apply_all queue_default reqs)) = Inr ()"
  using wf_valid [OF wf.all_reachable [OF assms] assms] .

definition sample_run :: "AppRequest list" where
  "sample_run = [produce_request (sample_item ''a'' ''p'' 0 5), produce_request (sample_item ''a'' [] 0 6),
     produce_request (sample_item ''a'' [] 0 7), Poll ''a'' ''g'' 2 100 10, Ack ''a'' ''g'' 1, CommitOffsetAt ''a'' ''h'' 1 11]"

definition sample_topic :: TopicState where
  "sample_topic = the (bget (topics (fst (apply_all queue_default sample_run))) ''a'')"

lemma sample_run_topic: "bget (topics (fst (apply_all queue_default sample_run))) ''a'' = Some sample_topic"
  by (simp add: sample_topic_def sample_run_def produce_request_def sample_item_def queue_eval)

lemma sample_topic_state:
  "next_offset sample_topic = 3" "first_or_next sample_topic = 0" "bkeys (groups sample_topic) = [''g'', ''h'']"
  "ack_watermark (the (bget (groups sample_topic) ''g'')) = 0" "acked_above (the (bget (groups sample_topic) ''g'')) = {1}"
  by (simp_all add: sample_topic_def sample_run_def produce_request_def sample_item_def queue_eval)

lemma sample_run_cost: "total_cost sample_run \<le> counter_limit"
  by (simp add: sample_run_def produce_request_def counter_limit_eq)

theorem reachable_validates_witness:
  "validate (fst (apply_all queue_default sample_run)) = Inr ()"
  by (rule reachable_validates [OF sample_run_cost])



text \<open>The messages a topic retains are gapless: from the oldest one up to \<^verbatim>\<open>next_offset\<close> every
  offset is present, each message is stored under its own offset, and there is none at or above
  \<^verbatim>\<open>next_offset\<close>.\<close>

lemma log_gapless:
  assumes "total_cost reqs \<le> counter_limit" and "bget (topics (fst (apply_all queue_default reqs))) topic = Some t"
  shows "set (bkeys (messages t)) = {first_or_next t..<next_offset t} \<and>
    (\<forall>m \<in> set (bvalues (messages t)). bget (messages t) (m_offset m) = Some m)"
proof
  note safe = reachable_safe [OF assms]
  note inv = topic_safe_inv [OF safe]
  show "set (bkeys (messages t)) = {first_or_next t..<next_offset t}" by (rule safe_message_keys [OF safe])
  show "\<forall>m \<in> set (bvalues (messages t)). bget (messages t) (m_offset m) = Some m"
    using inv by (auto simp: in_bvalues topic_inv_def)
qed

text \<open>(C15) The caps hold in every reachable state: at most \<^verbatim>\<open>MAX_TOPICS\<close> topics, at most
  \<^verbatim>\<open>MAX_GROUPS_PER_TOPIC\<close> groups in each, at most \<^verbatim>\<open>DEDUP_CAPACITY\<close> dedup keys, and names and
  producer ids of bounded length, whatever the clients send.\<close>

theorem reachable_caps:
  assumes "total_cost reqs \<le> counter_limit" and "q = fst (apply_all queue_default reqs)"
  shows "blen (topics q) \<le> MAX_TOPICS \<and> (\<forall>(name, t) \<in> set (entries (topics q)). length name \<le> MAX_NAME_BYTES \<and>
      blen (groups t) \<le> MAX_GROUPS_PER_TOPIC \<and> (\<forall>grp \<in> set (bkeys (groups t)). length grp \<le> MAX_NAME_BYTES) \<and>
      blen (dedup t) \<le> DEDUP_CAPACITY \<and> length (dedup_order t) = blen (dedup t) \<and>
      (\<forall>(pid, seq) \<in> set (bkeys (dedup t)). length pid \<le> MAX_PRODUCER_ID_BYTES))"
proof -
  have "queue_caps q" unfolding assms(2) by (rule queue_caps_run [OF queue_caps_default])
  moreover have "blen (groups t) \<le> MAX_GROUPS_PER_TOPIC \<and> (\<forall>grp \<in> set (bkeys (groups t)). length grp \<le> MAX_NAME_BYTES) \<and>
      blen (dedup t) \<le> DEDUP_CAPACITY \<and> length (dedup_order t) = blen (dedup t) \<and>
      (\<forall>(pid, seq) \<in> set (bkeys (dedup t)). length pid \<le> MAX_PRODUCER_ID_BYTES)"
    if "bget (topics q) name = Some t" for name t
  proof -
    have caps: "topic_caps t" and inv: "topic_inv (next_lease_id q) t"
      using caps.all_reachable [OF assms(1)] wf.all_reachable [OF assms(1)] that by (auto simp: topics_all_def assms(2) topic_wf_def)
    have len: "length (dedup_order t) = blen (dedup t)"
      using inv card_dom_bget [of "dedup t"] distinct_card [of "dedup_order t"] by (simp add: topic_inv_def dedup_inv_def)
    with inv have "blen (dedup t) \<le> DEDUP_CAPACITY" by (simp add: topic_inv_def)
    with caps len show ?thesis by (auto simp: topic_caps_def)
  qed
  moreover have "name \<in> set (bkeys (topics q))" if "bget (topics q) name = Some t" for name t
    using that by (simp add: in_bkeys)
  ultimately show ?thesis
    unfolding queue_caps_def case_prod_beta by (metis bget_entries prod.collapse)
qed

theorem reachable_caps_witness:
  "let q = fst (apply_all queue_default sample_run) in blen (topics q) \<le> MAX_TOPICS"
  using reachable_caps [OF sample_run_cost refl] by (simp only: Let_def)

text \<open>\<^verbatim>\<open>gc_idle_groups\<close> never removes a group in a reachable state: its threshold of 1024 groups
  lies above the cap of 1000, so reclaiming only ever trims messages.\<close>

lemma gc_idle_groups_never_runs:
  assumes "total_cost reqs \<le> counter_limit" and "bget (topics (fst (apply_all queue_default reqs))) topic = Some t"
  shows "gc_idle_groups t = t \<and> groups (reclaim t) = groups t"
proof -
  have "topic_caps t" using caps.all_reachable [OF assms(1)] assms(2) by (simp add: topics_all_def)
  then show ?thesis by (simp add: gc_idle_groups_noop reclaim_noop_gc)
qed

end
