(* ===== verification/Queue_Delivery.thy ===== *)
theory Queue_Delivery
  imports Queue_Retained
begin

text \<open>
  Delivery: what a poll hands out of a reachable state, and what stays true of a group along a
  run. The locale \<open>topic_relation\<close> lifts a preorder on the states of one topic, kept by every
  per-topic operation, to whole runs of requests; monotonicity of offsets, permanence of
  acknowledgements and exclusivity of a running lease are its interpretations.
\<close>

section \<open>Relations kept along a run\<close>

text \<open>
  The requests a relation is claimed for: the topic is not deleted, the clocks of the requests on it
  satisfy \<open>clock_ok\<close>, and the groups that nack satisfy \<open>nack_ok\<close>.
\<close>

fun admissible :: "string \<Rightarrow> (u64 \<Rightarrow> bool) \<Rightarrow> (string \<Rightarrow> bool) \<Rightarrow> AppRequest \<Rightarrow> bool" where
  "admissible topic clock_ok nack_ok (DeleteTopic topic') \<longleftrightarrow> topic' \<noteq> topic"
| "admissible topic clock_ok nack_ok (Poll topic' _ _ _ ts_ms) \<longleftrightarrow> topic' \<noteq> topic \<or> clock_ok ts_ms"
| "admissible topic clock_ok nack_ok (PollAuto topic' _ _ _ ts_ms) \<longleftrightarrow> topic' \<noteq> topic \<or> clock_ok ts_ms"
| "admissible topic clock_ok nack_ok (CommitOffsetAt topic' _ _ ts_ms) \<longleftrightarrow> topic' \<noteq> topic \<or> clock_ok ts_ms"
| "admissible topic clock_ok nack_ok (Nack topic' grp _) \<longleftrightarrow> topic' \<noteq> topic \<or> nack_ok grp"
| "admissible topic clock_ok nack_ok (NackMany topic' grp _) \<longleftrightarrow> topic' \<noteq> topic \<or> nack_ok grp"
| "admissible topic clock_ok nack_ok _ \<longleftrightarrow> True"

locale topic_relation =
  fixes R :: "TopicState \<Rightarrow> TopicState \<Rightarrow> bool" and clock_ok :: "u64 \<Rightarrow> bool" and nack_ok :: "string \<Rightarrow> bool"
  assumes refl: "R t t"
    and trans: "R t t' \<Longrightarrow> R t' t'' \<Longrightarrow> R t t''"
    and produce: "topic_safe n next_lid t \<Longrightarrow> n < counter_limit \<Longrightarrow> R t (fst (produce_in_topic t item))"
    and poll: "topic_safe n next_lid t \<Longrightarrow> clock_ok ts_ms \<Longrightarrow> R t (fst (poll_topic t grp mx vis ts_ms next_lid))"
    and ack: "topic_safe n next_lid t \<Longrightarrow> R t (ack_topic t grp lid)"
    and nack: "topic_safe n next_lid t \<Longrightarrow> nack_ok grp \<Longrightarrow> R t (nack_topic t grp lid)"
    and reclaim: "topic_safe n next_lid t \<Longrightarrow> R t (reclaim t)"
    and commit: "topic_safe n next_lid t \<Longrightarrow> (\<And>ts_ms. now_ms = Some ts_ms \<Longrightarrow> clock_ok ts_ms) \<Longrightarrow> R t (commit_topic t grp offset now_ms)"
    and rate: "R t (t\<lparr>rate_milli_per_sec := r, burst := b\<rparr>)"
    and retention: "R t (t\<lparr>retain_max_messages := mm, retain_max_age_ms := ma\<rparr>)"
begin

lemma acks: "topic_safe n next_lid t \<Longrightarrow> topic_safe n next_lid (foldl (\<lambda>t lid. ack_topic t grp lid) t lids) \<and> R t (foldl (\<lambda>t lid. ack_topic t grp lid) t lids)"
proof (induction lids rule: rev_induct)
  case (snoc lid lids)
  then show ?case using ack safe.ack trans by fastforce
qed (simp add: refl)

lemma nacks: "topic_safe n next_lid t \<Longrightarrow> nack_ok grp \<Longrightarrow>
    topic_safe n next_lid (foldl (\<lambda>t lid. nack_topic t grp lid) t lids) \<and> R t (foldl (\<lambda>t lid. nack_topic t grp lid) t lids)"
proof (induction lids rule: rev_induct)
  case (snoc lid lids)
  then show ?case using nack safe.nack trans by fastforce
qed (simp add: refl)

lemma produce_all_related:
  assumes "topics_all topic_safe n q" and "n + length items \<le> counter_limit"
    and "\<forall>item \<in> set items. length (p_producer_id item) \<le> MAX_PRODUCER_ID_BYTES"
    and "bget (topics q) topic = Some t"
  shows "\<exists>t'. bget (topics (fst (produce_all q items))) topic = Some t' \<and> R t t'"
  using assms
proof (induction items arbitrary: n q t)
  case (Cons item items)
  obtain q' offset where p: "produce_one q item = (q', offset)" by fastforce
  have all: "topics_all topic_safe (Suc n) q'" using safe.all_produce_one [of n q item] Cons.prems p by simp
  have "topic_safe n (next_lease_id q) t" using Cons.prems(1,4) by (auto simp: topics_all_def)
  with Cons.prems have "R t (fst (produce_in_topic t item))" by (intro produce) auto
  then obtain t1 where t1: "bget (topics q') topic = Some t1" "R t t1"
    using p Cons.prems(4) refl by (cases "p_topic item = topic") (auto simp: produce_one_def topic_entry_def case_prod_beta)
  from Cons.IH [OF all _ _ t1(1)] Cons.prems(2,3) t1(2) show ?case by (auto simp: p case_prod_beta intro: trans)
qed (simp add: refl)

lemma step_related:
  assumes all: "topics_all topic_safe n q" and room: "n + request_cost req \<le> counter_limit"
    and t: "bget (topics q) topic = Some t" and adm: "admissible topic clock_ok nack_ok req"
  shows "\<exists>t'. bget (topics (fst (apply_request q req))) topic = Some t' \<and> R t t'"
proof -
  note chk = apply_checked_cases [where P = "\<lambda>r. \<exists>t'. bget (topics (fst r)) topic = Some t' \<and> R t t'"]
  have st: "topic_safe n (next_lease_id q) t" using all t by (auto simp: topics_all_def)
  show ?thesis
  proof (cases req)
    case (Produce topic' priority content_type payload producer_id seq ts_ms)
    define item where "item = \<lparr>p_topic = topic', p_priority = priority, p_content_type = content_type, p_payload = payload,
                  p_producer_id = producer_id, p_seq = seq, p_ts_ms = ts_ms\<rparr>"
    show ?thesis using t refl produce_all_related [OF all _ _ t, of "[item]", unfolded produce_all_single] room check_produce_ok(1) [of q "[item]"]
      by (auto simp: Produce item_def [symmetric] case_prod_beta Let_def intro!: chk)
  next
    case (ProduceMany items)
    then show ?thesis using t refl room produce_all_related [OF all _ _ t, of items] check_produce_ok(1) [of q items]
      by (auto simp: case_prod_beta intro!: chk)
  next
    case (Poll topic' grp mx vis ts_ms)
    have "topic' = topic \<Longrightarrow> R t (fst (poll_topic t grp mx vis ts_ms (next_lease_id q)))" using poll [OF st] adm by (simp add: Poll)
    then show ?thesis using t refl by (auto simp: Poll Queue_State.poll_def case_prod_beta split: option.splits intro!: chk)
  next
    case (PollAuto topic' grp mx vis ts_ms)
    obtain t1 nl items where p: "poll_topic t grp mx vis ts_ms (next_lease_id q) = (t1, nl, items)" by (metis prod.exhaust)
    have name: "R t (reclaim (foldl (\<lambda>t lid. ack_topic t grp lid) t1 (map d_lease_id items)))"
      if "topic' = topic" and len: "length grp \<le> MAX_NAME_BYTES"
    proof -
      have "topic_safe (n + max 1 (unat mx)) nl t1"
        using all room p len by (intro safe.poll [OF st _ _ len p]) (auto simp: topics_all_def PollAuto)
      from acks [OF this, of grp "map d_lease_id items"] poll [OF st, of ts_ms grp mx vis] reclaim adm p that(1)
      show ?thesis by (auto simp: PollAuto intro: trans)
    qed
    show ?thesis using t refl name
      by (cases "topic' = topic")
         (auto simp: PollAuto Queue_State.poll_def p Queue_State.ack_def reclaim_topic_def foldl_bmodify foldl_map check_consumer_ok
           case_prod_beta split: option.splits intro!: chk)
  next
    case (AckMany topic' grp lids)
    then show ?thesis using t refl acks [OF st, of grp lids] reclaim trans
      by (auto simp: foldl_ack reclaim_topic_def)
  next
    case (NackMany topic' grp lids)
    then show ?thesis using t refl nacks [OF st, of grp lids] adm by (auto simp: foldl_nack)
  next
    case (Ack topic' grp lid)
    then show ?thesis using t refl acks [OF st, of grp "[lid]"] reclaim trans by (auto simp: Queue_State.ack_def reclaim_topic_def)
  next
    case (Nack topic' grp lid)
    then show ?thesis using t refl nacks [OF st, of grp "[lid]"] adm by (auto simp: Queue_State.nack_def)
  next
    case (CommitOffset topic' grp offset)
    have "R t (reclaim (commit_topic t grp offset None))" if "length grp \<le> MAX_NAME_BYTES"
      using reclaim [OF safe.commit [OF st that]] commit [OF st, of None grp offset] trans by blast
    then show ?thesis using t refl
      by (auto simp: CommitOffset Queue_State.commit_def reclaim_topic_def check_consumer_ok intro!: chk)
  next
    case (CommitOffsetAt topic' grp offset ts_ms)
    have "R t (reclaim (commit_topic t grp offset (Some ts_ms)))" if "length grp \<le> MAX_NAME_BYTES" "topic' = topic"
      using reclaim [OF safe.commit [OF st that(1)]] commit [OF st, of "Some ts_ms" grp offset] trans adm that by (auto simp: CommitOffsetAt)
    then show ?thesis using t refl
      by (auto simp: CommitOffsetAt Queue_State.commit_def reclaim_topic_def check_consumer_ok intro!: chk)
  qed (use t refl rate retention adm in \<open>auto simp: topic_entry_def intro!: chk\<close>)
qed

lemma run_related:
  assumes "topics_all topic_safe n q" and "n + total_cost reqs \<le> counter_limit"
    and "bget (topics q) topic = Some t" and "list_all (admissible topic clock_ok nack_ok) reqs"
  shows "\<exists>t'. bget (topics (fst (apply_all q reqs))) topic = Some t' \<and> R t t'"
  using assms
proof (induction reqs arbitrary: n q t)
  case (Cons req reqs)
  obtain q' resp where a: "apply_request q req = (q', resp)" by fastforce
  have all: "topics_all topic_safe (n + request_cost req) q'" using safe.all_step [OF Cons.prems(1), of req] Cons.prems(2) a by simp
  obtain t1 where t1: "bget (topics q') topic = Some t1" "R t t1"
    using step_related [OF Cons.prems(1) _ Cons.prems(3), of req] Cons.prems(2,4) a by auto
  from Cons.IH [OF all _ t1(1)] Cons.prems(2,4) t1(2) show ?case by (auto simp: a add.assoc case_prod_beta intro: trans)
qed (simp add: refl)

end

lemma safe_group_inv: "topic_safe n next_lid t \<Longrightarrow> bget (groups t) name = Some g \<Longrightarrow> group_inv (next_offset t) next_lid g"
  using topic_safe_inv by (auto simp: topic_inv_def)

section \<open>Offsets grow\<close>

lemma produce_in_topic_next_offset:
  "next_offset t \<le> next_offset (fst (produce_in_topic t item))"
  by (rule produce_in_topic_cases [of item t]) (auto simp: saturating_add_one_ge)

lemma poll_topic_next_offset [simp]: "next_offset (fst (poll_topic t grp mx vis ts_ms next_lid)) = next_offset t"
  using poll_topic_messages(1) [of t grp mx vis ts_ms next_lid] by (metis prod.collapse)

interpretation offsets: topic_relation "\<lambda>t t'. next_offset t \<le> next_offset t'" "\<lambda>_. True" "\<lambda>_. True"
  by unfold_locales (auto simp: produce_in_topic_next_offset commit_topic_messages)

section \<open>Tracking one group\<close>

definition group_with :: "string \<Rightarrow> (GroupState \<Rightarrow> bool) \<Rightarrow> TopicState \<Rightarrow> bool" where
  "group_with grp G t \<longleftrightarrow> (\<exists>g. bget (groups t) grp = Some g \<and> G g)"

text \<open>
  The contract of a predicate on the state of one group that survives every operation: the sweep
  of idle groups does not drop the group, and each group operation keeps the predicate.
\<close>

locale group_tracking =
  fixes G :: "GroupState \<Rightarrow> bool" and grp :: string and clock_ok :: "u64 \<Rightarrow> bool" and nack_self :: bool
  assumes not_idle: "G g \<Longrightarrow> clock_ok ts_ms \<Longrightarrow> last_active_ms g \<noteq> 0 \<Longrightarrow> saturating_sub ts_ms (last_active_ms g) \<le> GROUP_IDLE_EXPIRE_MS"
    and stamp: "G g \<Longrightarrow> clock_ok ts_ms \<Longrightarrow> last_active_ms g \<le> ts_ms \<Longrightarrow> G (g\<lparr>last_active_ms := ts_ms\<rparr>)"
    and poll_kept: "group_inv next_off next_lid g \<Longrightarrow> G g \<Longrightarrow> clock_ok ts_ms \<Longrightarrow>
      poll_group t g mx vis ts_ms next_lid = (g', next_lid', items) \<Longrightarrow> G g'"
    and ack_kept: "group_inv next_off next_lid g \<Longrightarrow> G g \<Longrightarrow> G (ack_group g lid)"
    and nack_kept: "group_inv next_off next_lid g \<Longrightarrow> nack_self \<Longrightarrow> G g \<Longrightarrow> G (release_lease g lid)"
    and advance_kept: "group_inv next_off next_lid g \<Longrightarrow> G g \<Longrightarrow> G (advance_watermark g to)"
begin

lemma touch: "G g \<Longrightarrow> clock_ok ts_ms \<Longrightarrow> G (g\<lparr>last_active_ms := max (last_active_ms g) ts_ms\<rparr>)"
  by (cases "last_active_ms g \<le> ts_ms") (simp_all add: max_def stamp)

lemma sweep_kept:
  assumes caps: "topic_caps t" and G: "group_with grp G t" and clock: "clock_ok ts_ms"
  shows "group_with grp G (sweep_and_reclaim t ts_ms)"
proof -
  obtain g where g: "bget (groups t) grp = Some g" "G g" using G by (auto simp: group_with_def)
  let ?g = "if last_active_ms g = 0 then g\<lparr>last_active_ms := ts_ms\<rparr> else g"
  have "G ?g" using g(2) clock stamp by simp
  moreover have "saturating_sub ts_ms (last_active_ms ?g) \<le> GROUP_IDLE_EXPIRE_MS"
    using not_idle [OF g(2) clock] by (cases "last_active_ms g = 0") (simp_all add: saturating_sub_def)
  then have "bget (groups (fst (sweep_idle_groups t ts_ms))) grp = Some ?g"
    using g(1) by (auto simp: sweep_idle_groups_def Let_def)
  moreover have "topic_caps (fst (sweep_idle_groups t ts_ms))"
    using caps by (rule topic_caps_fewer) (auto dest: sweep_groups_from)
  ultimately show ?thesis by (auto simp: group_with_def sweep_and_reclaim_def case_prod_beta reclaim_noop_gc)
qed

lemma entry_kept: "group_with grp G t \<Longrightarrow> \<exists>g. group_entry t grp now_ms = Some g \<and> G g"
  by (auto simp: group_with_def group_entry_def bcontains_def)

lemma put_kept: "group_with grp G t \<Longrightarrow> (name = grp \<Longrightarrow> G g) \<Longrightarrow> group_with grp G (put_group t name g)"
  by (auto simp: group_with_def)

lemma purge_kept:
  assumes "topic_inv next_lid t" and "group_with grp G t"
  shows "group_with grp G (purge_retained t now_ms)"
proof -
  obtain g where g: "bget (groups t) grp = Some g" "G g" using assms(2) by (auto simp: group_with_def)
  then have "group_inv (next_offset t) next_lid g" using assms(1) by (simp add: topic_inv_def)
  with g advance_kept show ?thesis by (auto simp: group_with_def purge_retained_groups)
qed

lemma produce_kept:
  assumes safe: "topic_safe n next_lid t" and room: "n < counter_limit" and G: "group_with grp G t"
  shows "group_with grp G (fst (produce_in_topic t item))"
proof -
  have inv: "topic_inv next_lid t" by (rule topic_safe_inv [OF safe])
  have nmax: "next_offset t \<noteq> - 1" using topic_wf_room safe room by (auto simp: topic_safe_def)
  have up: "next_offset t < saturating_add (next_offset t) 1" by (rule saturating_add_one_greater [OF nmax])
  have ded: "dedup_inv (next_offset t) (dedup t) (dedup_order t)" "length (dedup_order t) \<le> DEDUP_CAPACITY"
    using inv by (simp_all add: topic_inv_def)
  have same: "group_with grp G (t\<lparr>next_offset := nx, messages := ms, dedup := ded, dedup_order := order\<rparr>)" for nx ms ded order
    using G by (simp add: group_with_def)
  show ?thesis
  proof (cases rule: produce_in_topic_cases [of item t])
    case (duplicate offset)
    then show ?thesis using purge_kept [OF inv G] by simp
  next
    case (keyed ded' order')
    from evict_dedup_inv [OF dedup_inv_push [OF ded(1) keyed(2) up] keyed(3)]
    have ded': "dedup_inv (saturating_add (next_offset t) 1) ded' order'" "length order' \<le> DEDUP_CAPACITY" by simp_all
    show ?thesis unfolding keyed(4) fst_conv by (rule purge_kept [OF topic_inv_append [OF inv nmax ded'] same]) simp
  next
    case unkeyed
    have ded': "dedup_inv (saturating_add (next_offset t) 1) (dedup t) (dedup_order t)" by (rule dedup_inv_mono [OF ded(1) less_imp_le [OF up]])
    from purge_kept [OF topic_inv_append [OF inv nmax ded' ded(2)] same] show ?thesis
      unfolding unkeyed(2) fst_conv by simp
  qed
qed

end

sublocale group_tracking \<subseteq> tracked: topic_relation "\<lambda>t t'. group_with grp G t \<longrightarrow> group_with grp G t'" clock_ok "\<lambda>name. nack_self \<or> name \<noteq> grp"
proof (unfold_locales, goal_cases)
  case (3 n next_lid t item)
  then show ?case using produce_kept by blast
next
  case (4 n next_lid t ts_ms name mx vis)
  show ?case
  proof
    assume G: "group_with grp G t"
    let ?t1 = "sweep_and_reclaim t ts_ms"
    have inv1: "topic_inv next_lid ?t1" using topic_safe_inv [OF 4(1)] by (rule topic_inv_sweep_and_reclaim)
    have G1: "group_with grp G ?t1" using 4 G by (intro sweep_kept) (simp_all add: topic_safe_def)
    show "group_with grp G (fst (poll_topic t name mx vis ts_ms next_lid))"
    proof (cases rule: poll_topic_cases [of t ts_ms name mx vis next_lid])
      case (polled g g' nl' items)
      have "G g'" if "name = grp"
        using that entry_kept [OF G1, of "Some ts_ms"] polled(1) poll_kept [OF group_entry_inv [OF inv1 polled(1)] _ 4(2) polled(2)] by auto
      then show ?thesis unfolding polled(3) fst_conv by (rule put_kept [OF G1])
    qed (use G1 in simp)
  qed
next
  case (5 n next_lid t name lid)
  then show ?case using ack_kept [OF safe_group_inv [OF 5]] by (auto simp: group_with_def)
next
  case (6 n next_lid t name lid)
  then show ?case using nack_kept [OF safe_group_inv [OF 6(1)]] by (auto simp: group_with_def)
next
  case (7 n next_lid t)
  then show ?case by (simp add: topic_safe_def reclaim_noop_gc group_with_def)
next
  case (8 n next_lid t now_ms name offset)
  show ?case
  proof
    assume G: "group_with grp G t"
    let ?t1 = "case now_ms of None \<Rightarrow> t | Some ts_ms \<Rightarrow> sweep_and_reclaim t ts_ms"
    have inv1: "topic_inv next_lid ?t1" using topic_safe_inv [OF 8(1)] by (simp add: topic_inv_sweep_and_reclaim split: option.splits)
    have G1: "group_with grp G ?t1" using 8 G sweep_kept by (auto simp: topic_safe_def split: option.splits)
    show "group_with grp G (commit_topic t name offset now_ms)"
    proof (cases rule: commit_topic_cases [of t now_ms name offset])
      case (committed g g')
      have "G g'" if "name = grp"
        using that entry_kept [OF G1, of now_ms] committed(1,2) advance_kept [OF group_entry_inv [OF inv1 committed(1)]]
          touch [OF advance_kept [OF group_entry_inv [OF inv1 committed(1)]]] 8(2)
        by (auto simp: Let_def split: option.splits)
      then show ?thesis unfolding committed(3) by (rule put_kept [OF G1])
    qed (use G1 in simp)
  qed
qed (auto simp: group_with_def)

section \<open>Acknowledgements are permanent\<close>

definition acked_since :: "Offset \<Rightarrow> u64 \<Rightarrow> GroupState \<Rightarrow> bool" where
  "acked_since offset since g \<longleftrightarrow> offset \<in> acked_set g \<and> since \<le> last_active_ms g"

definition recent :: "u64 \<Rightarrow> u64 \<Rightarrow> bool" where
  "recent since ts_ms \<longleftrightarrow> saturating_sub ts_ms since \<le> GROUP_IDLE_EXPIRE_MS"

lemma saturating_sub_anti: "since \<le> since' \<Longrightarrow> saturating_sub ts since' \<le> saturating_sub ts (since :: u64)"
  by (simp add: word_le_nat_alt unat_saturating_sub)

lemma recent_not_idle: "recent since ts_ms \<Longrightarrow> since \<le> last_active_ms g \<Longrightarrow> saturating_sub ts_ms (last_active_ms g) \<le> GROUP_IDLE_EXPIRE_MS"
  unfolding recent_def using saturating_sub_anti by (meson order.trans)

lemma poll_group_last_active:
  "poll_group t g mx vis ts_ms next_lid = (g', next_lid', items) \<Longrightarrow> last_active_ms g' = max (last_active_ms g) ts_ms"
  unfolding poll_group_eq using lease_out_effect(3) by fastforce

lemma group_inv_index: "group_inv next_off next_lid g \<Longrightarrow> lease_index_ok g"
  by (simp add: group_inv_def)

interpretation acked: group_tracking "acked_since offset since" grp "recent since" True for offset since grp
proof (unfold_locales, goal_cases)
  case (1 g ts_ms)
  then show ?case by (auto simp: acked_since_def intro: recent_not_idle)
next
  case (2 g ts_ms)
  then show ?case by (auto simp: acked_since_def)
next
  case (3 next_off next_lid g ts_ms t mx vis g' next_lid' items)
  then show ?case
    using poll_group_delivers(6) [OF group_inv_index [OF 3(1)] 3(4)] poll_group_last_active [OF 3(4)]
    by (auto simp: acked_since_def le_max_iff_disj)
next
  case (4 next_off next_lid g lid)
  then show ?case using subsetD [OF ack_group_acked_mono [OF 4(1)]] by (simp add: acked_since_def)
next
  case (5 next_off next_lid g lid)
  then show ?case by (simp add: acked_since_def)
next
  case (6 next_off next_lid g to)
  then show ?case by (simp add: acked_since_def advance_watermark_set [OF 6(1)])
qed

section \<open>A running lease is exclusive\<close>

definition held :: "Offset \<Rightarrow> u64 \<Rightarrow> u64 \<Rightarrow> GroupState \<Rightarrow> bool" where
  "held offset since until g \<longleftrightarrow> since \<le> last_active_ms g \<and>
     (offset \<in> acked_set g \<or> (\<exists>d \<ge> until. bget (leased_offsets g) offset = Some d))"

definition before :: "u64 \<Rightarrow> u64 \<Rightarrow> u64 \<Rightarrow> bool" where
  "before since until ts_ms \<longleftrightarrow> recent since ts_ms \<and> ts_ms < until"

lemma held_not_deliverable: "held offset since until g \<Longrightarrow> ts_ms < until \<Longrightarrow> offset \<notin> deliverable t g ts_ms"
  by (auto simp: held_def deliverable_def dest: order.strict_trans2)

lemma advance_watermark_leased:
  assumes "group_inv next_off next_lid g"
  shows "leased_offsets (advance_watermark g to) = bretain (\<lambda>offset _. max to (ack_watermark g) \<le> offset) (leased_offsets g)"
  by (simp add: advance_watermark_eq [OF group_inv_index [OF assms]])

interpretation held: group_tracking "held offset since until" grp "before since until" False for offset since until grp
proof (unfold_locales, goal_cases)
  case (1 g ts_ms)
  then show ?case by (auto simp: held_def before_def intro: recent_not_idle)
next
  case (2 g ts_ms)
  then show ?case by (auto simp: held_def)
next
  case (3 next_off next_lid g ts_ms t mx vis g' next_lid' items)
  note ok = group_inv_index [OF 3(1)]
  have "offset \<notin> d_offset ` set items"
    using poll_group_delivers(2) [OF ok 3(4)] held_not_deliverable [OF 3(2), of ts_ms t] 3(3) by (auto simp: before_def)
  then show ?case
    using 3(2,3) poll_group_delivers(6,7) [OF ok 3(4)] poll_group_last_active [OF 3(4)]
    by (auto simp: held_def before_def le_max_iff_disj expire_leases [OF ok] bget_retain dest: order.strict_trans2)
next
  case (4 next_off next_lid g lid)
  have "bget (leased_offsets (ack_group g lid)) offset = Some d \<or> offset \<in> acked_set (ack_group g lid)"
    if "bget (leased_offsets g) offset = Some d" for d
  proof (cases "bget (in_flight g) lid")
    case (Some l)
    then show ?thesis
      using that ack_group_acked [OF 4(1), of lid]
      by (auto simp: ack_group_def release_lease_def)
  qed (use that in \<open>simp add: ack_group_def\<close>)
  then show ?case using 4(2) subsetD [OF ack_group_acked_mono [OF 4(1)]] unfolding held_def by fastforce
next
  case (6 next_off next_lid g to)
  then show ?case
    unfolding held_def advance_watermark_set [OF 6(1)] advance_watermark_leased [OF 6(1)]
    by (auto simp: acked_set_def bget_retain not_less)
qed simp

end
