(* ===== verification/Queue_Guarantees.thy ===== *)
theory Queue_Guarantees
  imports Queue_Delivery
begin

text \<open>
  The delivery guarantees of the queue as consumers see them, for every state reachable from the
  empty queue: what a poll returns, when it returns something, that a running lease is exclusive,
  that an acknowledged message never comes back, and that the oldest message is not starved.
\<close>

section \<open>Polls of a reachable queue\<close>

lemma apply_all_append: "apply_all q (reqs @ reqs') = (let (q1, rs) = apply_all q reqs; (q2, rs') = apply_all q1 reqs' in (q2, rs @ rs'))"
  by (induction reqs arbitrary: q) (simp_all add: case_prod_beta Let_def)

lemma total_cost_append [simp]: "total_cost (reqs @ reqs') = total_cost reqs + total_cost reqs'"
  by (simp add: total_cost_def)

lemma poll_request:
  assumes "apply_request q (Poll topic grp mx vis ts_ms) = (q', Polled items)" and "bget (topics q) topic = Some t"
  shows "\<exists>t' next_lid'. poll_topic t grp mx vis ts_ms (next_lease_id q) = (t', next_lid', items) \<and>
    q' = q\<lparr>topics := binsert topic t' (topics q), next_lease_id := next_lid'\<rparr> \<and> length grp \<le> MAX_NAME_BYTES"
proof (cases "check_consumer topic grp")
  case (Inr u)
  then have "length grp \<le> MAX_NAME_BYTES" by (simp add: check_consumer_ok)
  then show ?thesis using assms Inr
    by (cases "poll_topic t grp mx vis ts_ms (next_lease_id q)") (simp add: apply_checked_def Queue_State.poll_def)
qed (use assms in \<open>simp add: apply_checked_def\<close>)

lemma poll_unknown_topic:
  "apply_request q (Poll topic grp mx vis ts_ms) = (q', Polled items) \<Longrightarrow> bget (topics q) topic = None \<Longrightarrow> items = []"
  by (auto simp: apply_checked_def Queue_State.poll_def split: sum.splits)

context group_tracking
begin

lemma not_delivered:
  assumes safe: "topic_safe n next_lid t" and G: "group_with grp G t" and clock: "clock_ok ts_ms"
    and poll: "poll_topic t grp mx vis ts_ms next_lid = (t', next_lid', items)"
    and hidden: "\<And>t g. G g \<Longrightarrow> offset \<notin> deliverable t g ts_ms"
  shows "offset \<notin> d_offset ` set items"
proof -
  let ?t1 = "sweep_and_reclaim t ts_ms"
  have G1: "group_with grp G ?t1" using safe G clock by (intro sweep_kept) (simp_all add: topic_safe_def)
  have inv1: "topic_inv next_lid ?t1" using topic_safe_inv [OF safe] by (rule topic_inv_sweep_and_reclaim)
  show ?thesis
  proof (cases rule: poll_topic_cases [of t ts_ms grp mx vis next_lid])
    case (polled g g' nl' items')
    then have "G g" using entry_kept [OF G1, of "Some ts_ms"] by auto
    with poll_group_delivers(2) [OF group_inv_index [OF group_entry_inv [OF inv1 polled(1)]] polled(2)] hidden
    show ?thesis using polled(3) poll by auto
  qed (use poll in simp)
qed

end

section \<open>What a poll delivers\<close>

text \<open>The deliverable messages of a topic with their priorities, oldest first.\<close>

definition deliverable_list :: "TopicState \<Rightarrow> GroupState \<Rightarrow> u64 \<Rightarrow> (Priority \<times> Offset) list" where
  "deliverable_list t g now_ms =
     map (\<lambda>(offset, m). (m_priority m, offset)) (filter (\<lambda>(offset, _). offset \<in> deliverable t g now_ms) (entries (messages t)))"

lemma poll_candidates_list:
  assumes "lease_index_ok g"
  shows "poll_candidates t g now_ms = deliverable_list t g now_ms"
proof -
  have "offset \<in> deliverable t g now_ms \<longleftrightarrow> ack_watermark g \<le> offset \<and>
      \<not> (offset \<in> acked_above g \<or> bcontains (leased_offsets (expire g now_ms)) offset)" if "(offset, m) \<in> set (entries (messages t))" for offset m
    using that by (auto simp: deliverable_def acked_set_def expire_leases(2) [OF assms] bcontains_def bget_entries [symmetric] not_less)
  then have "filter (\<lambda>(offset, _). offset \<in> deliverable t g now_ms) (entries (messages t)) =
      filter (\<lambda>(offset, _). \<not> (offset \<in> acked_above g \<or> bcontains (leased_offsets (expire g now_ms)) offset)) (brange_from (ack_watermark g) (messages t))"
    unfolding brange_from_def filter_filter by (intro filter_cong) auto
  then show ?thesis by (simp add: poll_candidates_def candidates_def deliverable_list_def)
qed

text \<open>(C3) A poll of a reachable queue delivers exactly the messages the test suite's reference
  selection picks from the group's deliverable messages, in its order, and every delivered item is a
  stored message: the bounded heap pass of \<^verbatim>\<open>poll\<close> agrees with sorting all candidates.\<close>

theorem poll_delivers_reference:
  assumes "total_cost reqs \<le> counter_limit" and "q = fst (apply_all queue_default reqs)"
    and "bget (topics q) topic = Some t" and "t1 = sweep_and_reclaim t ts_ms"
    and "group_entry t1 grp (Some ts_ms) = Some g"
    and "apply_request q (Poll topic grp mx vis ts_ms) = (q', Polled items)"
  shows "map d_offset items = reference_selection (deliverable_list t1 g ts_ms) (unat mx) (poll_count g) \<and>
    (\<forall>d \<in> set items. \<exists>m. bget (messages t1) (d_offset d) = Some m \<and> d = delivered (d_lease_id d) (d_offset d) m)"
proof -
  note safe = reachable_safe [OF assms(1) assms(3) [unfolded assms(2)]]
  have inv1: "topic_inv (next_lease_id q) t1"
    unfolding assms(4) using topic_safe_inv [OF safe] assms(2) by (simp add: topic_inv_sweep_and_reclaim)
  note ok = group_inv_index [OF group_entry_inv [OF inv1 assms(5)]]
  obtain t' nl where p: "poll_topic t grp mx vis ts_ms (next_lease_id q) = (t', nl, items)"
    using poll_request [OF assms(6,3)] by blast
  obtain g' nl' where pg: "poll_group t1 g mx (min vis MAX_VISIBILITY_MS) ts_ms (next_lease_id q) = (g', nl', items)"
    using assms(4,5) p by (cases rule: poll_topic_cases [of t ts_ms grp mx vis "next_lease_id q"]) auto
  have "\<exists>m. bget (messages t1) (d_offset d) = Some m \<and> d = delivered (d_lease_id d) (d_offset d) m" if "d \<in> set items" for d
  proof -
    have "d_offset d \<in> deliverable t1 g ts_ms" using poll_group_delivers(2) [OF ok pg] that by blast
    then obtain m where "bget (messages t1) (d_offset d) = Some m" by (auto simp: deliverable_def)
    with poll_group_delivers(5) [OF ok pg that] show ?thesis by (metis option.sel)
  qed
  then show ?thesis
    using poll_group_delivers(1) [OF ok pg] by (simp add: poll_candidates_list [OF ok])
qed

definition sample_produces :: "AppRequest list" where
  "sample_produces = [produce_request (sample_item ''a'' ''p'' 0 5), produce_request (sample_item ''a'' [] 0 6)]"

definition sample_q :: Queue where
  "sample_q = fst (apply_all queue_default sample_produces)"

definition sample_t :: TopicState where
  "sample_t = the (bget (topics sample_q) ''a'')"

lemmas sample_defs = sample_t_def sample_q_def sample_produces_def produce_request_def sample_item_def

lemma sample_produces_cost: "total_cost sample_produces + 10 \<le> counter_limit"
  by (simp add: sample_produces_def produce_request_def counter_limit_eq)

lemma sample_q_topic: "bget (topics sample_q) ''a'' = Some sample_t"
  by (simp add: sample_defs queue_eval)

lemma sample_q_polled:
  "\<exists>q'. apply_request sample_q (Poll ''a'' ''g'' 1 100 10) = (q', Polled
     [\<lparr>d_lease_id = 0, d_offset = 0, d_priority = 3, d_content_type = Raw, d_payload = [1], d_ts_ms = 5\<rparr>])"
  by (simp add: sample_defs queue_eval)

lemma sample_q_entry:
  "group_entry (sweep_and_reclaim sample_t 10) ''g'' (Some 10) = Some (group_default\<lparr>last_active_ms := 10\<rparr>)"
  by (simp add: sample_defs queue_eval)

theorem poll_delivers_reference_witness:
  "reference_selection (deliverable_list (sweep_and_reclaim sample_t 10) (group_default\<lparr>last_active_ms := 10\<rparr>) 10) 1 0 = [0]"
proof -
  obtain q' where "apply_request sample_q (Poll ''a'' ''g'' 1 100 10) = (q', Polled
     [\<lparr>d_lease_id = 0, d_offset = 0, d_priority = 3, d_content_type = Raw, d_payload = [1], d_ts_ms = 5\<rparr>])"
    using sample_q_polled by blast
  from poll_delivers_reference [OF _ _ sample_q_topic refl sample_q_entry this, of sample_produces] sample_produces_cost
  show ?thesis by (simp add: sample_q_def group_default_def)
qed

section \<open>Leases\<close>




definition sample_q1 :: Queue where
  "sample_q1 = fst (apply_all queue_default (sample_produces @ [Poll ''a'' ''g'' 1 100 10]))"

lemma sample_q1_lease:
  "\<exists>t g. bget (topics sample_q1) ''a'' = Some t \<and> bget (groups t) ''g'' = Some g \<and> last_active_ms g = 10 \<and> poll_count g = 1 \<and>
     bget (in_flight g) 0 = Some \<lparr>lease_offset = 0, deadline_ms = 110\<rparr>"
  by (simp add: sample_q1_def sample_defs queue_eval)


section \<open>When a poll returns something\<close>

lemma sweep_noop:
  assumes "\<not> snd (sweep_idle_groups t ts_ms)"
  shows "sweep_and_reclaim t ts_ms = fst (sweep_idle_groups t ts_ms)"
    and "bget (groups (sweep_and_reclaim t ts_ms)) name = map_option (\<lambda>g. if last_active_ms g = 0 then g\<lparr>last_active_ms := ts_ms\<rparr> else g) (bget (groups t) name)"
    and "blen (groups (sweep_and_reclaim t ts_ms)) = blen (groups t)"
proof -
  show eq: "sweep_and_reclaim t ts_ms = fst (sweep_idle_groups t ts_ms)"
    using assms by (simp add: sweep_and_reclaim_def case_prod_beta)
  have "groups (fst (sweep_idle_groups t ts_ms)) = bmap (\<lambda>_ g. if last_active_ms g = 0 then g\<lparr>last_active_ms := ts_ms\<rparr> else g) (groups t)"
    using assms by (simp add: sweep_idle_groups_def Let_def bretain_same_len)
  then show "bget (groups (sweep_and_reclaim t ts_ms)) name = map_option (\<lambda>g. if last_active_ms g = 0 then g\<lparr>last_active_ms := ts_ms\<rparr> else g) (bget (groups t) name)"
    "blen (groups (sweep_and_reclaim t ts_ms)) = blen (groups t)"
    by (simp_all add: eq)
qed

lemma deliverable_stamp: "deliverable t (g\<lparr>last_active_ms := ts\<rparr>) now_ms = deliverable t g now_ms"
  by (simp add: deliverable_def)

lemma has_deliverable_iff:
  assumes "bget (topics q) topic = Some t"
  shows "has_deliverable q topic grp now_ms \<longleftrightarrow> (case bget (groups t) grp of
    None \<Rightarrow> \<not> bis_empty (messages t) | Some g \<Rightarrow> deliverable t g now_ms \<noteq> {})"
  using assms
  by (auto simp: has_deliverable_def list_ex_iff set_brange_from deliverable_def acked_set_def not_less split: option.splits)

lemma deliverable_new_group:
  assumes "topic_safe n next_lid t" and "g = group_default\<lparr>ack_watermark := first_or_next t, last_active_ms := ts\<rparr>"
  shows "deliverable t g now_ms = {} \<longleftrightarrow> bis_empty (messages t)"
proof (cases "bfirst_key (messages t)")
  case None
  then show ?thesis by (auto simp: deliverable_def bis_empty_iff)
next
  case (Some first)
  then have "first_or_next t = first" by (simp add: first_or_next_def)
  with Some have "first \<in> deliverable t g now_ms"
    by (auto simp: assms(2) deliverable_def acked_set_def group_default_def bfirst_key_Some)
  with Some show ?thesis by (metis bfirst_key_None empty_iff option.distinct(1))
qed





section \<open>Redelivery and fairness\<close>

text \<open>(C7) A nack makes a message deliverable again at once: its offset joins the group's deliverable set
  at every clock, and nothing else about what the group may be delivered changes.\<close>

theorem nack_redelivers:
  assumes "total_cost reqs \<le> counter_limit" and "q = fst (apply_all queue_default reqs)"
    and "bget (topics q) topic = Some t" and "bget (groups t) grp = Some g" and "bget (in_flight g) lid = Some lease"
    and "q' = fst (apply_request q (Nack topic grp lid))"
  shows "\<exists>t' g'. bget (topics q') topic = Some t' \<and> bget (groups t') grp = Some g' \<and>
    deliverable t' g' now_ms = insert (lease_offset lease) (deliverable t g now_ms)"
proof -
  have st: "topic_safe (total_cost reqs) (next_lease_id q) t"
    using reachable_safe [OF assms(1)] assms(2,3) by simp
  note gi = safe_group_inv [OF st assms(4)]
  note ok = group_inv_index [OF gi]
  have off: "lease_offset lease < next_offset t" "ack_watermark g \<le> lease_offset lease"
    using gi assms(5) by (auto simp: group_inv_def)
  have leased: "bget (leased_offsets g) (lease_offset lease) = Some (deadline_ms lease)"
    by (rule lease_index_in_flight [OF ok assms(5)])
  then have unacked: "lease_offset lease \<notin> acked_set g"
    using gi off by (auto simp: group_inv_def acked_set_def)
  then have stored: "bget (messages t) (lease_offset lease) \<noteq> None"
    using st assms(4) off(1) by (auto simp: topic_safe_def keeps_unacked_def bcontains_def)
  let ?g = "release_lease g lid" and ?t = "nack_topic t grp lid"
  have "bget (topics q') topic = Some ?t" "bget (groups ?t) grp = Some ?g"
    by (simp_all add: assms(3,4,6) Queue_State.nack_def)
  moreover have "deliverable ?t ?g now_ms = insert (lease_offset lease) (deliverable t g now_ms)"
    using stored unacked release_lease_leased [OF ok assms(5)] by (auto simp: deliverable_def)
  ultimately show ?thesis by blast
qed

theorem nack_redelivers_witness:
  "\<exists>t' g'. bget (topics (fst (apply_request sample_q1 (Nack ''a'' ''g'' 0)))) ''a'' = Some t' \<and> bget (groups t') ''g'' = Some g' \<and>
     0 \<in> deliverable t' g' 11"
proof -
  obtain t g where t: "bget (topics sample_q1) ''a'' = Some t" and g: "bget (groups t) ''g'' = Some g"
      and l: "bget (in_flight g) 0 = Some \<lparr>lease_offset = 0, deadline_ms = 110\<rparr>"
    using sample_q1_lease by blast
  from nack_redelivers [OF _ sample_q1_def t g l refl, of 11] sample_produces_cost show ?thesis by auto
qed

lemma oldest_reserved:
  assumes "cs \<noteq> []" and "distinct (map snd cs)" and "reserved_slots mx poll_cnt > 0"
  shows "hd cs \<in> set (selected mx poll_cnt cs)"
proof -
  have "hd cs \<in> set (take (reserved_slots mx poll_cnt) cs)" using assms(1,3) by (cases cs) (auto simp: take_Cons')
  then show ?thesis using selected_reserved [OF assms(2)] by blast
qed

lemma hd_candidates_min:
  assumes "lease_index_ok g" and "deliverable t g now_ms \<noteq> {}"
  shows "poll_candidates t g now_ms \<noteq> []" and "snd (hd (poll_candidates t g now_ms)) = Min (deliverable t g now_ms)"
proof -
  let ?cs = "poll_candidates t g now_ms"
  show ne: "?cs \<noteq> []" using set_poll_candidates [OF assms(1), of t now_ms] assms(2) by auto
  have "snd (hd ?cs) \<le> x" if "x \<in> snd ` set ?cs" for x
    using that sorted_poll_candidates [of t g now_ms] ne by (cases ?cs) auto
  moreover have "snd (hd ?cs) \<in> snd ` set ?cs" using ne by simp
  ultimately show "snd (hd ?cs) = Min (deliverable t g now_ms)"
    using set_poll_candidates [OF assms(1), of t now_ms] by (intro Min_eqI [symmetric]) auto
qed

text \<open>(C8) No starvation: a poll delivers the oldest deliverable message whatever its priority whenever it
  asks for at least four messages, and with any positive batch size when the group's poll counter
  reaches a multiple of four.\<close>

theorem oldest_not_starved:
  assumes "total_cost reqs \<le> counter_limit" and "q = fst (apply_all queue_default reqs)"
    and "bget (topics q) topic = Some t" and "t1 = sweep_and_reclaim t ts_ms"
    and "group_entry t1 grp (Some ts_ms) = Some g" and "deliverable t1 g ts_ms \<noteq> {}"
    and "mx \<ge> 4 \<or> mx \<noteq> 0 \<and> (poll_count g + 1) mod 4 = 0"
    and "apply_request q (Poll topic grp mx vis ts_ms) = (q', Polled items)"
  shows "Min (deliverable t1 g ts_ms) \<in> d_offset ` set items"
proof -
  have st: "topic_safe (total_cost reqs) (next_lease_id q) t"
    using reachable_safe [OF assms(1)] assms(2,3) by simp
  have inv1: "topic_inv (next_lease_id q) t1" unfolding assms(4) using topic_safe_inv [OF st] by (rule topic_inv_sweep_and_reclaim)
  note ok = group_inv_index [OF group_entry_inv [OF inv1 assms(5)]]
  obtain t' nl where p: "poll_topic t grp mx vis ts_ms (next_lease_id q) = (t', nl, items)"
    using poll_request [OF assms(8,3)] by blast
  obtain g' nl' where pg: "poll_group t1 g mx (min vis MAX_VISIBILITY_MS) ts_ms (next_lease_id q) = (g', nl', items)"
    using assms(4,5) p by (cases rule: poll_topic_cases [of t ts_ms grp mx vis "next_lease_id q"]) auto
  have offs: "d_offset ` set items = snd ` set (selected (unat mx) (poll_count g) (poll_candidates t1 g ts_ms))"
    using lease_out_effect(1) [OF pg [unfolded poll_group_eq]] by (metis list.set_map poll_chosen_def set_sort)
  have "reserved_slots (unat mx) (poll_count g) > 0"
  proof -
    have "unat mx \<ge> 4 \<or> unat mx > 0 \<and> (poll_count g + 1) mod RESERVED_DEN = 0"
      using assms(7) by (auto simp: word_le_nat_alt unat_gt_0 RESERVED_DEN_def)
    moreover have "unat RESERVED_DEN = 4" by (simp add: RESERVED_DEN_def)
    ultimately show ?thesis unfolding reserved_slots_def Let_def by (elim disjE conjE) (simp_all add: div_greater_zero_iff)
  qed
  with oldest_reserved [OF hd_candidates_min(1) [OF ok assms(6)] distinct_poll_candidates] hd_candidates_min(2) [OF ok assms(6)]
  show ?thesis unfolding offs by (metis image_eqI)
qed

theorem oldest_not_starved_witness:
  "\<exists>q' items. apply_request sample_q (Poll ''a'' ''g'' 4 100 10) = (q', Polled items) \<and>
     Min (deliverable (sweep_and_reclaim sample_t 10) (group_default\<lparr>last_active_ms := 10\<rparr>) 10) \<in> d_offset ` set items"
proof -
  obtain q' items where p: "apply_request sample_q (Poll ''a'' ''g'' 4 100 10) = (q', Polled items)"
    by (simp add: sample_defs queue_eval)
  have "messages (sweep_and_reclaim sample_t 10) = messages sample_t" "bget (messages sample_t) 0 \<noteq> None"
    by (simp_all add: sample_defs queue_eval)
  then have "0 \<in> deliverable (sweep_and_reclaim sample_t 10) (group_default\<lparr>last_active_ms := 10\<rparr>) 10"
    by (simp add: deliverable_def acked_set_def group_default_def)
  with oldest_not_starved [OF _ sample_q_def sample_q_topic refl sample_q_entry _ _ p] sample_produces_cost p
  show ?thesis by fastforce
qed



end
