(* ===== verification/Queue_Dedup.thy ===== *)
theory Queue_Dedup
  imports Queue_Guarantees
begin

text \<open>
  Producer deduplication across whole runs: a producer that re-sends a message gets the offset of the
  first attempt and stores nothing, for as long as the message is retained and the bounded table has
  not moved past it. The relation \<open>remembers\<close> between the states of a topic is an instance of the
  locale for relations that every operation keeps.
\<close>

section \<open>What a topic remembers\<close>

definition remembers :: "TopicState \<Rightarrow> TopicState \<Rightarrow> bool" where
  "remembers t t' \<longleftrightarrow> next_offset t \<le> next_offset t' \<and> first_or_next t \<le> first_or_next t' \<and>
     (\<forall>key offset. bget (dedup t) key = Some offset \<and> unat (next_offset t') \<le> unat offset + DEDUP_CAPACITY \<and>
        first_or_next t' \<le> offset \<longrightarrow> bget (dedup t') key = Some offset)"

lemma remembers_refl: "remembers t t"
  by (simp add: remembers_def)

lemma remembers_trans:
  assumes "remembers t t'" and "remembers t' t''"
  shows "remembers t t''"
proof -
  have "unat (next_offset t') \<le> unat (next_offset t'')" using assms(2) by (simp add: remembers_def word_le_nat_alt)
  with assms show ?thesis unfolding remembers_def by (meson order_trans)
qed

lemma first_or_next_bound: "bget (messages t) offset \<noteq> None \<Longrightarrow> first_or_next t \<le> offset"
  using bfirst_key_Some [of "messages t"] bis_empty_iff [of "messages t"] by (auto simp: first_or_next_def split: option.splits)

lemma first_or_next_cases:
  obtains "first_or_next t = next_offset t" | "bget (messages t) (first_or_next t) \<noteq> None"
  by (cases "bfirst_key (messages t)") (auto simp: first_or_next_def bfirst_key_Some)

lemma first_or_next_mono:
  assumes "topic_inv next_lid t" and "next_offset t \<le> next_offset t'"
    and "\<And>offset. bget (messages t') offset \<noteq> None \<Longrightarrow> bget (messages t) offset \<noteq> None \<or> offset = next_offset t"
  shows "first_or_next t \<le> first_or_next t'"
  using first_or_next_le [OF assms(1)] first_or_next_bound [of t] assms(2,3)
  by (cases t' rule: first_or_next_cases) (metis order_trans)+

lemma remembers_shrink:
  assumes "topic_inv next_lid t" and "next_offset t' = next_offset t" and "dedup t' = dedup t"
    and "\<And>offset. bget (messages t') offset \<noteq> None \<Longrightarrow> bget (messages t) offset \<noteq> None"
  shows "remembers t t'"
  using first_or_next_mono [OF assms(1), of t'] assms(2-4) by (simp add: remembers_def)

lemma remembers_same:
  assumes "next_offset t' = next_offset t" and "dedup t' = dedup t" and "messages t' = messages t"
  shows "remembers t t'"
  unfolding remembers_def first_or_next_def assms by simp

lemma dedup_purge:
  assumes "topic_inv next_lid t"
  shows "dedup (purge_retained t now_ms) =
    (if purge_set t now_ms = {} then dedup t else bretain (\<lambda>_ offset. first_or_next (purge_retained t now_ms) \<le> offset) (dedup t))"
proof (cases "purge_set t now_ms = {}")
  case False
  have "dedup_inv (next_offset t) (dedup t) (dedup_order t)" using assms by (simp add: topic_inv_def)
  from prune_keys_eq [OF this] have *: "dedup (purge_retained t now_ms) =
      bretain (\<lambda>_ offset. first_or_next (t\<lparr>messages := messages (purge_retained t now_ms)\<rparr>) \<le> offset) (dedup t)"
    using False by (simp add: purge_retained_messages) (simp add: purge_retained_def prune_dedup_def Let_def)
  show ?thesis unfolding * using False by (simp add: first_or_next_def cong: option.case_cong)
qed (simp add: purge_retained_def)

lemma remembers_purge:
  assumes "topic_inv next_lid t"
  shows "remembers t (purge_retained t now_ms)"
proof -
  have "first_or_next t \<le> first_or_next (purge_retained t now_ms)"
    by (rule first_or_next_mono [OF assms]) (auto simp: purge_retained_messages bget_retain split: option.splits)
  then show ?thesis by (auto simp: remembers_def dedup_purge [OF assms] bget_retain)
qed

section \<open>Appending\<close>

lemma evict_dedup_keeps:
  "distinct order \<Longrightarrow> order = pre @ key # post \<Longrightarrow> length post < DEDUP_CAPACITY \<Longrightarrow> evict_dedup ded order = (ded', order') \<Longrightarrow>
   bget ded' key = bget ded key"
proof (induction ded order arbitrary: pre rule: evict_dedup.induct)
  case (2 ded old order)
  show ?case
  proof (cases pre)
    case Nil
    then show ?thesis using 2 by (auto split: if_splits)
  next
    case (Cons p pre')
    then have "p = old" "order = pre' @ key # post" "key \<noteq> old" using "2.prems"(1,2) by auto
    then show ?thesis using 2 by (auto split: if_splits)
  qed
qed simp

lemma offsets_after:
  assumes "dedup_inv next_off ded (pre @ key # post)" and "bget ded key = Some offset"
  shows "unat offset + length post < unat next_off"
proof -
  let ?at = "\<lambda>k. unat (the (bget ded k))"
  have ds: "sorted_wrt (\<lambda>k k'. ?at k < ?at k') (key # post)" using assms(1) by (simp add: dedup_inv_def sorted_wrt_append word_less_nat_alt)
  have "distinct (map ?at (key # post))" using ds by (metis sorted_wrt_map strict_sorted_iff)
  moreover have "set (map ?at (key # post)) \<subseteq> {unat offset..<unat next_off}"
  proof
    fix x
    assume "x \<in> set (map ?at (key # post))"
    then obtain k where k: "k \<in> set (key # post)" "x = ?at k" unfolding set_map by blast
    then have "k \<in> dom (bget ded)" using assms(1) by (auto simp: dedup_inv_def)
    then obtain o' where o': "bget ded k = Some o'" by blast
    then have "o' < next_off" using assms(1) unfolding dedup_inv_def by blast
    then have "x < unat next_off" using k(2) o' by (simp add: word_less_nat_alt)
    moreover have "unat offset \<le> x" using k ds assms(2) by (auto intro: less_imp_le)
    ultimately show "x \<in> {unat offset..<unat next_off}" by simp
  qed
  ultimately have "length (key # post) \<le> unat next_off - unat offset"
    using card_mono [of "{unat offset..<unat next_off}" "set (map ?at (key # post))"] distinct_card [of "map ?at (key # post)"] by simp
  then show ?thesis by simp
qed

lemma remembers_keyed:
  assumes inv: "topic_inv next_lid t" and room: "next_offset t \<noteq> - 1" and new: "bget (dedup t) key = None"
    and ev: "evict_dedup (binsert key (next_offset t) (dedup t)) (dedup_order t @ [key]) = (ded, order)"
    and "m_offset m = next_offset t"
  defines "t1 \<equiv> t\<lparr>next_offset := saturating_add (next_offset t) 1, messages := binsert (next_offset t) m (messages t), dedup := ded, dedup_order := order\<rparr>"
  shows "remembers t t1" and "topic_inv next_lid t1" and "bget (dedup t1) key = Some (next_offset t)"
proof -
  have up: "next_offset t < saturating_add (next_offset t) 1" by (rule saturating_add_one_greater [OF room])
  have push: "dedup_inv (saturating_add (next_offset t) 1) (binsert key (next_offset t) (dedup t)) (dedup_order t @ [key])"
    using inv new up by (intro dedup_inv_push) (simp_all add: topic_inv_def)
  then have dist: "distinct (dedup_order t @ [key])" by (simp add: dedup_inv_def)
  have ei: "dedup_inv (saturating_add (next_offset t) 1) ded order" "length order \<le> DEDUP_CAPACITY" using evict_dedup_inv [OF push ev] by auto
  then show "topic_inv next_lid t1" unfolding t1_def using inv room assms(5) by (intro topic_inv_append)
  show "bget (dedup t1) key = Some (next_offset t)"
    using evict_dedup_keeps [OF dist refl _ ev] by (simp add: t1_def DEDUP_CAPACITY_def)
  have first: "first_or_next t \<le> first_or_next t1"
    by (rule first_or_next_mono [OF inv]) (use up in \<open>auto simp: t1_def split: if_splits\<close>)
  moreover have "bget ded k = Some offset"
    if k: "bget (dedup t) k = Some offset" and cap: "unat (saturating_add (next_offset t) 1) \<le> unat offset + DEDUP_CAPACITY" for k offset
  proof -
    have ne: "k \<noteq> key" using k new by auto
    have "k \<in> set (dedup_order t @ [key])" using k inv by (auto simp: topic_inv_def dedup_inv_def)
    then obtain pre post where split: "dedup_order t @ [key] = pre @ k # post" by (meson split_list)
    have "unat offset + length post < unat (saturating_add (next_offset t) 1)"
      using offsets_after [OF push [unfolded split], of offset] k ne by simp
    then have "length post < DEDUP_CAPACITY" using cap by linarith
    from evict_dedup_keeps [OF dist split this ev] show ?thesis using k ne by simp
  qed
  ultimately show "remembers t t1" using up by (simp add: remembers_def t1_def less_imp_le)
qed

lemma remembers_unkeyed:
  assumes inv: "topic_inv next_lid t" and room: "next_offset t \<noteq> - 1" and "m_offset m = next_offset t"
  defines "t1 \<equiv> t\<lparr>next_offset := saturating_add (next_offset t) 1, messages := binsert (next_offset t) m (messages t)\<rparr>"
  shows "remembers t t1" and "topic_inv next_lid t1"
proof -
  have up: "next_offset t < saturating_add (next_offset t) 1" by (rule saturating_add_one_greater [OF room])
  have "dedup_inv (saturating_add (next_offset t) 1) (dedup t) (dedup_order t)" "length (dedup_order t) \<le> DEDUP_CAPACITY"
    using inv up by (auto simp: topic_inv_def intro: dedup_inv_mono less_imp_le)
  from topic_inv_append [OF inv room this assms(3)] show "topic_inv next_lid t1" by (simp add: t1_def)
  have "first_or_next t \<le> first_or_next t1"
    by (rule first_or_next_mono [OF inv]) (use up in \<open>auto simp: t1_def split: if_splits\<close>)
  then show "remembers t t1" using up by (simp add: remembers_def t1_def less_imp_le)
qed

lemma produce_remembers:
  assumes safe: "topic_safe n next_lid t" and "n < counter_limit"
  shows "remembers t (fst (produce_in_topic t item))"
    and "p_producer_id item \<noteq> [] \<Longrightarrow> \<exists>t0. bget (dedup t0) (p_producer_id item, p_seq item) = Some (snd (produce_in_topic t item)) \<and>
      remembers t0 (fst (produce_in_topic t item))"
proof -
  note inv = topic_safe_inv [OF safe]
  have room: "next_offset t \<noteq> - 1" using topic_wf_room safe assms(2) by (auto simp: topic_safe_def)
  have "remembers t (fst (produce_in_topic t item)) \<and> (p_producer_id item \<noteq> [] \<longrightarrow>
      (\<exists>t0. bget (dedup t0) (p_producer_id item, p_seq item) = Some (snd (produce_in_topic t item)) \<and> remembers t0 (fst (produce_in_topic t item))))"
  proof (cases t item rule: produce_in_topic_cases)
    case (duplicate offset)
    then show ?thesis using remembers_purge [OF inv] by auto
  next
    case (keyed ded order)
    note new = remembers_keyed [OF inv room keyed(2,3)]
    show ?thesis unfolding keyed(4) fst_conv snd_conv
      by (intro conjI impI exI [where x = "t\<lparr>next_offset := saturating_add (next_offset t) 1, messages := binsert (next_offset t)
            \<lparr>m_offset = next_offset t, m_priority = p_priority item, m_content_type = p_content_type item,
              m_payload = p_payload item, m_ts_ms = p_ts_ms item\<rparr> (messages t), dedup := ded, dedup_order := order\<rparr>"]
          remembers_trans [OF new(1) remembers_purge [OF new(2)]] new(3) remembers_purge [OF new(2)]) simp_all
  next
    case unkeyed
    note new = remembers_unkeyed [OF inv room]
    show ?thesis unfolding unkeyed(2) fst_conv using unkeyed(1)
      by (simp add: remembers_trans [OF new(1) remembers_purge [OF new(2)]])
  qed
  then show "remembers t (fst (produce_in_topic t item))"
    and "p_producer_id item \<noteq> [] \<Longrightarrow> \<exists>t0. bget (dedup t0) (p_producer_id item, p_seq item) = Some (snd (produce_in_topic t item)) \<and>
      remembers t0 (fst (produce_in_topic t item))" by blast+
qed

section \<open>The other operations\<close>

lemma messages_reclaim: "bget (messages (reclaim_messages t)) offset \<noteq> None \<Longrightarrow> bget (messages t) offset \<noteq> None"
  using reclaim_messages_split [of t] by (auto split: if_splits)

lemma messages_sweep: "bget (messages (sweep_and_reclaim t now_ms)) offset \<noteq> None \<Longrightarrow> bget (messages t) offset \<noteq> None"
  using messages_reclaim [of "fst (sweep_idle_groups t now_ms)"] by (auto simp: sweep_and_reclaim_def case_prod_beta split: if_splits)

lemma poll_topic_dedup: "dedup (fst (poll_topic t grp mx vis ts_ms next_lid)) = dedup t"
  by (rule poll_topic_cases [of t ts_ms grp mx vis next_lid]) auto

lemma commit_topic_dedup: "dedup (commit_topic t grp offset now_ms) = dedup t"
  by (rule commit_topic_cases [of t now_ms grp offset]) (auto split: option.splits)

interpretation dedup_window: topic_relation remembers "\<lambda>_. True" "\<lambda>_. True"
proof (unfold_locales, goal_cases)
  case (2 t t' t'')
  then show ?case by (rule remembers_trans)
next
  case (3 n next_lid t item)
  then show ?case by (rule produce_remembers(1))
next
  case (4 n next_lid t ts_ms grp mx vis)
  show ?case using poll_topic_messages [of t grp mx vis ts_ms next_lid] messages_sweep
    by (intro remembers_shrink [OF topic_safe_inv [OF 4(1)]] poll_topic_dedup) (metis prod.collapse)+
next
  case (8 n next_lid t now_ms grp offset)
  show ?case using messages_sweep
    by (intro remembers_shrink [OF topic_safe_inv [OF 8(1)]] commit_topic_dedup) (auto simp: commit_topic_messages split: option.splits)
next
  case (7 n next_lid t)
  show ?case by (rule remembers_shrink [OF topic_safe_inv [OF 7]]) (use messages_reclaim in auto)
qed (simp_all add: remembers_same)

section \<open>Retries\<close>

text \<open>(C10) Producing is idempotent: after a message with a producer id was accepted at an offset, sending it
  again with the same producer and sequence number - whatever requests other clients made in between -
  answers with the same offset and stores nothing, retention aside, as long as the message is retained
  and at most \<^verbatim>\<open>DEDUP_CAPACITY\<close> offsets were handed out since.\<close>

theorem produce_idempotent:
  assumes "total_cost reqs + 1 + total_cost reqs' \<le> counter_limit" and "q = fst (apply_all queue_default reqs)"
    and "p_producer_id item \<noteq> []" and "apply_request q (produce_request item) = (q1, Produced offset)"
    and "list_all (admissible (p_topic item) (\<lambda>_. True) (\<lambda>_. True)) reqs'" and "q2 = fst (apply_all q1 reqs')"
    and "bget (topics q2) (p_topic item) = Some t" and "bget (messages t) offset \<noteq> None"
    and "unat (next_offset t) \<le> unat offset + DEDUP_CAPACITY"
    and "p_topic item' = p_topic item" and "p_producer_id item' = p_producer_id item" and "p_seq item' = p_seq item"
  shows "apply_request q2 (produce_request item') =
    (q2\<lparr>topics := binsert (p_topic item) (purge_retained t (p_ts_ms item')) (topics q2)\<rparr>, Produced offset)"
proof -
  let ?t = "topic_entry (topics q) (p_topic item)" and ?key = "(p_producer_id item, p_seq item)"
  have all: "topics_all topic_safe (total_cost reqs) q"
    using safe.all_reachable [of reqs] assms(1) by (simp add: assms(2))
  have st: "topic_safe (total_cost reqs) (next_lease_id q) ?t" by (rule safe.all_entry [OF all])
  have chk: "check_produce q [item] = Inr ()" and p1: "produce_one q item = (q1, offset)"
    using assms(4) by (auto simp: apply_produce_request apply_checked_def prod_eq_iff split: sum.splits)
  then have off: "offset = snd (produce_in_topic ?t item)" and t1: "bget (topics q1) (p_topic item) = Some (fst (produce_in_topic ?t item))"
    by (auto simp: produce_one_def case_prod_beta)
  have all1: "topics_all topic_safe (total_cost reqs + 1) q1"
    using safe.all_step [OF all, of "produce_request item"] assms(1,4) by (simp add: produce_request_def)
  have "remembers (fst (produce_in_topic ?t item)) t"
    using dedup_window.run_related [OF all1 _ t1, of reqs'] assms(1,5,6,7) by auto
  moreover obtain t0 where t0: "bget (dedup t0) ?key = Some offset" "remembers t0 (fst (produce_in_topic ?t item))"
    using produce_remembers(2) [OF st _ assms(3)] assms(1) off by auto
  ultimately have "remembers t0 t" by (blast intro: remembers_trans)
  then have hit: "bget (dedup t) ?key = Some offset"
    using t0(1) first_or_next_bound [OF assms(8)] assms(9) unfolding remembers_def by blast
  have "queue_caps q1"
    using queue_caps_step [OF queue_caps_run [OF queue_caps_default, of reqs], of "produce_request item"] assms(4) unfolding assms(2) [symmetric] by simp
  then have "queue_caps q2" unfolding assms(6) by (rule queue_caps_run)
  then have "check_produce q2 [item'] = Inr ()"
    using chk assms(7,10,11) by (simp add: check_produce_single queue_caps_def) (simp add: check_produce_iff item_ok_def topic_admits_def bcontains_def)
  then show ?thesis using assms(3,7,10-12) hit
    by (simp add: apply_produce_request apply_checked_def produce_one_def topic_entry_def produce_in_topic_def)
qed

theorem produce_idempotent_witness:
  "\<exists>q1 q2 t. apply_request sample_q (produce_request (sample_item ''a'' ''w'' 1 7)) = (q1, Produced 2) \<and>
     q2 = fst (apply_all q1 [produce_request (sample_item ''a'' ''w'' 2 8)]) \<and> bget (topics q2) ''a'' = Some t \<and>
     apply_request q2 (produce_request (sample_item ''a'' ''w'' 1 9)) =
       (q2\<lparr>topics := binsert ''a'' (purge_retained t 9) (topics q2)\<rparr>, Produced 2)"
proof -
  define q1 where "q1 = fst (apply_request sample_q (produce_request (sample_item ''a'' ''w'' 1 7)))"
  define q2 where "q2 = fst (apply_all q1 [produce_request (sample_item ''a'' ''w'' 2 8)])"
  define t where "t = the (bget (topics q2) ''a'')"
  have "snd (apply_request sample_q (produce_request (sample_item ''a'' ''w'' 1 7))) = Produced 2"
    by (simp add: sample_defs queue_eval)
  then have q1: "apply_request sample_q (produce_request (sample_item ''a'' ''w'' 1 7)) = (q1, Produced 2)"
    by (simp add: q1_def prod_eq_iff)
  have t: "bget (topics q2) ''a'' = Some t"
    by (simp add: t_def q2_def q1_def sample_defs queue_eval)
  have "bget (messages t) 2 \<noteq> None" "next_offset t = 4"
    by (simp_all add: t_def q2_def q1_def sample_defs queue_eval)
  with produce_idempotent [OF _ sample_q_def _ q1 _ q2_def, of t "sample_item ''a'' ''w'' 1 9"] q1 t sample_produces_cost
  have "apply_request q2 (produce_request (sample_item ''a'' ''w'' 1 9)) =
      (q2\<lparr>topics := binsert ''a'' (purge_retained t 9) (topics q2)\<rparr>, Produced 2)"
    by (simp add: sample_item_def produce_request_def DEDUP_CAPACITY_def del: apply_request.simps)
  with q1 q2_def t show ?thesis by blast
qed

end
