(* ===== verification/Queue_Drain.thy ===== *)
theory Queue_Drain
  imports Queue_Dedup
begin

text \<open>
  Draining a topic: the loop of the property test \<^verbatim>\<open>dedup_then_drain_is_exactly_once\<close> in \<^verbatim>\<open>queue.rs\<close>, a
  consumer that polls and acknowledges everything it is given until a poll comes back empty. From
  every reachable state the loop ends and delivers each message the group had left exactly once.
\<close>

section \<open>The loop\<close>

text \<open>The clock of each poll is an argument; \<open>None\<close> when the clocks run out before a poll comes back empty.\<close>

fun consume :: "string \<Rightarrow> string \<Rightarrow> u32 \<Rightarrow> u64 \<Rightarrow> u64 list \<Rightarrow> Queue \<Rightarrow> (Queue \<times> Delivered list) option" where
  "consume topic grp mx vis [] q = None"
| "consume topic grp mx vis (ts_ms # clocks) q = (case apply_request q (Poll topic grp mx vis ts_ms) of
     (q, Polled items) \<Rightarrow>
       if items = [] then Some (q, [])
       else map_option (apsnd ((@) items))
              (consume topic grp mx vis clocks (fst (apply_all q (map (\<lambda>d. Ack topic grp (d_lease_id d)) items))))
   | _ \<Rightarrow> None)"

section \<open>One group between two polls\<close>

text \<open>The group has acknowledged \<open>A\<close>, holds exactly the leases \<open>P\<close>, and was active at \<open>since\<close> or later.\<close>

definition holding :: "string \<Rightarrow> Offset set \<Rightarrow> (LeaseId \<times> Offset) list \<Rightarrow> u64 \<Rightarrow> TopicState \<Rightarrow> bool" where
  "holding grp A P since t \<longleftrightarrow> group_with grp (\<lambda>g. acked_set g = A \<and> since \<le> last_active_ms g \<and> dom (bget (leased_offsets g)) = snd ` set P \<and>
     (\<forall>(lid, offset) \<in> set P. \<exists>deadline. bget (in_flight g) lid = Some \<lparr>lease_offset = offset, deadline_ms = deadline\<rparr>)) t"

lemma holding_since: "holding grp A P since' t \<Longrightarrow> since \<le> since' \<Longrightarrow> holding grp A P since t"
  unfolding holding_def group_with_def by (elim exE conjE) (intro exI conjI, assumption+, rule order.trans, assumption+)

lemma lease_out_flight:
  assumes "lease_out deadline msgs chosen g next_lease = (g', next_lease', items)" and "unat next_lease + length chosen < 2 ^ 64"
  shows "(\<forall>d \<in> set items. bget (in_flight g') (d_lease_id d) = Some \<lparr>lease_offset = d_offset d, deadline_ms = deadline\<rparr>) \<and>
    (\<forall>lid < next_lease. bget (in_flight g') lid = bget (in_flight g) lid)"
  using assms
proof (induction chosen arbitrary: g next_lease items)
  case (Cons c chosen)
  obtain p offset where c: "c = (p, offset)" by (cases c)
  let ?g = "g\<lparr>in_flight := binsert next_lease \<lparr>lease_offset = offset, deadline_ms = deadline\<rparr> (in_flight g), leased_offsets := binsert offset deadline (leased_offsets g)\<rparr>"
  obtain items' where rest: "lease_out deadline msgs chosen ?g (saturating_add next_lease 1) = (g', next_lease', items')"
    and items: "items = delivered next_lease offset (the (bget msgs offset)) # items'"
    using Cons.prems(1) by (auto simp: c Let_def split: prod.splits)
  have step: "unat (saturating_add next_lease 1) = Suc (unat next_lease)"
    using Cons.prems(2) by (intro word_room_step(2) [of next_lease "length chosen"]) simp
  then have up: "next_lease < saturating_add next_lease 1" by (simp add: word_less_nat_alt)
  have "unat (saturating_add next_lease 1) + length chosen < 2 ^ 64" using Cons.prems(2) step by simp
  note ih = Cons.IH [OF rest this]
  have "bget (in_flight g') next_lease = Some \<lparr>lease_offset = offset, deadline_ms = deadline\<rparr>" using ih up by simp
  moreover have "bget (in_flight g') lid = bget (in_flight g) lid" if "lid < next_lease" for lid
    using ih less_trans [OF that up] that by auto
  ultimately show ?case using ih by (auto simp: items delivered_def)
qed simp

lemma poll_group_flight:
  assumes "poll_group t g mx vis ts_ms next_lid = (g', next_lid', items)" and "unat next_lid + unat mx < 2 ^ 64" and "d \<in> set items"
  shows "bget (in_flight g') (d_lease_id d) = Some \<lparr>lease_offset = d_offset d, deadline_ms = saturating_add ts_ms vis\<rparr>"
proof -
  note out = assms(1) [unfolded poll_group_eq]
  have "unat next_lid + length (poll_chosen t g mx ts_ms) < 2 ^ 64" using assms(2) poll_chosen_props(3) [of t g mx ts_ms] by simp
  from lease_out_flight [OF out this] assms(3) show ?thesis by blast
qed

lemma topic_safe_sweep: "topic_safe n next_lid t \<Longrightarrow> topic_safe n next_lid (sweep_and_reclaim t ts_ms)"
  by (simp add: topic_safe_def topic_wf_def topic_gapless_def topic_inv_sweep_and_reclaim topic_counters_sweep gapless_sweep keeps_unacked_sweep topic_caps_sweep)

text \<open>Without running leases a group may be delivered everything it has not acknowledged.\<close>

lemma deliverable_unacked:
  assumes "topic_safe n next_lid t" and "group_entry t grp (Some ts_ms) = Some g"
    and "\<forall>offset d. bget (leased_offsets g) offset = Some d \<longrightarrow> d \<le> ts_ms"
  shows "deliverable t g ts_ms = {..<next_offset t} - acked_set g"
proof -
  have stored: "bget (messages t) offset \<noteq> None" if "offset < next_offset t" "offset \<notin> acked_set g" for offset
    using group_entry_from [OF assms(2)]
  proof
    assume "bget (groups t) grp = Some g"
    then show ?thesis using assms(1) that by (auto simp: topic_safe_def keeps_unacked_def bcontains_def)
  next
    assume "bget (groups t) grp = None \<and> blen (groups t) < MAX_GROUPS_PER_TOPIC \<and>
      g = group_default\<lparr>ack_watermark := first_or_next t, last_active_ms := (case Some ts_ms of None \<Rightarrow> 0 | Some n \<Rightarrow> n)\<rparr>"
    then have "first_or_next t \<le> offset" using that(2) by (simp add: acked_set_def not_less)
    then have "offset \<in> set (bkeys (messages t))" using safe_message_keys [OF assms(1)] that(1) by simp
    then show ?thesis by (simp add: in_bkeys)
  qed
  have "offset < next_offset t" if "bget (messages t) offset \<noteq> None" for offset
    using topic_safe_inv [OF assms(1)] that by (auto simp: topic_inv_def)
  with stored assms(3) show ?thesis by (auto simp: deliverable_def)
qed

lemma poll_holding:
  assumes safe: "topic_safe n next_lid t" and room: "unat next_lid + unat mx < 2 ^ 64"
    and entry: "group_entry (sweep_and_reclaim t ts_ms) grp (Some ts_ms) = Some g"
    and idle: "\<forall>offset d. bget (leased_offsets g) offset = Some d \<longrightarrow> d \<le> ts_ms"
    and poll: "poll_topic t grp mx vis ts_ms next_lid = (t', next_lid', items)"
  shows "holding grp (acked_set g) (map (\<lambda>d. (d_lease_id d, d_offset d)) items) (max (last_active_ms g) ts_ms) t' \<and> next_offset t' = next_offset t \<and>
    d_offset ` set items \<subseteq> {..<next_offset t} - acked_set g \<and> distinct (map d_offset items) \<and> distinct (map d_lease_id items) \<and>
    length items = min (unat mx) (card ({..<next_offset t} - acked_set g))"
proof -
  let ?t1 = "sweep_and_reclaim t ts_ms"
  note safe1 = topic_safe_sweep [OF safe, of ts_ms]
  have ok: "lease_index_ok g" by (rule group_inv_index [OF group_entry_inv [OF topic_safe_inv [OF safe1] entry]])
  have del: "deliverable ?t1 g ts_ms = {..<next_offset t} - acked_set g"
    using deliverable_unacked [OF safe1 entry idle] by simp
  obtain g' where pg: "poll_group ?t1 g mx (min vis MAX_VISIBILITY_MS) ts_ms next_lid = (g', next_lid', items)" and t': "t' = put_group ?t1 grp g'"
  proof (cases rule: poll_topic_cases [of t ts_ms grp mx vis next_lid])
    case full
    then show thesis using entry by simp
  next
    case (polled g0 g' nl items')
    then have "g0 = g" "nl = next_lid'" "items' = items" "t' = put_group ?t1 grp g'" using entry poll by simp_all
    with polled(2) that show thesis by simp
  qed
  note d = poll_group_delivers [OF ok pg]
  have gone: "bget (leased_offsets (expire g ts_ms)) offset = None" for offset
    unfolding expire_leases(2) [OF ok] using idle by (simp add: not_less)
  have "dom (bget (leased_offsets g')) = d_offset ` set items" unfolding dom_def d(7) gone by simp
  then have "dom (bget (leased_offsets g')) = snd ` set (map (\<lambda>d. (d_lease_id d, d_offset d)) items)" by (simp add: image_image)
  moreover have "\<forall>(lid, offset) \<in> set (map (\<lambda>d. (d_lease_id d, d_offset d)) items). \<exists>deadline. bget (in_flight g') lid = Some \<lparr>lease_offset = offset, deadline_ms = deadline\<rparr>"
    using poll_group_flight [OF pg room] by auto
  moreover have "bget (groups t') grp = Some g'" by (simp add: t')
  ultimately have "holding grp (acked_set g) (map (\<lambda>d. (d_lease_id d, d_offset d)) items) (max (last_active_ms g) ts_ms) t'"
    unfolding holding_def group_with_def using d(6) poll_group_last_active [OF pg] by (intro exI [of _ g']) simp
  moreover have "distinct (map unat (map d_lease_id items))" using poll_topic_ids [OF room poll] by simp
  then have "distinct (map d_lease_id items)" unfolding distinct_map [of unat "map d_lease_id items"] by simp
  ultimately show ?thesis using d(2-4) del by (simp add: t')
qed

lemma ack_holding:
  assumes all: "topics_all topic_safe n q" and n: "n \<le> counter_limit" and t: "bget (topics q) topic = Some t"
    and h: "holding grp A ((lid, offset) # P) since t" and fresh: "offset \<notin> snd ` set P" "lid \<notin> fst ` set P"
  shows "\<exists>t'. bget (topics (fst (apply_request q (Ack topic grp lid)))) topic = Some t' \<and> holding grp (insert offset A) P since t' \<and>
    next_offset t' = next_offset t \<and> topics_all topic_safe n (fst (apply_request q (Ack topic grp lid)))"
proof -
  have st: "topic_safe n (next_lease_id q) t" using all t by (auto simp: topics_all_def)
  obtain g deadline where g: "bget (groups t) grp = Some g" "acked_set g = A" "since \<le> last_active_ms g"
      "dom (bget (leased_offsets g)) = insert offset (snd ` set P)" "bget (in_flight g) lid = Some \<lparr>lease_offset = offset, deadline_ms = deadline\<rparr>"
      "\<forall>(lid, offset) \<in> set P. \<exists>deadline. bget (in_flight g) lid = Some \<lparr>lease_offset = offset, deadline_ms = deadline\<rparr>"
    using h by (auto simp: holding_def group_with_def)
  note gi = safe_group_inv [OF st g(1)]
  let ?t = "reclaim (ack_topic t grp lid)"
  have "topic_caps (ack_topic t grp lid)" using st by (intro caps_ack) (simp add: topic_safe_def)
  then have groups: "bget (groups ?t) grp = Some (ack_group g lid)" using g(1) by (simp add: reclaim_noop_gc)
  have ag: "ack_group g lid = mark_acked (release_lease g lid) offset" using g(5) by (simp add: ack_group_def)
  have "leased_offsets (ack_group g lid) = bremove offset (leased_offsets g)"
    using release_lease_leased [OF group_inv_index [OF gi] g(5)] by (simp add: ag)
  then have "dom (bget (leased_offsets (ack_group g lid))) = snd ` set P" using g(4) fresh(1) by (auto simp: dom_def split: if_splits)
  moreover have "acked_set (ack_group g lid) = insert offset A" using ack_group_acked [OF gi, of lid] g(2,5) by simp
  moreover have "\<exists>deadline. bget (in_flight (ack_group g lid)) l = Some \<lparr>lease_offset = off, deadline_ms = deadline\<rparr>" if "(l, off) \<in> set P" for l off
    using g(6) that fresh(2) by (auto simp: ag rev_image_eqI)
  moreover have "last_active_ms (ack_group g lid) = last_active_ms g" by (simp add: ag)
  ultimately have "holding grp (insert offset A) P since ?t" using groups g(3) by (auto simp: holding_def group_with_def)
  moreover have "bget (topics (fst (apply_request q (Ack topic grp lid)))) topic = Some ?t"
    by (simp add: t Queue_State.ack_def reclaim_topic_def)
  moreover have "topics_all topic_safe n (fst (apply_request q (Ack topic grp lid)))" using safe.all_step [OF all, of "Ack topic grp lid"] n by simp
  ultimately show ?thesis by simp
qed

lemma acks_holding:
  assumes "topics_all topic_safe n q" and "n \<le> counter_limit" and "bget (topics q) topic = Some t" and "holding grp A P since t"
    and "distinct (map fst P)" and "distinct (map snd P)" and "q' = fst (apply_all q (map (Ack topic grp \<circ> fst) P))"
  shows "\<exists>t'. bget (topics q') topic = Some t' \<and> holding grp (A \<union> snd ` set P) [] since t' \<and> next_offset t' = next_offset t \<and> topics_all topic_safe n q'"
  using assms
proof (induction P arbitrary: q t A)
  case (Cons x P)
  obtain lid offset where x: "x = (lid, offset)" by (cases x)
  obtain t1 where t1: "bget (topics (fst (apply_request q (Ack topic grp lid)))) topic = Some t1" "holding grp (insert offset A) P since t1"
      "next_offset t1 = next_offset t" "topics_all topic_safe n (fst (apply_request q (Ack topic grp lid)))"
    using ack_holding [OF Cons.prems(1-3) Cons.prems(4) [unfolded x]] Cons.prems(5,6) by (auto simp: x)
  from Cons.IH [OF t1(4) Cons.prems(2) t1(1,2)] Cons.prems(5-7) t1(3) show ?case
    by (simp add: x case_prod_beta del: apply_request.simps)
qed simp

section \<open>The whole loop\<close>

lemma held_entry:
  assumes "topic_caps t" and "holding grp A [] since t" and "recent since ts_ms"
  shows "\<exists>g. group_entry (sweep_and_reclaim t ts_ms) grp (Some ts_ms) = Some g \<and> acked_set g = A \<and> bget (leased_offsets g) offset = None \<and> since \<le> last_active_ms g"
proof -
  obtain g where g: "bget (groups t) grp = Some g" "acked_set g = A" "since \<le> last_active_ms g" "dom (bget (leased_offsets g)) = {}"
    using assms(2) by (auto simp: holding_def group_with_def)
  let ?g = "if last_active_ms g = 0 then g\<lparr>last_active_ms := ts_ms\<rparr> else g"
  have "saturating_sub ts_ms (last_active_ms ?g) \<le> GROUP_IDLE_EXPIRE_MS"
    using recent_not_idle [OF assms(3) g(3)] by (cases "last_active_ms g = 0") (simp_all add: saturating_sub_def)
  then have "bget (groups (fst (sweep_idle_groups t ts_ms))) grp = Some ?g"
    using g(1) by (auto simp: sweep_idle_groups_def Let_def)
  moreover have "topic_caps (fst (sweep_idle_groups t ts_ms))"
    using assms(1) by (rule topic_caps_fewer) (auto dest: sweep_groups_from)
  ultimately have "bget (groups (sweep_and_reclaim t ts_ms)) grp = Some ?g"
    by (simp add: sweep_and_reclaim_def case_prod_beta reclaim_noop_gc)
  moreover have "since \<le> last_active_ms ?g" using g(3) by (auto simp: word_le_nat_alt)
  ultimately show ?thesis using g(2,4) by (auto simp: group_entry_def bcontains_def dom_def)
qed

lemma card_step:
  fixes U D :: "'a set"
  assumes "finite U" and "D \<subseteq> U" and "card D = min m (card U)" and "card U \<le> m * Suc k" 
  shows "card (U - D) \<le> m * k"
proof -
  have "card (U - D) = card U - min m (card U)" using assms(1-3) by (simp add: card_Diff_subset finite_subset)
  then show ?thesis using assms(4) by (auto simp: min_def)
qed

lemma consume_round:
  assumes all: "topics_all topic_safe n q" and cost: "n + max 1 (unat mx) \<le> counter_limit" and t: "bget (topics q) topic = Some t"
    and names: "check_consumer topic grp = Inr ()"
    and entry: "group_entry (sweep_and_reclaim t ts_ms) grp (Some ts_ms) = Some g"
    and idle: "\<forall>offset d. bget (leased_offsets g) offset = Some d \<longrightarrow> d \<le> ts_ms"
  shows "\<exists>q1 q2 items t2. apply_request q (Poll topic grp mx vis ts_ms) = (q1, Polled items) \<and>
    q2 = fst (apply_all q1 (map (\<lambda>d. Ack topic grp (d_lease_id d)) items)) \<and>
    topics_all topic_safe (n + max 1 (unat mx)) q2 \<and> bget (topics q2) topic = Some t2 \<and> next_offset t2 = next_offset t \<and>
    holding grp (acked_set g \<union> d_offset ` set items) [] (max (last_active_ms g) ts_ms) t2 \<and>
    d_offset ` set items \<subseteq> {..<next_offset t} - acked_set g \<and> distinct (map d_offset items) \<and>
    length items = min (unat mx) (card ({..<next_offset t} - acked_set g))"
proof -
  have st: "topic_safe n (next_lease_id q) t" and nl: "unat (next_lease_id q) \<le> n" using all t by (auto simp: topics_all_def)
  have room: "unat (next_lease_id q) + unat mx < 2 ^ 64" using nl cost by (simp add: counter_limit_eq)
  obtain q1 items where p: "apply_request q (Poll topic grp mx vis ts_ms) = (q1, Polled items)"
    using names by (simp add: apply_checked_def case_prod_beta)
  obtain t1 nl1 where pt: "poll_topic t grp mx vis ts_ms (next_lease_id q) = (t1, nl1, items)" and q1: "q1 = q\<lparr>topics := binsert topic t1 (topics q), next_lease_id := nl1\<rparr>"
    using poll_request [OF p t] by blast
  note h = poll_holding [OF st room entry idle pt]
  have all1: "topics_all topic_safe (n + max 1 (unat mx)) q1" using safe.all_step [OF all, of "Poll topic grp mx vis ts_ms"] cost p by simp
  have t1: "bget (topics q1) topic = Some t1" by (simp add: q1)
  let ?P = "map (\<lambda>d. (d_lease_id d, d_offset d)) items"
  have acks: "map (Ack topic grp \<circ> fst) ?P = map (\<lambda>d. Ack topic grp (d_lease_id d)) items" by simp
  have "distinct (map fst ?P)" "distinct (map snd ?P)" using h by (simp_all add: o_def)
  from acks_holding [OF all1 cost t1 h [THEN conjunct1] this refl]
  obtain t2 where "bget (topics (fst (apply_all q1 (map (Ack topic grp \<circ> fst) ?P)))) topic = Some t2"
      "holding grp (acked_set g \<union> snd ` set ?P) [] (max (last_active_ms g) ts_ms) t2" "next_offset t2 = next_offset t1"
      "topics_all topic_safe (n + max 1 (unat mx)) (fst (apply_all q1 (map (Ack topic grp \<circ> fst) ?P)))" by blast
  then show ?thesis using p h unfolding acks by (auto simp: image_image simp del: apply_request.simps)
qed

lemma consume_all:
  assumes "topics_all topic_safe n q" and "n + Suc (length clocks) * max 1 (unat mx) \<le> counter_limit" and "bget (topics q) topic = Some t"
    and "check_consumer topic grp = Inr ()" and "mx \<noteq> 0"
    and "group_entry (sweep_and_reclaim t ts_ms) grp (Some ts_ms) = Some g"
    and "\<forall>offset d. bget (leased_offsets g) offset = Some d \<longrightarrow> d \<le> ts_ms"
    and "since \<le> max (last_active_ms g) ts_ms" and "\<forall>ts \<in> set clocks. recent since ts"
    and "card ({..<next_offset t} - acked_set g) \<le> unat mx * length clocks"
  shows "\<exists>q' items. consume topic grp mx vis (ts_ms # clocks) q = Some (q', items) \<and> distinct (map d_offset items) \<and>
    d_offset ` set items = {..<next_offset t} - acked_set g"
  using assms
proof (induction clocks arbitrary: n q t ts_ms g)
  case Nil
  have "n + max 1 (unat mx) \<le> counter_limit" using Nil.prems(2) by simp
  from consume_round [OF Nil.prems(1) this Nil.prems(3,4,6,7), of vis] Nil.prems(10)
  show ?case by (elim exE conjE) (auto simp: Diff_eq_empty_iff [THEN iffD2] simp del: apply_request.simps Diff_eq_empty_iff)
next
  case (Cons ts clocks)
  let ?U = "{..<next_offset t} - acked_set g"
  have "n + max 1 (unat mx) \<le> counter_limit" using Cons.prems(2) by simp
  from consume_round [OF Cons.prems(1) this Cons.prems(3,4,6,7), of vis]
  obtain q1 q2 items t2 where r: "apply_request q (Poll topic grp mx vis ts_ms) = (q1, Polled items)"
      "q2 = fst (apply_all q1 (map (\<lambda>d. Ack topic grp (d_lease_id d)) items))"
      "topics_all topic_safe (n + max 1 (unat mx)) q2" "bget (topics q2) topic = Some t2" "next_offset t2 = next_offset t"
      "holding grp (acked_set g \<union> d_offset ` set items) [] (max (last_active_ms g) ts_ms) t2"
      "d_offset ` set items \<subseteq> ?U" "distinct (map d_offset items)" "length items = min (unat mx) (card ?U)"
    by blast
  show ?case
  proof (cases "items = []")
    case True
    then have "card ?U = 0" using r(9) Cons.prems(5) by (auto simp: min_def unat_eq_zero split: if_splits)
    then have "?U = {}" by simp
    with True r(1) show ?thesis by (simp del: apply_request.simps)
  next
    case False
    have h: "holding grp (acked_set g \<union> d_offset ` set items) [] since t2"
      using holding_since [OF r(6) Cons.prems(8)] .
    have "topic_caps t2" using r(3,4) by (auto simp: topics_all_def topic_safe_def)
    from held_entry [OF this h] Cons.prems(9)
    obtain g2 where g2: "group_entry (sweep_and_reclaim t2 ts) grp (Some ts) = Some g2" "acked_set g2 = acked_set g \<union> d_offset ` set items"
        "\<And>offset. bget (leased_offsets g2) offset = None" "since \<le> last_active_ms g2"
      by (metis (no_types, lifting) list.set_intros(1) option.inject)
    have rest: "{..<next_offset t2} - acked_set g2 = ?U - d_offset ` set items" using r(5) g2(2) by auto
    have "card (d_offset ` set items) = length items" using r(8) by (metis distinct_card length_map list.set_map)
    then have card2: "card ({..<next_offset t2} - acked_set g2) \<le> unat mx * length clocks"
      unfolding rest using r(7,9) Cons.prems(10) by (intro card_step [of ?U "d_offset ` set items" "unat mx"]) simp_all
    have cost2: "n + max 1 (unat mx) + Suc (length clocks) * max 1 (unat mx) \<le> counter_limit" using Cons.prems(2) by simp
    have since2: "since \<le> max (last_active_ms g2) ts" using g2(4) by (rule order.trans) simp
    from Cons.IH [OF r(3) cost2 r(4) Cons.prems(4,5) g2(1) _ since2 _ card2] g2(3) Cons.prems(9)
    obtain q' items' where ih: "consume topic grp mx vis (ts # clocks) q2 = Some (q', items')" "distinct (map d_offset items')"
        "d_offset ` set items' = ?U - d_offset ` set items"
      unfolding rest by auto
    then have "consume topic grp mx vis (ts_ms # ts # clocks) q = Some (q', items @ items')" using r(1,2) False by (simp del: apply_request.simps consume.simps(1) add: consume.simps(2) [of _ _ _ _ ts_ms])
    moreover have "distinct (map d_offset (items @ items'))" using r(8) ih(2,3) by auto
    moreover have "d_offset ` set (items @ items') = ?U" using r(7) ih(3) by auto
    ultimately show ?thesis by blast
  qed
qed

text \<open>(C11) Exactly-once draining: whatever requests came before, a consumer that polls a topic and acknowledges
  every delivery until a poll comes back empty ends, after at most one poll per batch of messages left
  and one more, and receives each message its group had not acknowledged exactly once. The group holds
  no live lease at the first poll and the polls follow within the idle time of a group.\<close>

theorem consumed_exactly_once:
  assumes "total_cost reqs + Suc (length clocks) * max 1 (unat mx) \<le> counter_limit" and "q = fst (apply_all queue_default reqs)"
    and "bget (topics q) topic = Some t" and "length topic \<le> MAX_NAME_BYTES" and "length grp \<le> MAX_NAME_BYTES" and "mx \<noteq> 0"
    and "group_entry (sweep_and_reclaim t ts_ms) grp (Some ts_ms) = Some g"
    and "\<forall>offset d. bget (leased_offsets g) offset = Some d \<longrightarrow> d \<le> ts_ms"
    and "\<forall>ts \<in> set clocks. recent ts_ms ts"
    and "card ({..<next_offset t} - acked_set g) \<le> unat mx * length clocks"
  shows "\<exists>q' items. consume topic grp mx vis (ts_ms # clocks) q = Some (q', items) \<and> distinct (map d_offset items) \<and>
    d_offset ` set items = {..<next_offset t} - acked_set g"
proof (rule consume_all [OF _ assms(1,3) _ assms(6-8) _ assms(9,10)])
  show "topics_all topic_safe (total_cost reqs) q" using safe.all_reachable assms(1,2) by simp
  show "check_consumer topic grp = Inr ()" using assms(4,5) by (simp add: check_consumer_ok)
qed simp

theorem consumed_exactly_once_witness:
  "\<exists>q' items. consume ''a'' ''g'' 1 100 [10, 20, 30] sample_q = Some (q', items) \<and> distinct (map d_offset items) \<and> d_offset ` set items = {0, 1}"
proof -
  have n: "next_offset sample_t = 2" by (simp add: sample_defs queue_eval)
  have U: "{..<2 :: u64} - acked_set group_default = {0, 1}"
    by (auto simp: acked_set_def group_default_def word_less_nat_alt less_2_cases_iff word_unat_eq_iff)
  have live: "leased_offsets (group_default\<lparr>last_active_ms := 10\<rparr>) = bempty" by (simp add: group_default_def)
  have "\<exists>q' items. consume ''a'' ''g'' 1 100 (10 # [20, 30]) sample_q = Some (q', items) \<and> distinct (map d_offset items) \<and>
    d_offset ` set items = {..<next_offset sample_t} - acked_set (group_default\<lparr>last_active_ms := 10\<rparr>)"
    by (rule consumed_exactly_once [OF _ sample_q_def sample_q_topic _ _ _ sample_q_entry])
      (use sample_produces_cost in \<open>simp_all add: n U live MAX_NAME_BYTES_def recent_def saturating_sub_def GROUP_IDLE_EXPIRE_MS_def\<close>)
  then show ?thesis by (simp add: n U)
qed

section \<open>The property test\<close>

text \<open>The whole of \<^verbatim>\<open>dedup_then_drain_is_exactly_once\<close>: each key is produced under its own producer id with
  the sequence number 0, so a repeated key is a duplicate; then the topic is drained in batches of eight
  and the deliveries are counted. The clock goes up by 2000 a poll and has to stay below ten million.\<close>

definition test_item :: "nat \<Rightarrow> u8 \<Rightarrow> ProduceItem" where
  "test_item i k = \<lparr>p_topic = ''t'', p_priority = 0, p_content_type = Raw, p_payload = [k],
     p_producer_id = ''p'' @ decimal (unat k), p_seq = 0, p_ts_ms = of_nat i\<rparr>"

definition test_produces :: "nat \<Rightarrow> u8 list \<Rightarrow> AppRequest list" where
  "test_produces n keys = map (\<lambda>(i, k). produce_request (test_item i k)) (List.enumerate n keys)"

definition test_clocks :: "u64 list" where
  "test_clocks = map (\<lambda>j. of_nat (1000 + 2000 * j)) [0..<5000]"

definition dedup_then_drain :: "u8 list \<Rightarrow> bool" where
  "dedup_then_drain keys =
     (case consume ''t'' ''g'' 8 1000 test_clocks (fst (apply_all queue_default (test_produces 0 keys))) of
        None \<Rightarrow> False
      | Some (_, items) \<Rightarrow> length items = card (set keys))"

text \<open>A topic that holds exactly one message for each of the keys \<open>K\<close>, and no group.\<close>

definition keyed :: "u8 set \<Rightarrow> TopicState \<Rightarrow> bool" where
  "keyed K t \<longleftrightarrow> next_offset t = of_nat (card K) \<and> dom (bget (dedup t)) = (\<lambda>k. (''p'' @ decimal (unat k), 0)) ` K \<and>
     length (dedup_order t) = card K \<and> blen (messages t) \<le> card K \<and> (K \<noteq> {} \<longrightarrow> bget (messages t) 0 \<noteq> None) \<and> groups t = bempty \<and> retain_max_messages t = 0 \<and> retain_max_age_ms t = 0"

lemma dom_binsert: "dom (bget (binsert k v m)) = insert k (dom (bget m))"
  by auto

lemma evict_none: "length order \<le> DEDUP_CAPACITY \<Longrightarrow> evict_dedup ded order = (ded, order)"
  by (cases order) auto

lemma purge_none:
  assumes "retain_max_messages t = 0" and "retain_max_age_ms t = 0" and "blen (messages t) \<le> 1000000"
  shows "purge_retained t now_ms = t"
  using assms by (simp add: purge_retained_def purge_set_def effective_retention_def DEFAULT_RETAIN_MAX_MESSAGES_def)

lemma card_keys: "card (K :: u8 set) \<le> 256"
proof -
  have "card K \<le> card (UNIV :: u8 set)" by (rule card_mono) simp_all
  then show ?thesis by (simp add: card_word)
qed

lemma producer_inj: "k < 6 \<Longrightarrow> k' < 6 \<Longrightarrow> decimal (unat k) = decimal (unat (k' :: u8)) \<longleftrightarrow> k = k'"
  by (auto simp: decimal.simps word_less_nat_alt char_of_eq_iff word_unat_eq_iff take_bit_eq_mod)

lemma keyed_produce:
  assumes "keyed K t" and "insert k K \<subseteq> {..<6}"
  shows "keyed (insert k K) (fst (produce_in_topic t (test_item i k)))"
proof -
  have key: "(''p'' @ decimal (unat k), 0) \<in> dom (bget (dedup t)) \<longleftrightarrow> k \<in> K"
    using assms by (auto simp: keyed_def producer_inj)
  have small: "blen (messages t) \<le> 256" "length (dedup_order t) \<le> 256"
    using assms(1) card_keys [of K] by (auto simp: keyed_def)
  show ?thesis
  proof (cases "k \<in> K")
    case True
    then obtain offset where "bget (dedup t) (''p'' @ decimal (unat k), 0) = Some offset" using key by auto
    then have "fst (produce_in_topic t (test_item i k)) = t"
      using assms(1) small by (simp add: produce_in_topic_def test_item_def purge_none keyed_def)
    with assms(1) True show ?thesis by (simp add: insert_absorb)
  next
    case False
    then have "bget (dedup t) (''p'' @ decimal (unat k), 0) = None" using key by (auto simp: dom_def)
    moreover have "finite K" by (rule finite)
    moreover have "saturating_add (of_nat (card K)) 1 = (of_nat (Suc (card K)) :: u64)"
      using card_keys [of K] by (simp add: word_unat_eq_iff unat_saturating_add unat_of_nat del: of_nat_Suc)
    ultimately show ?thesis
      using assms(1) small False
      by (cases "K = {}") (simp_all add: produce_in_topic_def test_item_def purge_none evict_none keyed_def DEDUP_CAPACITY_def blen_insert Let_def dom_binsert)
  qed
qed

lemma keyed_run:
  assumes "keyed K (topic_entry (topics q) ''t'')" and "K \<union> set keys \<subseteq> {..<6}" and "dom (bget (topics q)) \<subseteq> {''t''}" and "keys \<noteq> []"
  shows "\<exists>t. bget (topics (fst (apply_all q (test_produces n keys)))) ''t'' = Some t \<and> keyed (K \<union> set keys) t"
  using assms
proof (induction keys arbitrary: n q K)
  case (Cons k keys)
  let ?t = "fst (produce_in_topic (topic_entry (topics q) ''t'') (test_item n k))"
  let ?q = "q\<lparr>topics := binsert ''t'' ?t (topics q)\<rparr>"
  have "blen (topics q) \<le> 1" using card_mono [OF _ Cons.prems(3)] by (simp add: card_dom_bget)
  moreover have "k < 6" using Cons.prems(2) by simp
  ultimately have "check_produce q [test_item n k] = Inr ()"
    by (simp add: check_produce_def test_item_def check_name_def MAX_NAME_BYTES_def MAX_PRODUCER_ID_BYTES_def MAX_TOPICS_def decimal.simps word_less_nat_alt)
  then have q: "fst (apply_request q (produce_request (test_item n k))) = ?q"
    by (simp add: apply_produce_request apply_checked_def produce_one_def test_item_def case_prod_beta)
  have keyed: "keyed (insert k K) ?t" using Cons.prems(1,2) by (intro keyed_produce) auto
  show ?case
  proof (cases "keys = []")
    case True
    with keyed q show ?thesis by (simp add: test_produces_def case_prod_beta)
  next
    case False
    have "dom (bget (topics ?q)) \<subseteq> {''t''}" using Cons.prems(3) by (simp add: dom_binsert)
    moreover have "keyed (insert k K) (topic_entry (topics ?q) ''t'')" using keyed by (simp add: topic_entry_def)
    moreover have "insert k K \<union> set keys \<subseteq> {..<6}" using Cons.prems(2) by auto
    ultimately have "\<exists>t. bget (topics (fst (apply_all ?q (test_produces (Suc n) keys)))) ''t'' = Some t \<and> keyed (insert k K \<union> set keys) t"
      using Cons.IH False by blast
    then show ?thesis using q by (simp add: test_produces_def case_prod_beta)
  qed
qed simp

lemma test_clocks_recent: "\<exists>clocks. test_clocks = 1000 # clocks \<and> length clocks = 4999 \<and> (\<forall>ts \<in> set clocks. recent 1000 ts)"
proof -
  let ?at = "\<lambda>j. of_nat (1000 + 2000 * j) :: u64"
  have "test_clocks = ?at 0 # map ?at [Suc 0..<5000]"
    unfolding test_clocks_def by (subst upt_conv_Cons) simp_all
  moreover have "recent 1000 (?at j)" if "j < 5000" for j
    using that unfolding recent_def word_le_nat_alt unat_saturating_sub GROUP_IDLE_EXPIRE_MS_def by (simp add: unat_of_nat del: of_nat_add of_nat_mult)
  then have "\<forall>ts \<in> set (map ?at [Suc 0..<5000]). recent 1000 ts" unfolding set_map set_upt by auto
  moreover have "length (map ?at [Suc 0..<5000]) = 4999" unfolding length_map length_upt by simp
  ultimately show ?thesis by (intro exI [of _ "map ?at [Suc 0..<5000]"]) (simp del: upt_rec_numeral set_map set_upt list.map)
qed

lemma test_cost: "total_cost (test_produces n keys) = length keys"
  by (induction keys arbitrary: n) (simp_all add: test_produces_def produce_request_def)

lemma keyed_first:
  assumes "keyed K t"
  shows "first_or_next t = 0"
proof (cases "K = {}")
  case True
  then have "bis_empty (messages t)" "next_offset t = 0" using assms by (auto simp: keyed_def blen_0_iff [symmetric])
  then show ?thesis by (cases t rule: first_or_next_cases) (auto simp: bis_empty_iff)
next
  case False
  then have "first_or_next t \<le> 0" using assms by (intro first_or_next_bound) (simp add: keyed_def)
  then show ?thesis by simp
qed

lemma keyed_sweep:
  assumes "keyed K t"
  shows "\<exists>g. group_entry (sweep_and_reclaim t ts_ms) grp (Some ts_ms) = Some g \<and> acked_set g = {} \<and> leased_offsets g = bempty"
proof -
  have "groups t = bempty" using assms by (simp add: keyed_def)
  moreover have "first_or_next (t\<lparr>groups := bliteral []\<rparr>) = 0" using keyed_first [OF assms] by (simp add: first_or_next_def cong: option.case_cong)
  ultimately show ?thesis
    by (simp add: sweep_and_reclaim_def sweep_idle_groups_def group_entry_def gc_idle_groups_def reclaim_def btree_eval
        MAX_GROUPS_PER_TOPIC_def acked_set_def group_default_def lessThan_def)
qed

lemma card_lessThan_word: "card {..<w :: u64} = unat w"
proof -
  have "{..<w} = of_nat ` {..<unat w}"
  proof (intro equalityI subsetI)
    fix x assume "x \<in> {..<w}"
    moreover have "x = of_nat (unat x)" by (simp add: word_unat_eq_iff unat_of_nat)
    ultimately show "x \<in> of_nat ` {..<unat w}" by (metis imageI lessThan_iff word_less_nat_alt)
  qed (auto simp: word_less_nat_alt unat_of_nat intro: le_less_trans [OF mod_less_eq_dividend])
  moreover have "inj_on (of_nat :: nat \<Rightarrow> u64) {..<unat w}"
    by (rule inj_onI) (use unat_le_max [of w] in \<open>auto dest!: arg_cong [of _ _ unat] simp: unat_of_nat\<close>)
  ultimately show ?thesis by (simp add: card_image)
qed

text \<open>The test passes on every input it generates: between 1 and 39 keys from 0 to 5.\<close>

theorem dedup_then_drain_is_exactly_once:
  assumes "keys \<noteq> []" and "length keys < 40" and "set keys \<subseteq> {..<6}"
  shows "dedup_then_drain keys"
proof -
  let ?q = "fst (apply_all queue_default (test_produces 0 keys))"
  have "keyed {} (topic_entry (topics queue_default) ''t'')"
    by (simp add: keyed_def topic_entry_def queue_default_def topic_default_def dom_def)
  moreover have "dom (bget (topics queue_default)) \<subseteq> {''t''}" by (auto simp: queue_default_def)
  ultimately obtain t where t: "bget (topics ?q) ''t'' = Some t" and k: "keyed (set keys) t"
    using keyed_run [of "{}" queue_default keys 0] assms by auto
  obtain g where g: "group_entry (sweep_and_reclaim t 1000) ''g'' (Some 1000) = Some g" "acked_set g = {}" "leased_offsets g = bempty"
    using keyed_sweep [OF k] by blast
  have n: "unat (next_offset t) = card (set keys)" using k card_keys [of "set keys"] by (simp add: keyed_def unat_of_nat)
  then have left: "card ({..<next_offset t} - acked_set g) = card (set keys)" by (simp add: g(2) card_lessThan_word)
  obtain clocks where c: "test_clocks = 1000 # clocks" "length clocks = 4999" "\<forall>ts \<in> set clocks. recent 1000 ts"
    using test_clocks_recent by blast
  have all: "topics_all topic_safe (length keys) ?q"
    using safe.all_reachable [of "test_produces 0 keys"] assms(2) by (simp add: test_cost counter_limit_eq)
  have "\<exists>q' items. consume ''t'' ''g'' 8 1000 (1000 # clocks) ?q = Some (q', items) \<and> distinct (map d_offset items) \<and>
    d_offset ` set items = {..<next_offset t} - acked_set g"
    by (rule consume_all [OF all _ t _ _ g(1) _ _ c(3)])
      (use assms(2) card_keys [of "set keys"] in \<open>simp_all add: c(2) g(3) left counter_limit_eq check_consumer_ok MAX_NAME_BYTES_def\<close>)
  then obtain q' items where out: "consume ''t'' ''g'' 8 1000 test_clocks ?q = Some (q', items)" "distinct (map d_offset items)"
    "d_offset ` set items = {..<next_offset t} - acked_set g" unfolding c(1) by blast
  have "length items = card (d_offset ` set items)" using out(2) by (metis distinct_card length_map list.set_map)
  then show ?thesis using out left by (simp add: dedup_then_drain_def)
qed

end
