(* ===== verification/Storage_Model.thy ===== *)
theory Storage_Model
  imports BTree_Map
begin

text \<open>
  The \<^verbatim>\<open>Storage\<close> trait of \<^verbatim>\<open>crates/hermesmq-core/src/storage.rs\<close> and its two implementations in
  the sources: \<^verbatim>\<open>RedbStore\<close> (same file) and the in-memory \<^verbatim>\<open>MemStore\<close> of \<^verbatim>\<open>fuzz/src/lib.rs\<close>.

  The trait is the record \<open>Storage\<close> of its methods over a store of type \<open>'s\<close>; generic code takes
  the record, as \<^verbatim>\<open>S: Storage\<close> does. The redb crate is a parameter, the record \<open>redb\<close> of the
  calls \<^verbatim>\<open>RedbStore\<close> makes; \<open>redb_spec\<close> names what its documentation promises: a transaction
  starts from the last commit, sees its own writes, and publishes them when it commits; tables are
  ordered by key. Any call may fail; a write transaction that is dropped changes nothing.

  The locale \<open>storage_contract\<close> is what the log store and the state machine rely on. \<^verbatim>\<open>MemStore\<close>
  interprets it, and \<open>redb_contract\<close> derives it for \<^verbatim>\<open>RedbStore\<close> from \<open>redb_spec\<close>.
\<close>

section \<open>Results\<close>

datatype Error = Io string | StorageFailure string

type_synonym 'a store_result = "Error + 'a"

text \<open>The \<^verbatim>\<open>?\<close> operator and \<^verbatim>\<open>map_err\<close>.\<close>

definition and_then :: "'e + 'a \<Rightarrow> ('a \<Rightarrow> 'e + 'b) \<Rightarrow> 'e + 'b" where
  "and_then r f = (case r of Inl e \<Rightarrow> Inl e | Inr x \<Rightarrow> f x)"

definition map_err :: "('e \<Rightarrow> 'f) \<Rightarrow> 'e + 'a \<Rightarrow> 'f + 'a" where
  "map_err f r = (case r of Inl e \<Rightarrow> Inl (f e) | Inr x \<Rightarrow> Inr x)"

definition map_ok :: "('a \<Rightarrow> 'b) \<Rightarrow> 'e + 'a \<Rightarrow> 'e + 'b" where
  "map_ok f r = (case r of Inl e \<Rightarrow> Inl e | Inr x \<Rightarrow> Inr (f x))"

lemma and_then_simps [simp]: "and_then (Inl e) f = Inl e" "and_then (Inr x) f = f x"
  by (simp_all add: and_then_def)

lemma map_err_simps [simp]: "map_err f (Inl e) = Inl (f e)" "map_err f (Inr x) = Inr x"
  by (simp_all add: map_err_def)

lemma map_ok_simps [simp]: "map_ok g (Inl e) = Inl e" "map_ok g (Inr x) = Inr (g x)"
  by (simp_all add: map_ok_def)

lemma and_then_Inr: "and_then r f = Inr y \<longleftrightarrow> (\<exists>x. r = Inr x \<and> f x = Inr y)"
  by (simp add: and_then_def split: sum.splits)

lemma map_err_Inr [simp]: "map_err f r = Inr y \<longleftrightarrow> r = Inr y"
  by (simp add: map_err_def split: sum.splits)

lemma map_ok_Inr: "map_ok f r = Inr y \<longleftrightarrow> (\<exists>x. r = Inr x \<and> y = f x)"
  by (auto simp: map_ok_def split: sum.splits)

text \<open>A loop whose body ends early on an error.\<close>

fun try_fold :: "('a \<Rightarrow> 's \<Rightarrow> 'e + 's) \<Rightarrow> 'a list \<Rightarrow> 's \<Rightarrow> 'e + 's" where
  "try_fold f [] s = Inr s"
| "try_fold f (x # xs) s = and_then (f x s) (try_fold f xs)"

fun try_map :: "('a \<Rightarrow> 'e + 'b) \<Rightarrow> 'a list \<Rightarrow> 'e + 'b list" where
  "try_map f [] = Inr []"
| "try_map f (x # xs) = and_then (f x) (\<lambda>y. map_ok ((#) y) (try_map f xs))"

lemma try_map_Inr: "try_map f xs = Inr ys \<longleftrightarrow> list_all2 (\<lambda>x y. f x = Inr y) xs ys"
  by (induction xs arbitrary: ys) (auto simp: and_then_Inr map_ok_Inr list_all2_Cons1)

lemma try_map_ok: "(\<And>x. x \<in> set xs \<Longrightarrow> f x = Inr (g x)) \<Longrightarrow> try_map f xs = Inr (map g xs)"
  by (induction xs) auto

section \<open>The trait\<close>

type_synonym log_table = "(u64, bytes) btree"
type_synonym meta_table = "(string, bytes) btree"
type_synonym ('s, 'a) store_op = "'s \<Rightarrow> 's \<times> 'a store_result"

record 's Storage =
  append_log :: "(u64 \<times> bytes) list \<Rightarrow> ('s, unit) store_op"
  read_log :: "u64 \<Rightarrow> u64 \<Rightarrow> 's \<Rightarrow> (u64 \<times> bytes) list store_result"
  truncate_log_from :: "u64 \<Rightarrow> ('s, unit) store_op"
  purge_log_upto :: "u64 \<Rightarrow> ('s, unit) store_op"
  first_log_index :: "'s \<Rightarrow> u64 option store_result"
  last_log_index :: "'s \<Rightarrow> u64 option store_result"
  save_vote_bytes :: "bytes \<Rightarrow> ('s, unit) store_op"
  read_vote_bytes :: "'s \<Rightarrow> bytes option store_result"
  save_committed_bytes :: "bytes \<Rightarrow> ('s, unit) store_op"
  read_committed_bytes :: "'s \<Rightarrow> bytes option store_result"
  put :: "string \<Rightarrow> bytes \<Rightarrow> ('s, unit) store_op"
  get :: "string \<Rightarrow> 's \<Rightarrow> bytes option store_result"
  delete_key :: "string \<Rightarrow> ('s, unit) store_op"
  scan_prefix :: "string \<Rightarrow> 's \<Rightarrow> (string \<times> bytes) list store_result"

definition KEY_VOTE :: string where "KEY_VOTE = ''sys:vote''"
definition KEY_COMMITTED :: string where "KEY_COMMITTED = ''sys:committed''"

definition starts_with :: "'a list \<Rightarrow> 'a list \<Rightarrow> bool" where
  "starts_with s prefix \<longleftrightarrow> take (length prefix) s = prefix"

definition insert_all :: "('k::linorder \<times> 'v) list \<Rightarrow> ('k, 'v) btree \<Rightarrow> ('k, 'v) btree" where
  "insert_all kvs m = foldl (\<lambda>m (k, v). binsert k v m) m kvs"

lemma insert_all_Nil [simp]: "insert_all [] m = m"
  by (simp add: insert_all_def)

lemma insert_all_Cons [simp]: "insert_all ((k, v) # kvs) m = insert_all kvs (binsert k v m)"
  by (simp add: insert_all_def)

lemma insert_all_append: "insert_all (kvs @ kvs') m = insert_all kvs' (insert_all kvs m)"
  by (simp add: insert_all_def)

lemma bget_insert_all [btree_laws]: "bget (insert_all kvs m) k = (case map_of (rev kvs) k of None \<Rightarrow> bget m k | Some v \<Rightarrow> Some v)"
proof (induction kvs arbitrary: m)
  case (Cons kv kvs)
  obtain k' v' where "kv = (k', v')" by (cases kv)
  with Cons show ?case by (auto simp: map_add_def split: option.splits)
qed simp

definition remove_all :: "'k::linorder list \<Rightarrow> ('k, 'v) btree \<Rightarrow> ('k, 'v) btree" where
  "remove_all ks m = foldl (\<lambda>m k. bremove k m) m ks"

lemma bget_remove_all [simp]: "bget (remove_all ks m) k = (if k \<in> set ks then None else bget m k)"
  unfolding remove_all_def by (induction ks arbitrary: m) auto

lemma blast_key_None: "blast_key m = None \<longleftrightarrow> bis_empty m"
  by (simp add: blast_key_def bis_empty_def)

lemma blast_key_Some:
  "blast_key m = Some k \<longleftrightarrow> bget m k \<noteq> None \<and> (\<forall>k'. bget m k' \<noteq> None \<longrightarrow> k' \<le> k)"
proof -
  have keys: "bget m k' \<noteq> None \<longleftrightarrow> k' \<in> set (map fst (entries m))" for k'
    using in_bkeys [of k' m] by (simp add: bkeys_def)
  have last: "blast_key m = (if map fst (entries m) = [] then None else Some (last (map fst (entries m))))"
    by (simp add: blast_key_def last_map)
  have "sorted_wrt (<) (map fst (entries m))" by simp
  then show ?thesis
    unfolding last keys
    by (cases "map fst (entries m)" rule: rev_cases) (auto simp: sorted_wrt_append intro: antisym less_imp_le)
qed

section \<open>RedbStore\<close>

datatype table = LOG | META
datatype Durability = DurabilityNone | Eventual | Immediate

record ('db, 'w, 'r) redb =
  rd_begin_write :: "'db \<Rightarrow> string + 'w"
  rd_set_durability :: "Durability \<Rightarrow> 'w \<Rightarrow> 'w"
  rd_open_table :: "table \<Rightarrow> 'w \<Rightarrow> string + 'w"
  rd_log_insert :: "u64 \<Rightarrow> bytes \<Rightarrow> 'w \<Rightarrow> string + 'w"
  rd_log_remove :: "u64 \<Rightarrow> 'w \<Rightarrow> string + 'w"
  rd_meta_insert :: "string \<Rightarrow> bytes \<Rightarrow> 'w \<Rightarrow> string + 'w"
  rd_meta_remove :: "string \<Rightarrow> 'w \<Rightarrow> string + 'w"
  rd_commit :: "'w \<Rightarrow> string + 'db"
  rd_begin_read :: "'db \<Rightarrow> string + 'r"
  rd_read_table :: "table \<Rightarrow> 'r \<Rightarrow> string + 'r"
  rd_log_range :: "(u64 \<Rightarrow> bool) \<Rightarrow> 'r \<Rightarrow> string + (string + u64 \<times> bytes) list"
  rd_log_first :: "'r \<Rightarrow> string + u64 option"
  rd_log_last :: "'r \<Rightarrow> string + u64 option"
  rd_meta_get :: "string \<Rightarrow> 'r \<Rightarrow> string + bytes option"
  rd_meta_iter :: "'r \<Rightarrow> string + (string + string \<times> bytes) list"

record 'db RedbStore =
  rs_db :: 'db
  rs_durability :: Durability

definition st :: "string + 'a \<Rightarrow> 'a store_result" where
  "st r = map_err StorageFailure r"

lemma st_Inr [simp]: "st r = Inr x \<longleftrightarrow> r = Inr x"
  by (simp add: st_def)

text \<open>A write: open the transaction and one table, run the body, commit. An error anywhere drops the transaction.\<close>

definition begin_write :: "('db, 'w, 'r) redb \<Rightarrow> 'db RedbStore \<Rightarrow> 'w store_result" where
  "begin_write r s = map_ok (rd_set_durability r (rs_durability s)) (st (rd_begin_write r (rs_db s)))"

definition commit_store :: "('db, 'w, 'r) redb \<Rightarrow> 'w store_result \<Rightarrow> ('db RedbStore, unit) store_op" where
  "commit_store r w s = (case and_then w (\<lambda>w. st (rd_commit r w)) of
     Inl e \<Rightarrow> (s, Inl e)
   | Inr db \<Rightarrow> (s\<lparr>rs_db := db\<rparr>, Inr ()))"

definition init_tables :: "('db, 'w, 'r) redb \<Rightarrow> ('db RedbStore, unit) store_op" where
  "init_tables r s = commit_store r
     (and_then (st (rd_begin_write r (rs_db s))) (\<lambda>w.
      and_then (st (rd_open_table r LOG w)) (\<lambda>w. st (rd_open_table r META w)))) s"

definition open_store :: "('db, 'w, 'r) redb \<Rightarrow> string + 'db \<Rightarrow> 'db RedbStore store_result" where
  "open_store r created = and_then (st created) (\<lambda>db.
     let (s, res) = init_tables r \<lparr>rs_db = db, rs_durability = Immediate\<rparr> in map_ok (\<lambda>_. s) res)"

definition with_durability :: "Durability \<Rightarrow> 'db RedbStore \<Rightarrow> 'db RedbStore" where
  "with_durability d s = s\<lparr>rs_durability := d\<rparr>"

definition remove_log_keys :: "('db, 'w, 'r) redb \<Rightarrow> u64 list \<Rightarrow> ('db RedbStore, unit) store_op" where
  "remove_log_keys r ks s = commit_store r
     (and_then (begin_write r s) (\<lambda>w.
      and_then (st (rd_open_table r LOG w)) (try_fold (\<lambda>k w. st (rd_log_remove r k w)) ks))) s"

definition redb_append_log :: "('db, 'w, 'r) redb \<Rightarrow> (u64 \<times> bytes) list \<Rightarrow> ('db RedbStore, unit) store_op" where
  "redb_append_log r es s = commit_store r
     (and_then (begin_write r s) (\<lambda>w.
      and_then (st (rd_open_table r LOG w)) (try_fold (\<lambda>(index, bytes) w. st (rd_log_insert r index bytes w)) es))) s"

text \<open>A read: open the transaction and one table, then one query.\<close>

definition with_read :: "('db, 'w, 'r) redb \<Rightarrow> table \<Rightarrow> ('r \<Rightarrow> 'a store_result) \<Rightarrow> 'db RedbStore \<Rightarrow> 'a store_result" where
  "with_read r tbl body s =
     and_then (st (rd_begin_read r (rs_db s))) (\<lambda>rtx. and_then (st (rd_read_table r tbl rtx)) body)"

definition log_items :: "('db, 'w, 'r) redb \<Rightarrow> (u64 \<Rightarrow> bool) \<Rightarrow> 'db RedbStore \<Rightarrow> (u64 \<times> bytes) list store_result" where
  "log_items r P = with_read r LOG (\<lambda>rtx. and_then (st (rd_log_range r P rtx)) (try_map st))"

definition redb_read_log :: "('db, 'w, 'r) redb \<Rightarrow> u64 \<Rightarrow> u64 \<Rightarrow> 'db RedbStore \<Rightarrow> (u64 \<times> bytes) list store_result" where
  "redb_read_log r start stop = log_items r (\<lambda>k. start \<le> k \<and> k < stop)"

definition redb_truncate_log_from :: "('db, 'w, 'r) redb \<Rightarrow> u64 \<Rightarrow> ('db RedbStore, unit) store_op" where
  "redb_truncate_log_from r index s = (case log_items r (\<lambda>k. index \<le> k) s of
     Inl e \<Rightarrow> (s, Inl e)
   | Inr items \<Rightarrow> remove_log_keys r (map fst items) s)"

definition redb_purge_log_upto :: "('db, 'w, 'r) redb \<Rightarrow> u64 \<Rightarrow> ('db RedbStore, unit) store_op" where
  "redb_purge_log_upto r index s = (case log_items r (\<lambda>k. k \<le> index) s of
     Inl e \<Rightarrow> (s, Inl e)
   | Inr items \<Rightarrow> remove_log_keys r (map fst items) s)"

definition redb_first_log_index :: "('db, 'w, 'r) redb \<Rightarrow> 'db RedbStore \<Rightarrow> u64 option store_result" where
  "redb_first_log_index r = with_read r LOG (\<lambda>rtx. st (rd_log_first r rtx))"

definition redb_last_log_index :: "('db, 'w, 'r) redb \<Rightarrow> 'db RedbStore \<Rightarrow> u64 option store_result" where
  "redb_last_log_index r = with_read r LOG (\<lambda>rtx. st (rd_log_last r rtx))"

definition redb_put :: "('db, 'w, 'r) redb \<Rightarrow> string \<Rightarrow> bytes \<Rightarrow> ('db RedbStore, unit) store_op" where
  "redb_put r key value s = commit_store r
     (and_then (begin_write r s) (\<lambda>w.
      and_then (st (rd_open_table r META w)) (\<lambda>w. st (rd_meta_insert r key value w)))) s"

definition redb_get :: "('db, 'w, 'r) redb \<Rightarrow> string \<Rightarrow> 'db RedbStore \<Rightarrow> bytes option store_result" where
  "redb_get r key = with_read r META (\<lambda>rtx. st (rd_meta_get r key rtx))"

definition redb_delete :: "('db, 'w, 'r) redb \<Rightarrow> string \<Rightarrow> ('db RedbStore, unit) store_op" where
  "redb_delete r key s = commit_store r
     (and_then (begin_write r s) (\<lambda>w.
      and_then (st (rd_open_table r META w)) (\<lambda>w. st (rd_meta_remove r key w)))) s"

text \<open>The committed pointer is written with eventual durability, whatever the store is configured with.\<close>

definition redb_save_committed :: "('db, 'w, 'r) redb \<Rightarrow> bytes \<Rightarrow> ('db RedbStore, unit) store_op" where
  "redb_save_committed r committed s = commit_store r
     (and_then (map_ok (rd_set_durability r Eventual) (st (rd_begin_write r (rs_db s)))) (\<lambda>w.
      and_then (st (rd_open_table r META w)) (\<lambda>w. st (rd_meta_insert r KEY_COMMITTED committed w)))) s"

definition redb_scan_prefix :: "('db, 'w, 'r) redb \<Rightarrow> string \<Rightarrow> 'db RedbStore \<Rightarrow> (string \<times> bytes) list store_result" where
  "redb_scan_prefix r prefix = with_read r META (\<lambda>rtx.
     map_ok (filter (\<lambda>(k, _). starts_with k prefix)) (and_then (st (rd_meta_iter r rtx)) (try_map st)))"

definition redb_storage :: "('db, 'w, 'r) redb \<Rightarrow> 'db RedbStore Storage" where
  "redb_storage r = \<lparr>append_log = redb_append_log r, read_log = redb_read_log r,
     truncate_log_from = redb_truncate_log_from r, purge_log_upto = redb_purge_log_upto r,
     first_log_index = redb_first_log_index r, last_log_index = redb_last_log_index r,
     save_vote_bytes = redb_put r KEY_VOTE, read_vote_bytes = redb_get r KEY_VOTE,
     save_committed_bytes = redb_save_committed r, read_committed_bytes = redb_get r KEY_COMMITTED,
     put = redb_put r, get = redb_get r, delete_key = redb_delete r, scan_prefix = redb_scan_prefix r\<rparr>"

section \<open>MemStore\<close>

record MemStore =
  mem_log :: log_table
  mem_meta :: meta_table

definition mem_default :: MemStore where
  "mem_default = \<lparr>mem_log = bempty, mem_meta = bempty\<rparr>"

definition mem_append_log :: "(u64 \<times> bytes) list \<Rightarrow> (MemStore, unit) store_op" where
  "mem_append_log es s = (s\<lparr>mem_log := insert_all es (mem_log s)\<rparr>, Inr ())"

definition mem_read_log :: "u64 \<Rightarrow> u64 \<Rightarrow> MemStore \<Rightarrow> (u64 \<times> bytes) list store_result" where
  "mem_read_log start stop s = Inr (brange start stop (mem_log s))"

definition mem_truncate_log_from :: "u64 \<Rightarrow> (MemStore, unit) store_op" where
  "mem_truncate_log_from index s = (s\<lparr>mem_log := bretain (\<lambda>k _. k < index) (mem_log s)\<rparr>, Inr ())"

definition mem_purge_log_upto :: "u64 \<Rightarrow> (MemStore, unit) store_op" where
  "mem_purge_log_upto index s = (s\<lparr>mem_log := bretain (\<lambda>k _. k > index) (mem_log s)\<rparr>, Inr ())"

definition mem_first_log_index :: "MemStore \<Rightarrow> u64 option store_result" where
  "mem_first_log_index s = Inr (bfirst_key (mem_log s))"

definition mem_last_log_index :: "MemStore \<Rightarrow> u64 option store_result" where
  "mem_last_log_index s = Inr (blast_key (mem_log s))"

definition mem_put :: "string \<Rightarrow> bytes \<Rightarrow> (MemStore, unit) store_op" where
  "mem_put key value s = (s\<lparr>mem_meta := binsert key value (mem_meta s)\<rparr>, Inr ())"

definition mem_get :: "string \<Rightarrow> MemStore \<Rightarrow> bytes option store_result" where
  "mem_get key s = Inr (bget (mem_meta s) key)"

definition mem_delete :: "string \<Rightarrow> (MemStore, unit) store_op" where
  "mem_delete key s = (s\<lparr>mem_meta := bremove key (mem_meta s)\<rparr>, Inr ())"

definition mem_scan_prefix :: "string \<Rightarrow> MemStore \<Rightarrow> (string \<times> bytes) list store_result" where
  "mem_scan_prefix prefix s = Inr (filter (\<lambda>(k, _). starts_with k prefix) (entries (mem_meta s)))"

definition MEM_KEY_VOTE :: string where "MEM_KEY_VOTE = ''sys:vote''"
definition MEM_KEY_COMMITTED :: string where "MEM_KEY_COMMITTED = ''sys:committed''"

definition mem_storage :: "MemStore Storage" where
  "mem_storage = \<lparr>append_log = mem_append_log, read_log = mem_read_log,
     truncate_log_from = mem_truncate_log_from, purge_log_upto = mem_purge_log_upto,
     first_log_index = mem_first_log_index, last_log_index = mem_last_log_index,
     save_vote_bytes = mem_put MEM_KEY_VOTE, read_vote_bytes = mem_get MEM_KEY_VOTE,
     save_committed_bytes = mem_put MEM_KEY_COMMITTED, read_committed_bytes = mem_get MEM_KEY_COMMITTED,
     put = mem_put, get = mem_get, delete_key = mem_delete, scan_prefix = mem_scan_prefix\<rparr>"

lemmas mem_defs = mem_storage_def mem_append_log_def mem_read_log_def mem_truncate_log_from_def mem_purge_log_upto_def
  mem_first_log_index_def mem_last_log_index_def mem_put_def mem_get_def mem_delete_def mem_scan_prefix_def
  MEM_KEY_VOTE_def MEM_KEY_COMMITTED_def

section \<open>The contract\<close>

text \<open>
  The abstract store is two ordered maps. A write either has its effect on them or fails and has
  none; a read that succeeds answers from them. \<open>effect\<close> states the first for one write.
\<close>

definition effect :: "('s \<Rightarrow> log_table \<times> meta_table) \<Rightarrow> ('s, unit) store_op \<Rightarrow> (log_table \<times> meta_table \<Rightarrow> log_table \<times> meta_table) \<Rightarrow> bool" where
  "effect view op f \<longleftrightarrow> (\<forall>s s' res. op s = (s', res) \<longrightarrow> view s' = (case res of Inl _ \<Rightarrow> view s | Inr _ \<Rightarrow> f (view s)))"

definition answers :: "('s \<Rightarrow> log_table \<times> meta_table) \<Rightarrow> ('s \<Rightarrow> 'a store_result) \<Rightarrow> (log_table \<times> meta_table \<Rightarrow> 'a) \<Rightarrow> bool" where
  "answers view op f \<longleftrightarrow> (\<forall>s x. op s = Inr x \<longrightarrow> x = f (view s))"

locale storage_contract =
  fixes S :: "'s Storage" and view :: "'s \<Rightarrow> log_table \<times> meta_table"
  assumes append_log: "effect view (append_log S es) (apfst (insert_all es))"
    and truncate_log_from: "effect view (truncate_log_from S index) (apfst (bretain (\<lambda>k _. k < index)))"
    and purge_log_upto: "effect view (purge_log_upto S index) (apfst (bretain (\<lambda>k _. k > index)))"
    and save_vote: "effect view (save_vote_bytes S value) (apsnd (binsert KEY_VOTE value))"
    and save_committed: "effect view (save_committed_bytes S value) (apsnd (binsert KEY_COMMITTED value))"
    and put: "effect view (put S key value) (apsnd (binsert key value))"
    and delete: "effect view (delete_key S key) (apsnd (bremove key))"
    and read_log: "answers view (read_log S start stop) (brange start stop \<circ> fst)"
    and first_log_index: "answers view (first_log_index S) (bfirst_key \<circ> fst)"
    and last_log_index: "answers view (last_log_index S) (blast_key \<circ> fst)"
    and read_vote: "answers view (read_vote_bytes S) (\<lambda>v. bget (snd v) KEY_VOTE)"
    and read_committed: "answers view (read_committed_bytes S) (\<lambda>v. bget (snd v) KEY_COMMITTED)"
    and get: "answers view (get S key) (\<lambda>v. bget (snd v) key)"
    and scan_prefix: "answers view (scan_prefix S prefix) (\<lambda>v. filter (\<lambda>(k, _). starts_with k prefix) (entries (snd v)))"

definition mem_view :: "MemStore \<Rightarrow> log_table \<times> meta_table" where
  "mem_view s = (mem_log s, mem_meta s)"

interpretation mem_store: storage_contract mem_storage mem_view
  by unfold_locales (auto simp: effect_def answers_def mem_view_def mem_defs KEY_VOTE_def KEY_COMMITTED_def)

section \<open>RedbStore meets the contract\<close>

record ('db, 'w, 'r) redb_view =
  db_view :: "'db \<Rightarrow> log_table \<times> meta_table"
  wtx_view :: "'w \<Rightarrow> log_table \<times> meta_table"
  rtx_view :: "'r \<Rightarrow> log_table \<times> meta_table"

text \<open>One call on a write transaction that, when it succeeds, has the effect \<open>f\<close> on its view.\<close>

definition writes :: "('w \<Rightarrow> log_table \<times> meta_table) \<Rightarrow> ('w \<Rightarrow> string + 'w) \<Rightarrow> (log_table \<times> meta_table \<Rightarrow> log_table \<times> meta_table) \<Rightarrow> bool" where
  "writes view op f \<longleftrightarrow> (\<forall>w w'. op w = Inr w' \<longrightarrow> view w' = f (view w))"

text \<open>The items an iterator yields, up to failures of single items.\<close>

definition yields :: "(string + 'a) list \<Rightarrow> 'a list \<Rightarrow> bool" where
  "yields items xs \<longleftrightarrow> list_all2 (\<lambda>item x. \<forall>y. item = Inr y \<longrightarrow> y = x) items xs"

definition redb_spec :: "('db, 'w, 'r) redb \<Rightarrow> ('db, 'w, 'r) redb_view \<Rightarrow> bool" where
  "redb_spec r V \<longleftrightarrow>
     (\<forall>db w. rd_begin_write r db = Inr w \<longrightarrow> wtx_view V w = db_view V db) \<and>
     (\<forall>w db. rd_commit r w = Inr db \<longrightarrow> db_view V db = wtx_view V w) \<and>
     (\<forall>d w. wtx_view V (rd_set_durability r d w) = wtx_view V w) \<and>
     (\<forall>tbl. writes (wtx_view V) (rd_open_table r tbl) id) \<and>
     (\<forall>k v. writes (wtx_view V) (rd_log_insert r k v) (apfst (binsert k v))) \<and>
     (\<forall>k. writes (wtx_view V) (rd_log_remove r k) (apfst (bremove k))) \<and>
     (\<forall>k v. writes (wtx_view V) (rd_meta_insert r k v) (apsnd (binsert k v))) \<and>
     (\<forall>k. writes (wtx_view V) (rd_meta_remove r k) (apsnd (bremove k))) \<and>
     (\<forall>db rtx. rd_begin_read r db = Inr rtx \<longrightarrow> rtx_view V rtx = db_view V db) \<and>
     (\<forall>tbl. writes (rtx_view V) (rd_read_table r tbl) id) \<and>
     (\<forall>P rtx items. rd_log_range r P rtx = Inr items \<longrightarrow> yields items (filter (P \<circ> fst) (entries (fst (rtx_view V rtx))))) \<and>
     (\<forall>rtx k. rd_log_first r rtx = Inr k \<longrightarrow> k = bfirst_key (fst (rtx_view V rtx))) \<and>
     (\<forall>rtx k. rd_log_last r rtx = Inr k \<longrightarrow> k = blast_key (fst (rtx_view V rtx))) \<and>
     (\<forall>key rtx v. rd_meta_get r key rtx = Inr v \<longrightarrow> v = bget (snd (rtx_view V rtx)) key) \<and>
     (\<forall>rtx items. rd_meta_iter r rtx = Inr items \<longrightarrow> yields items (entries (snd (rtx_view V rtx))))"

lemma redb_specD:
  assumes "redb_spec r V"
  shows "rd_begin_write r db = Inr w \<Longrightarrow> wtx_view V w = db_view V db"
    and "rd_commit r w = Inr db \<Longrightarrow> db_view V db = wtx_view V w"
    and "wtx_view V (rd_set_durability r d w) = wtx_view V w"
    and "writes (wtx_view V) (rd_open_table r tbl) id"
    and "writes (wtx_view V) (rd_log_insert r k v) (apfst (binsert k v))"
    and "writes (wtx_view V) (rd_log_remove r k) (apfst (bremove k))"
    and "writes (wtx_view V) (rd_meta_insert r key v) (apsnd (binsert key v))"
    and "writes (wtx_view V) (rd_meta_remove r key) (apsnd (bremove key))"
    and "rd_begin_read r db = Inr rtx \<Longrightarrow> rtx_view V rtx = db_view V db"
    and "writes (rtx_view V) (rd_read_table r tbl) id"
    and "rd_log_range r P rtx = Inr items \<Longrightarrow> yields items (filter (P \<circ> fst) (entries (fst (rtx_view V rtx))))"
    and "rd_log_first r rtx = Inr fst_key \<Longrightarrow> fst_key = bfirst_key (fst (rtx_view V rtx))"
    and "rd_log_last r rtx = Inr lst \<Longrightarrow> lst = blast_key (fst (rtx_view V rtx))"
    and "rd_meta_get r key rtx = Inr found \<Longrightarrow> found = bget (snd (rtx_view V rtx)) key"
    and "rd_meta_iter r rtx = Inr metas \<Longrightarrow> yields metas (entries (snd (rtx_view V rtx)))"
  using assms unfolding redb_spec_def by simp_all

lemma try_map_yields: "yields items xs \<Longrightarrow> try_map st items = Inr ys \<Longrightarrow> ys = xs"
  unfolding yields_def try_map_Inr by (induction items xs arbitrary: ys rule: list_all2_induct) (auto simp: list_all2_Cons1)

lemma writes_fold:
  assumes "\<And>x. writes view (op x) (f x)" and "try_fold (\<lambda>x w. st (op x w)) xs w = Inr w'"
  shows "view w' = fold f xs (view w)"
  using assms(2)
proof (induction xs arbitrary: w)
  case (Cons x xs)
  then obtain w1 where "op x w = Inr w1" and rest: "try_fold (\<lambda>x w. st (op x w)) xs w1 = Inr w'"
    by (auto simp: and_then_Inr)
  with assms(1) have "view w1 = f x (view w)" by (auto simp: writes_def)
  with Cons.IH [OF rest] show ?case by simp
qed simp

text \<open>The effect of a whole write is the effect of its body.\<close>

lemma commit_store_effect:
  assumes spec: "redb_spec r V"
    and body: "\<And>s w. body s = Inr w \<Longrightarrow> wtx_view V w = f (db_view V (rs_db s))"
  shows "effect (db_view V \<circ> rs_db) (\<lambda>s. commit_store r (body s) s) f"
  unfolding effect_def commit_store_def
  by (auto simp: and_then_Inr body redb_specD(2) [OF spec] split: sum.splits)

lemma begin_write_view: "redb_spec r V \<Longrightarrow> begin_write r s = Inr w \<Longrightarrow> wtx_view V w = db_view V (rs_db s)"
  by (auto simp: begin_write_def map_ok_Inr redb_specD(1,3))

lemma with_read_answers:
  assumes spec: "redb_spec r V" and body: "\<And>rtx x. body rtx = Inr x \<Longrightarrow> x = f (rtx_view V rtx)"
  shows "answers (db_view V \<circ> rs_db) (with_read r tbl body) f"
proof -
  have "x = f (db_view V (rs_db s))" if run: "with_read r tbl body s = Inr x" for s x
  proof -
    obtain rtx rtx' where "rd_begin_read r (rs_db s) = Inr rtx" "rd_read_table r tbl rtx = Inr rtx'" and b: "body rtx' = Inr x"
      using run by (auto simp: with_read_def and_then_Inr)
    then have "rtx_view V rtx' = db_view V (rs_db s)"
      using redb_specD(9) [OF spec] redb_specD(10) [OF spec, of tbl] by (auto simp: writes_def)
    with body [OF b] show ?thesis by simp
  qed
  then show ?thesis by (simp add: answers_def)
qed

lemma log_items_answers:
  assumes "redb_spec r V"
  shows "answers (db_view V \<circ> rs_db) (log_items r P) (filter (P \<circ> fst) \<circ> entries \<circ> fst)"
  unfolding log_items_def
  by (rule with_read_answers [OF assms]) (auto simp: and_then_Inr dest: redb_specD(11) [OF assms] try_map_yields)

lemma fold_remove_keys:
  "fold (\<lambda>k. apfst (bremove k)) ks v = apfst (bretain (\<lambda>k _. k \<notin> set ks)) (v :: ('k::linorder, 'v) btree \<times> 'm)"
proof (induction ks arbitrary: v)
  case Nil
  then show ?case by (cases v) (simp add: bretain_all)
next
  case (Cons k ks)
  have "bretain (\<lambda>k' _. k' \<notin> set ks) (bremove k m) = bretain (\<lambda>k' _. k' \<notin> set (k # ks)) m" for m :: "('k, 'v) btree"
    by (rule btree_eqI_Some) auto
  then show ?case by (cases v) (simp add: Cons)
qed

lemma remove_log_keys_effect:
  assumes spec: "redb_spec r V"
  shows "effect (db_view V \<circ> rs_db) (remove_log_keys r ks) (apfst (bretain (\<lambda>k _. k \<notin> set ks)))"
proof -
  have "wtx_view V w' = apfst (bretain (\<lambda>k _. k \<notin> set ks)) (db_view V (rs_db s))"
    if run: "and_then (begin_write r s) (\<lambda>w. and_then (st (rd_open_table r LOG w)) (try_fold (\<lambda>k w. st (rd_log_remove r k w)) ks)) = Inr w'" for s w'
  proof -
    obtain w w1 where w: "begin_write r s = Inr w" "rd_open_table r LOG w = Inr w1"
        and f: "try_fold (\<lambda>k w. st (rd_log_remove r k w)) ks w1 = Inr w'"
      using run by (auto simp: and_then_Inr)
    have "wtx_view V w1 = db_view V (rs_db s)"
      using begin_write_view [OF spec w(1)] redb_specD(4) [OF spec] w(2) by (auto simp: writes_def)
    with writes_fold [OF redb_specD(6) [OF spec] f] show ?thesis by (simp add: fold_remove_keys)
  qed
  then show ?thesis unfolding remove_log_keys_def by (intro commit_store_effect [OF spec])
qed

text \<open>Collecting the keys of a range and removing them drops that range.\<close>

lemma remove_range_effect:
  assumes spec: "redb_spec r V"
  shows "effect (db_view V \<circ> rs_db)
    (\<lambda>s. case log_items r P s of Inl e \<Rightarrow> (s, Inl e) | Inr items \<Rightarrow> remove_log_keys r (map fst items) s)
    (apfst (bretain (\<lambda>k _. \<not> P k)))"
proof -
  have "k \<in> set (map fst (filter (P \<circ> fst) (entries m))) \<longleftrightarrow> P k \<and> bget m k \<noteq> None" for m :: log_table and k
    using in_bkeys [of k m] by (auto simp: bkeys_def)
  then have drop: "bretain (\<lambda>k _. k \<notin> set (map fst (filter (P \<circ> fst) (entries m)))) m = bretain (\<lambda>k _. \<not> P k) m" for m :: log_table
    by (intro btree_eqI_Some) auto
  show ?thesis unfolding effect_def
  proof (intro allI impI)
    fix s s' res
    assume run: "(case log_items r P s of Inl e \<Rightarrow> (s, Inl e) | Inr items \<Rightarrow> remove_log_keys r (map fst items) s) = (s', res)"
    show "(db_view V \<circ> rs_db) s' = (case res of Inl _ \<Rightarrow> (db_view V \<circ> rs_db) s
       | Inr _ \<Rightarrow> apfst (bretain (\<lambda>k _. \<not> P k)) ((db_view V \<circ> rs_db) s))"
    proof (cases "log_items r P s")
      case (Inr items)
      with log_items_answers [OF spec, of P] have "items = filter (P \<circ> fst) (entries (fst (db_view V (rs_db s))))"
        by (auto simp: answers_def)
      with remove_log_keys_effect [OF spec, of "map fst items"] run Inr drop [of "fst (db_view V (rs_db s))"] show ?thesis
        by (cases "db_view V (rs_db s)") (auto simp: effect_def split: sum.splits)
    qed (use run in auto)
  qed
qed

lemma fold_insert_entries: "fold (\<lambda>(k, v). apfst (binsert k v)) es V = apfst (insert_all es) V"
  by (induction es arbitrary: V) (auto simp: apfst_def map_prod_def split: prod.splits)

lemma redb_append_effect:
  assumes spec: "redb_spec r V"
  shows "effect (db_view V \<circ> rs_db) (redb_append_log r es) (apfst (insert_all es))"
proof -
  have op: "(\<lambda>(index, bytes) w. st (rd_log_insert r index bytes w)) = (\<lambda>e w. st (rd_log_insert r (fst e) (snd e) w))"
    by (simp add: fun_eq_iff case_prod_unfold)
  have "wtx_view V w' = apfst (insert_all es) (db_view V (rs_db s))"
    if run: "and_then (begin_write r s) (\<lambda>w. and_then (st (rd_open_table r LOG w))
          (try_fold (\<lambda>e w. st (rd_log_insert r (fst e) (snd e) w)) es)) = Inr w'" for s w'
  proof -
    obtain w w1 where w: "begin_write r s = Inr w" "rd_open_table r LOG w = Inr w1"
        and f: "try_fold (\<lambda>e w. st (rd_log_insert r (fst e) (snd e) w)) es w1 = Inr w'"
      using run by (auto simp: and_then_Inr)
    have "wtx_view V w1 = db_view V (rs_db s)"
      using begin_write_view [OF spec w(1)] redb_specD(4) [OF spec] w(2) by (auto simp: writes_def)
    with writes_fold [OF redb_specD(5) [OF spec] f] show ?thesis
      using fold_insert_entries [of es] by (simp add: case_prod_unfold)
  qed
  then show ?thesis unfolding redb_append_log_def op by (intro commit_store_effect [OF spec])
qed

lemma redb_meta_effects:
  assumes spec: "redb_spec r V"
  shows "effect (db_view V \<circ> rs_db) (redb_put r key value) (apsnd (binsert key value))"
    and "effect (db_view V \<circ> rs_db) (redb_delete r key) (apsnd (bremove key))"
    and "effect (db_view V \<circ> rs_db) (redb_save_committed r value) (apsnd (binsert KEY_COMMITTED value))"
  using begin_write_view [OF spec] redb_specD [OF spec]
  unfolding redb_put_def redb_delete_def redb_save_committed_def writes_def
  by (auto intro!: commit_store_effect [OF spec] simp: and_then_Inr map_ok_Inr)

lemma redb_contract:
  assumes spec: "redb_spec r V"
  shows "storage_contract (redb_storage r) (db_view V \<circ> rs_db)"
proof
  note log_reads = log_items_answers [OF spec]
  show "effect (db_view V \<circ> rs_db) (append_log (redb_storage r) es) (apfst (insert_all es))" for es
    by (simp add: redb_storage_def redb_append_effect [OF spec])
  show "effect (db_view V \<circ> rs_db) (truncate_log_from (redb_storage r) index) (apfst (bretain (\<lambda>k _. k < index)))" for index
    using remove_range_effect [OF spec, of "\<lambda>k. index \<le> k"]
    by (simp add: redb_storage_def redb_truncate_log_from_def [abs_def] not_le)
  show "effect (db_view V \<circ> rs_db) (purge_log_upto (redb_storage r) index) (apfst (bretain (\<lambda>k _. k > index)))" for index
    using remove_range_effect [OF spec, of "\<lambda>k. k \<le> index"]
    by (simp add: redb_storage_def redb_purge_log_upto_def [abs_def] not_le)
  show "answers (db_view V \<circ> rs_db) (read_log (redb_storage r) start stop) (brange start stop \<circ> fst)" for start stop
    using log_reads [of "\<lambda>k. start \<le> k \<and> k < stop"]
    by (simp add: redb_storage_def redb_read_log_def answers_def brange_def o_def case_prod_unfold)
  show "answers (db_view V \<circ> rs_db) (scan_prefix (redb_storage r) prefix)
      (\<lambda>v. filter (\<lambda>(k, _). starts_with k prefix) (entries (snd v)))" for prefix
    unfolding redb_storage_def redb_scan_prefix_def Storage.simps
    by (rule with_read_answers [OF spec]) (auto simp: and_then_Inr map_ok_Inr dest!: redb_specD(15) [OF spec] dest: try_map_yields)
qed (auto simp: redb_storage_def redb_meta_effects [OF spec] redb_get_def redb_first_log_index_def redb_last_log_index_def
       intro!: with_read_answers [OF spec] dest: redb_specD(12-14) [OF spec])

text \<open>(C19) \<^verbatim>\<open>RedbStore\<close> refines two ordered maps: given what redb documents of its transactions and tables,
  every write has its whole effect or none, also when any redb call in it fails, and every read that
  succeeds answers from the last committed state.\<close>

theorem redb_store_refines:
  assumes "redb_spec r V"
  shows "storage_contract (redb_storage r) (db_view V \<circ> rs_db)"
  by (rule redb_contract [OF assms])

type_synonym tables = "log_table \<times> meta_table"

definition plain_redb :: "(tables, tables, tables) redb" where
  "plain_redb = \<lparr>rd_begin_write = Inr, rd_set_durability = (\<lambda>_ w. w), rd_open_table = (\<lambda>_. Inr),
     rd_log_insert = (\<lambda>k v w. Inr (apfst (binsert k v) w)), rd_log_remove = (\<lambda>k w. Inr (apfst (bremove k) w)),
     rd_meta_insert = (\<lambda>k v w. Inr (apsnd (binsert k v) w)), rd_meta_remove = (\<lambda>k w. Inr (apsnd (bremove k) w)),
     rd_commit = Inr, rd_begin_read = Inr, rd_read_table = (\<lambda>_. Inr),
     rd_log_range = (\<lambda>P rtx. Inr (map Inr (filter (P \<circ> fst) (entries (fst rtx))))),
     rd_log_first = (\<lambda>rtx. Inr (bfirst_key (fst rtx))), rd_log_last = (\<lambda>rtx. Inr (blast_key (fst rtx))),
     rd_meta_get = (\<lambda>key rtx. Inr (bget (snd rtx) key)), rd_meta_iter = (\<lambda>rtx. Inr (map Inr (entries (snd rtx))))\<rparr>"

lemma plain_redb_ok: "redb_spec plain_redb \<lparr>db_view = id, wtx_view = id, rtx_view = id\<rparr>"
  by (auto simp: redb_spec_def plain_redb_def writes_def yields_def list_all2_map1 list.rel_refl)

theorem redb_store_refines_witness:
  "storage_contract (redb_storage plain_redb) (db_view \<lparr>db_view = id, wtx_view = id, rtx_view = id\<rparr> \<circ> rs_db)"
  by (rule redb_store_refines [OF plain_redb_ok])

end
