(* ===== verification/Framing.thy ===== *)
theory Framing
  imports Storage_Model
begin

text \<open>
  The length-prefixed frames of \<^verbatim>\<open>crates/hermesmq-core/src/frame.rs\<close>. A stream is the bytes that
  arrive on it until it ends; a read consumes a prefix, and \<^verbatim>\<open>read_exact\<close> on a stream that ends
  early is an error. \<open>late\<close> says whether the timer of \<^verbatim>\<open>read_frame_deadline\<close> fires before the body
  is complete.
\<close>

unbundle bit_operations_syntax

section \<open>Reading and writing\<close>

definition MAX_CLIENT_FRAME :: nat where "MAX_CLIENT_FRAME = 2 * 1024 * 1024"
definition MAX_PEER_FRAME :: nat where "MAX_PEER_FRAME = 64 * 1024 * 1024"
definition BODY_CHUNK :: nat where "BODY_CHUNK = 64 * 1024"

datatype io_error = UnexpectedEof | InvalidData string | TimedOut string | OtherIo string

type_synonym 'a read_result = "io_error + 'a \<times> bytes"

definition to_be_bytes :: "u32 \<Rightarrow> bytes" where
  "to_be_bytes w = [ucast (drop_bit 24 w), ucast (drop_bit 16 w), ucast (drop_bit 8 w), ucast w]"

definition from_be_bytes :: "bytes \<Rightarrow> u32" where
  "from_be_bytes bs = foldl (\<lambda>acc b. push_bit 8 acc OR ucast b) 0 bs"

definition write_frame :: "bytes \<Rightarrow> bytes" where
  "write_frame bs = to_be_bytes (of_nat (length bs)) @ bs"

definition read_exact :: "nat \<Rightarrow> bytes \<Rightarrow> bytes read_result" where
  "read_exact n s = (if length s < n then Inl UnexpectedEof else Inr (take n s, drop n s))"

definition read_len :: "nat \<Rightarrow> bytes \<Rightarrow> nat read_result" where
  "read_len max_frame s = and_then (read_exact 4 s) (\<lambda>(len, s).
     let n = unat (from_be_bytes len)
     in if n > max_frame then Inl (InvalidData ''frame exceeds maximum size'') else Inr (n, s))"

text \<open>The body loop; \<open>buf\<close> is the buffer, resized by at most one chunk before each read.\<close>

function read_body_loop :: "nat \<Rightarrow> bytes \<Rightarrow> bytes \<Rightarrow> bytes read_result" where
  "read_body_loop n buf s =
     (if length buf < n
      then (let want = min (n - length buf) BODY_CHUNK
            in case read_exact want s of
                 Inl e \<Rightarrow> Inl e
               | Inr (chunk, s) \<Rightarrow> read_body_loop n (buf @ chunk) s)
      else Inr (buf, s))"
  by auto
termination
  by (relation "measure (\<lambda>(n, buf, s). n - length buf)")
     (auto simp: read_exact_def BODY_CHUNK_def split: if_splits)

definition read_body :: "nat \<Rightarrow> bytes \<Rightarrow> bytes read_result" where
  "read_body n s = read_body_loop n [] s"

definition read_frame :: "nat \<Rightarrow> bytes \<Rightarrow> bytes read_result" where
  "read_frame max_frame s = and_then (read_len max_frame s) (\<lambda>(n, s). read_body n s)"

definition read_frame_deadline :: "nat \<Rightarrow> bool \<Rightarrow> bytes \<Rightarrow> bytes read_result" where
  "read_frame_deadline max_frame late s = and_then (read_len max_frame s) (\<lambda>(n, s).
     if late then Inl (TimedOut ''frame body did not arrive before the deadline'') else read_body n s)"

declare read_body_loop.simps [simp del]

section \<open>The loop reads the declared length\<close>

lemma from_to_be_bytes: "from_be_bytes (to_be_bytes w) = w"
  unfolding from_be_bytes_def to_be_bytes_def
proof -
  have above: "bit w n \<Longrightarrow> \<not> bit w (k + (n - k)) \<Longrightarrow> n < k" for n k by (metis le_add_diff_inverse not_less)
  show "foldl (\<lambda>acc b. push_bit 8 acc OR ucast b) 0
      [ucast (drop_bit 24 w), ucast (drop_bit 16 w), ucast (drop_bit 8 w), ucast w :: u8] = w"
    by (rule bit_word_eqI) (auto simp: bit_simps dest: above)
qed

lemma read_body_loop_eq:
  assumes "length buf \<le> n"
  shows "read_body_loop n buf s = (if length s < n - length buf then Inl UnexpectedEof
    else Inr (buf @ take (n - length buf) s, drop (n - length buf) s))"
  using assms
proof (induction n buf s rule: read_body_loop.induct)
  case (1 n buf s)
  show ?case
  proof (cases "length buf < n")
    case True
    define want where "want = min (n - length buf) BODY_CHUNK"
    show ?thesis
    proof (cases "length s < want")
      case True
      then have "length s < n - length buf" by (simp add: want_def)
      with True \<open>length buf < n\<close> show ?thesis
        by (simp add: read_body_loop.simps [of n buf s] read_exact_def want_def [symmetric])
    next
      case False
      then have chunk: "read_exact want s = Inr (take want s, drop want s)" by (simp add: read_exact_def)
      have len: "length (buf @ take want s) = length buf + want" using False by simp
      have le: "length buf + want \<le> n" using True by (simp add: want_def)
      define m where "m = n - (length buf + want)"
      have "read_body_loop n buf s = read_body_loop n (buf @ take want s) (drop want s)"
        using True chunk by (simp add: read_body_loop.simps [of n buf s] want_def [symmetric])
      also have "\<dots> = (if length (drop want s) < m then Inl UnexpectedEof
          else Inr ((buf @ take want s) @ take m (drop want s), drop m (drop want s)))"
        using "1.IH" [OF True want_def chunk refl] len le unfolding m_def len by simp
      also have "\<dots> = (if length s < want + m then Inl UnexpectedEof else Inr (buf @ take (want + m) s, drop (want + m) s))"
        using False by (auto simp: take_add less_diff_conv2 add.commute [of m want])
      also have "want + m = n - length buf" using le unfolding m_def by linarith
      finally show ?thesis .
    qed
  qed (use 1(2) in \<open>simp add: read_body_loop.simps [of n buf s]\<close>)
qed

lemma read_body_eq: "read_body n s = read_exact n s"
  by (simp add: read_body_def read_body_loop_eq read_exact_def)

lemma read_len_header: "read_len max_frame (to_be_bytes w @ s) = (if unat w > max_frame then Inl (InvalidData ''frame exceeds maximum size'') else Inr (unat w, s))"
proof -
  have "length (to_be_bytes w) = 4" by (simp add: to_be_bytes_def)
  then have "read_exact 4 (to_be_bytes w @ s) = Inr (to_be_bytes w, s)" by (simp add: read_exact_def)
  then show ?thesis by (simp add: read_len_def Let_def from_to_be_bytes)
qed

lemma read_len_frame:
  assumes "length bs \<le> max_frame" and "length bs < 2 ^ 32"
  shows "read_len max_frame (write_frame bs @ rest) = Inr (length bs, bs @ rest)"
proof -
  have "unat (of_nat (length bs) :: u32) = length bs" using assms(2) by (simp add: unsigned_of_nat take_bit_nat_eq_self)
  with assms(1) show ?thesis unfolding write_frame_def append_assoc read_len_header by simp
qed

section \<open>Properties\<close>

text \<open>Frames round-trip: a frame that respects the receiver's limit (and fits the 32-bit header) is read back
  whole by both readers, chunk by chunk, and what follows it stays on the stream.\<close>

lemma frame_roundtrip:
  assumes "length bs \<le> max_frame" and "length bs < 2 ^ 32"
  shows "read_frame max_frame (write_frame bs @ rest) = Inr (bs, rest) \<and>
    read_frame_deadline max_frame False (write_frame bs @ rest) = Inr (bs, rest)"
  using read_len_frame [OF assms] by (simp add: read_frame_def read_frame_deadline_def read_body_eq read_exact_def)

text \<open>A declared length is never trusted: whatever bytes arrive, a frame that is accepted is no longer than the
  limit and consists of bytes that did arrive after its header; a header above the limit is refused
  before any of the body is read.\<close>

theorem frame_bounded:
  "(\<forall>bs rest. read_frame max_frame s = Inr (bs, rest) \<longrightarrow> length bs \<le> max_frame \<and> s = take 4 s @ bs @ rest) \<and>
   (4 \<le> length s \<and> unat (from_be_bytes (take 4 s)) > max_frame \<longrightarrow>
      read_frame max_frame s = Inl (InvalidData ''frame exceeds maximum size''))"
proof (intro conjI allI impI)
  fix bs rest
  assume "read_frame max_frame s = Inr (bs, rest)"
  then have "4 \<le> length s" and n: "unat (from_be_bytes (take 4 s)) \<le> max_frame"
      and b: "read_exact (unat (from_be_bytes (take 4 s))) (drop 4 s) = Inr (bs, rest)"
    by (auto simp: read_frame_def read_len_def read_exact_def [of 4] read_body_eq Let_def split: if_splits)
  then show "length bs \<le> max_frame" "s = take 4 s @ bs @ rest"
    by (auto simp: read_exact_def split: if_splits) (metis add.commute append_take_drop_id drop_drop)
next
  assume "4 \<le> length s \<and> unat (from_be_bytes (take 4 s)) > max_frame"
  then show "read_frame max_frame s = Inl (InvalidData ''frame exceeds maximum size'')"
    by (simp add: read_frame_def read_len_def read_exact_def Let_def)
qed

theorem frame_bounded_witness:
  "read_frame 8 [0, 0, 1, 0, 7] = Inl (InvalidData ''frame exceeds maximum size'')"
  using frame_bounded [of 8 "[0, 0, 1, 0, 7]"] by (simp add: from_be_bytes_def)

end
