(* ===== verification/Secrets.thy ===== *)
theory Secrets
  imports Framing
begin

text \<open>
  The comparison of tokens in \<^verbatim>\<open>lib.rs\<close> and the frames a connection delivers: \<^verbatim>\<open>secret_eq\<close> folds over
  both secrets without an early exit, and is equality. Both ports are loops over the frames of a
  stream; \<open>read_frames\<close> is the list of the frames such a loop gets until a read fails.
\<close>

unbundle bit_operations_syntax

section \<open>Tokens\<close>

definition secret_eq :: "bytes \<Rightarrow> bytes \<Rightarrow> bool" where
  "secret_eq a b \<longleftrightarrow> length a = length b \<and> foldl (\<lambda>acc (x, y). acc OR (x XOR y)) 0 (zip a b) = 0"

definition as_bytes :: "string \<Rightarrow> bytes" where
  "as_bytes s = map of_char s"

lemma xor_eq_0_iff: "x XOR y = 0 \<longleftrightarrow> x = (y :: 'a::len word)"
proof
  assume "x XOR y = 0"
  then have "(x XOR y) XOR y = 0 XOR y" by simp
  then show "x = y" by (simp add: xor.assoc)
qed simp

lemma or_eq_0_iff: "x OR y = 0 \<longleftrightarrow> x = 0 \<and> (y :: 'a::len word) = 0"
proof
  assume zero: "x OR y = 0"
  then have "\<not> bit x n \<and> \<not> bit y n" for n by (metis bit_0_eq bit_or_iff bot_apply bot_bool_def)
  then show "x = 0 \<and> y = 0" by (simp add: bit_eq_iff)
qed simp

lemma foldl_differences:
  "foldl (\<lambda>acc (x, y). acc OR (x XOR y)) acc ps = 0 \<longleftrightarrow> acc = (0 :: 'a::len word) \<and> (\<forall>(x, y) \<in> set ps. x = y)"
  by (induction ps arbitrary: acc) (auto simp: or_eq_0_iff xor_eq_0_iff)

lemma secret_eq_iff: "secret_eq a b \<longleftrightarrow> a = b"
proof
  assume "secret_eq a b"
  then have "length a = length b" "\<forall>(x, y) \<in> set (zip a b). x = y" by (simp_all add: secret_eq_def foldl_differences)
  then show "a = b" by (induction a b rule: list_induct2) auto
qed (auto simp: secret_eq_def foldl_differences zip_same_conv_map)

lemma inj_of_char: "(of_char c :: u8) = of_char d \<longleftrightarrow> c = d"
proof
  assume eq: "(of_char c :: u8) = of_char d"
  have "(of_char x :: u8) = of_nat (of_char x)" for x by (simp only: of_nat_of_char)
  then have "unat (of_char x :: u8) = of_char x" for x by (simp add: unsigned_of_nat take_bit_nat_eq_self)
  with eq have "(of_char c :: nat) = of_char d" by metis
  then show "c = d" by simp
qed simp

lemma as_bytes_eq: "as_bytes s = as_bytes t \<longleftrightarrow> s = t"
  unfolding as_bytes_def by (rule inj_map_eq_map) (simp add: inj_def inj_of_char)

lemma token_eq: "secret_eq (as_bytes offered) (as_bytes expected) \<longleftrightarrow> offered = expected"
  by (simp add: secret_eq_iff as_bytes_eq)

section \<open>The frames of a stream\<close>

lemma read_frame_deadline_shorter:
  "read_frame_deadline mx late s = Inr (bs, rest) \<Longrightarrow> length rest < length s"
  by (auto simp: read_frame_deadline_def read_len_def and_then_Inr read_exact_def read_body_eq Let_def split: if_splits)

text \<open>\<open>late i\<close> tells whether the body of the \<open>i\<close>-th frame misses its deadline.\<close>

function read_frames :: "nat \<Rightarrow> (nat \<Rightarrow> bool) \<Rightarrow> nat \<Rightarrow> bytes \<Rightarrow> bytes list" where
  "read_frames mx late i s = (case read_frame_deadline mx (late i) s of
     Inl _ \<Rightarrow> []
   | Inr (bs, rest) \<Rightarrow> bs # read_frames mx late (Suc i) rest)"
  by auto
termination
  by (relation "measure (\<lambda>(mx, late, i, s). length s)") (auto dest: read_frame_deadline_shorter)

declare read_frames.simps [simp del]

lemma read_frames_stream:
  assumes "\<forall>bs \<in> set bodies. length bs \<le> mx \<and> length bs < 2 ^ 32" and "\<And>i. \<not> late i"
  shows "read_frames mx late i (concat (map write_frame bodies)) = bodies"
  using assms(1)
proof (induction bodies arbitrary: i)
  case Nil
  show ?case by (subst read_frames.simps) (simp add: read_frame_deadline_def read_len_def read_exact_def)
next
  case (Cons bs bodies)
  have "read_frame_deadline mx (late i) (write_frame bs @ s) = Inr (bs, s)" for s
    using Cons.prems assms(2) read_len_frame [of bs mx s] by (simp add: read_frame_deadline_def read_body_eq read_exact_def)
  with Cons show ?case by (subst read_frames.simps) simp
qed

end
