(* ===== verification/Queue_Tests.thy ===== *)
theory Queue_Tests
  imports Queue_Retained Secrets "HOL-Library.Monad_Syntax"
begin

text \<open>
  The unit tests of \<^verbatim>\<open>queue.rs\<close>, each a script in the option monad that is \<open>None\<close> once an assertion fails, and each
  evaluated by the simplifier. They tie the model to the behaviour the authors of the queue wrote down.
  Left out are nine larger tests, whose states are too big to be evaluated this way.
\<close>

section \<open>Helpers of the tests\<close>

definition assert :: "bool \<Rightarrow> unit option" where
  "assert b = (if b then Some () else None)"

definition applied :: "Queue \<Rightarrow> AppRequest \<Rightarrow> (Queue \<times> AppResponse) option" where
  "applied q req = Some (apply_request q req)"

definition rejected :: "AppResponse \<Rightarrow> bool" where
  "rejected resp = (case resp of Rejected _ \<Rightarrow> True | _ \<Rightarrow> False)"

definition produce :: "Queue \<Rightarrow> string \<Rightarrow> u8 \<Rightarrow> bytes \<Rightarrow> string \<Rightarrow> u64 \<Rightarrow> (Queue \<times> Offset) option" where
  "produce q topic priority body producer seqn = (case apply_request q (Produce topic priority Raw body producer seqn 0) of
     (q, Produced offset) \<Rightarrow> Some (q, offset)
   | _ \<Rightarrow> None)"

definition poll_offsets :: "Queue \<Rightarrow> string \<Rightarrow> string \<Rightarrow> u32 \<Rightarrow> u64 \<Rightarrow> u64 \<Rightarrow> (Queue \<times> (LeaseId \<times> Offset) list) option" where
  "poll_offsets q topic grp mx vis ts = (case apply_request q (Poll topic grp mx vis ts) of
     (q, Polled items) \<Rightarrow> Some (q, map (\<lambda>d. (d_lease_id d, d_offset d)) items)
   | _ \<Rightarrow> None)"

text \<open>The loops of the tests: one produce per body or per sequence number, one ack per lease.\<close>

fun produce_bodies :: "Queue \<Rightarrow> string \<Rightarrow> u8 \<Rightarrow> bytes list \<Rightarrow> Queue option" where
  "produce_bodies q topic priority [] = Some q"
| "produce_bodies q topic priority (body # bodies) = do {
     (q, _) \<leftarrow> produce q topic priority body [] 0; produce_bodies q topic priority bodies }"

fun produce_seqs :: "Queue \<Rightarrow> string \<Rightarrow> string \<Rightarrow> u64 list \<Rightarrow> Queue option" where
  "produce_seqs q topic producer [] = Some q"
| "produce_seqs q topic producer (seqn # seqs) = do {
     (q, _) \<leftarrow> produce q topic 0 (as_bytes ''a'') producer seqn; produce_seqs q topic producer seqs }"

fun ack_leased :: "Queue \<Rightarrow> string \<Rightarrow> string \<Rightarrow> (LeaseId \<times> Offset) list \<Rightarrow> Queue option" where
  "ack_leased q topic grp [] = Some q"
| "ack_leased q topic grp ((lease_id, _) # leased) = do {
     (q, _) \<leftarrow> applied q (Ack topic grp lease_id); ack_leased q topic grp leased }"

definition batch_item :: "string \<Rightarrow> string \<Rightarrow> u64 \<Rightarrow> ProduceItem" where
  "batch_item body producer seqn = \<lparr>p_topic = ''t'', p_priority = 0, p_content_type = Raw, p_payload = as_bytes body,
     p_producer_id = producer, p_seq = seqn, p_ts_ms = 0\<rparr>"

text \<open>Scripts are evaluated from the front: the rest of a script is left alone until its queue is known.\<close>

lemma bind_first_cong: "x = y \<Longrightarrow> Option.bind x f = Option.bind y f"
  by simp

lemma word_le_1: "(w :: u64) \<le> 1 \<longleftrightarrow> w = 0 \<or> w = 1"
  by (auto simp: word_le_nat_alt le_Suc_eq word_unat_eq_iff)

lemmas test_eval = word_le_1 queue_eval assert_def applied_def rejected_def produce_def poll_offsets_def metrics_def debug_footprint_def debug_topic_len_def

lemmas validate_eval = validate_ok queue_valid_def topic_valid_def group_valid_def lease_index_ok_def MAX_COUNTER_def dom_def

section \<open>Offsets and deduplication\<close>

definition produce_assigns_monotonic_offsets :: "unit option" where
  "produce_assigns_monotonic_offsets = do {
     (q, a) \<leftarrow> produce queue_default ''t'' 0 (as_bytes ''a'') ''p'' 1; assert (a = 0);
     (q, b) \<leftarrow> produce q ''t'' 0 (as_bytes ''b'') ''p'' 2; assert (b = 1);
     (q, c) \<leftarrow> produce q ''t'' 0 (as_bytes ''c'') ''p'' 3; assert (c = 2) }"

lemma produce_assigns_monotonic_offsets_passes: "produce_assigns_monotonic_offsets = Some ()"
  by (simp add: produce_assigns_monotonic_offsets_def test_eval cong: bind_first_cong)

definition produce_dedup_returns_same_offset :: "unit option" where
  "produce_dedup_returns_same_offset = do {
     (q, first) \<leftarrow> produce queue_default ''t'' 0 (as_bytes ''a'') ''p'' 1;
     (q, dup) \<leftarrow> produce q ''t'' 0 (as_bytes ''a-again'') ''p'' 1; assert (first = dup);
     (q, b) \<leftarrow> produce q ''t'' 0 (as_bytes ''b'') ''p'' 2; assert (b = 1) }"

lemma produce_dedup_returns_same_offset_passes: "produce_dedup_returns_same_offset = Some ()"
  by (simp add: produce_dedup_returns_same_offset_def test_eval cong: bind_first_cong)

definition empty_producer_id_disables_dedup :: "unit option" where
  "empty_producer_id_disables_dedup = do {
     (q, a) \<leftarrow> produce queue_default ''t'' 0 (as_bytes ''a'') [] 0; assert (a = 0);
     (q, b) \<leftarrow> produce q ''t'' 0 (as_bytes ''b'') [] 0; assert (b = 1);
     (q, c) \<leftarrow> produce q ''t'' 0 (as_bytes ''c'') [] 0; assert (c = 2) }"

lemma empty_producer_id_disables_dedup_passes: "empty_producer_id_disables_dedup = Some ()"
  by (simp add: empty_producer_id_disables_dedup_def test_eval cong: bind_first_cong)

definition produce_many_assigns_offsets_in_order_and_dedups :: "unit option" where
  "produce_many_assigns_offsets_in_order_and_dedups = do {
     (q, resp) \<leftarrow> applied queue_default (ProduceMany [batch_item ''a'' ''p'' 1, batch_item ''b'' ''p'' 2, batch_item ''a-retry'' ''p'' 1, batch_item ''c'' [] 0]);
     assert (resp = ProducedMany [0, 1, 0, 2]);
     (q, polled) \<leftarrow> poll_offsets q ''t'' ''g'' 10 1000 0; assert (length polled = 3) }"

lemma produce_many_assigns_offsets_in_order_and_dedups_passes: "produce_many_assigns_offsets_in_order_and_dedups = Some ()"
  by (simp add: produce_many_assigns_offsets_in_order_and_dedups_def test_eval batch_item_def cong: bind_first_cong)

section \<open>Limits\<close>

definition over_long_names_are_rejected :: "unit option" where
  "over_long_names_are_rejected = do {
     (q, resp) \<leftarrow> applied queue_default (CreateTopic (replicate (MAX_NAME_BYTES + 1) CHR ''x'')); assert (rejected resp);
     (q, resp) \<leftarrow> applied q (Poll ''t'' (replicate (MAX_NAME_BYTES + 1) CHR ''x'') 1 1000 0); assert (rejected resp);
     assert (qm_topics (metrics q) = 0) }"

lemma over_long_names_are_rejected_passes: "over_long_names_are_rejected = Some ()"
  by (simp add: over_long_names_are_rejected_def test_eval cong: bind_first_cong)

definition an_over_long_producer_id_is_rejected :: "unit option" where
  "an_over_long_producer_id_is_rejected = do {
     (q, resp) \<leftarrow> applied queue_default (Produce ''t'' 0 Raw (as_bytes ''x'') (replicate (MAX_PRODUCER_ID_BYTES + 1) CHR ''p'') 0 0); assert (rejected resp);
     assert (qm_messages (metrics q) = 0) }"

lemma an_over_long_producer_id_is_rejected_passes: "an_over_long_producer_id_is_rejected = Some ()"
  by (simp add: an_over_long_producer_id_is_rejected_def test_eval cong: bind_first_cong)

definition the_visibility_timeout_is_clamped :: "unit option" where
  "the_visibility_timeout_is_clamped = do {
     (q, _) \<leftarrow> produce queue_default ''t'' 0 (as_bytes ''a'') [] 0;
     (q, first) \<leftarrow> poll_offsets q ''t'' ''g'' 1 (- 1) 0; assert (length first = 1);
     (q, again) \<leftarrow> poll_offsets q ''t'' ''g'' 1 1000 (MAX_VISIBILITY_MS + 1); assert (length again = 1) }"

lemma the_visibility_timeout_is_clamped_passes: "the_visibility_timeout_is_clamped = Some ()"
  by (simp add: the_visibility_timeout_is_clamped_def test_eval cong: bind_first_cong)

section \<open>Delivery\<close>

definition poll_orders_by_priority_then_offset :: "unit option" where
  "poll_orders_by_priority_then_offset = do {
     (q, _) \<leftarrow> produce queue_default ''t'' 0 (as_bytes ''a'') ''p'' 1;
     (q, _) \<leftarrow> produce q ''t'' 5 (as_bytes ''b'') ''p'' 2;
     (q, _) \<leftarrow> produce q ''t'' 3 (as_bytes ''c'') ''p'' 3;
     (q, got) \<leftarrow> poll_offsets q ''t'' ''g'' 10 1000 0; assert (map snd got = [1, 2, 0]) }"

lemma poll_orders_by_priority_then_offset_passes: "poll_orders_by_priority_then_offset = Some ()"
  by (simp add: poll_orders_by_priority_then_offset_def test_eval cong: bind_first_cong)

definition leased_messages_are_not_redelivered_until_expiry :: "unit option" where
  "leased_messages_are_not_redelivered_until_expiry = do {
     (q, _) \<leftarrow> produce queue_default ''t'' 0 (as_bytes ''a'') ''p'' 1;
     (q, first) \<leftarrow> poll_offsets q ''t'' ''g'' 10 1000 0; assert (length first = 1);
     (q, again) \<leftarrow> poll_offsets q ''t'' ''g'' 10 1000 500; assert (again = []);
     (q, after_expiry) \<leftarrow> poll_offsets q ''t'' ''g'' 10 1000 2000; assert (length after_expiry = 1) }"

lemma leased_messages_are_not_redelivered_until_expiry_passes: "leased_messages_are_not_redelivered_until_expiry = Some ()"
  by (simp add: leased_messages_are_not_redelivered_until_expiry_def test_eval cong: bind_first_cong)

definition ack_makes_message_done :: "unit option" where
  "ack_makes_message_done = do {
     (q, _) \<leftarrow> produce queue_default ''t'' 0 (as_bytes ''a'') ''p'' 1;
     (q, leased) \<leftarrow> poll_offsets q ''t'' ''g'' 10 1000 0;
     (q, _) \<leftarrow> applied q (Ack ''t'' ''g'' (fst (hd leased)));
     (q, later) \<leftarrow> poll_offsets q ''t'' ''g'' 10 1000 5000; assert (later = []) }"

lemma ack_makes_message_done_passes: "ack_makes_message_done = Some ()"
  by (simp add: ack_makes_message_done_def test_eval cong: bind_first_cong)

definition nack_makes_message_immediately_redeliverable :: "unit option" where
  "nack_makes_message_immediately_redeliverable = do {
     (q, _) \<leftarrow> produce queue_default ''t'' 0 (as_bytes ''a'') ''p'' 1;
     (q, leased) \<leftarrow> poll_offsets q ''t'' ''g'' 10 1000 0;
     (q, _) \<leftarrow> applied q (Nack ''t'' ''g'' (fst (hd leased)));
     (q, later) \<leftarrow> poll_offsets q ''t'' ''g'' 10 1000 1; assert (length later = 1) }"

lemma nack_makes_message_immediately_redeliverable_passes: "nack_makes_message_immediately_redeliverable = Some ()"
  by (simp add: nack_makes_message_immediately_redeliverable_def test_eval cong: bind_first_cong)

definition separate_groups_each_see_every_message :: "unit option" where
  "separate_groups_each_see_every_message = do {
     (q, _) \<leftarrow> produce queue_default ''t'' 0 (as_bytes ''a'') ''p'' 1;
     (q, g1) \<leftarrow> poll_offsets q ''t'' ''g1'' 10 1000 0;
     (q, g2) \<leftarrow> poll_offsets q ''t'' ''g2'' 10 1000 0; assert (length g1 = 1 \<and> length g2 = 1) }"

lemma separate_groups_each_see_every_message_passes: "separate_groups_each_see_every_message = Some ()"
  by (simp add: separate_groups_each_see_every_message_def test_eval cong: bind_first_cong)

definition competing_consumers_in_group_split_work :: "unit option" where
  "competing_consumers_in_group_split_work = do {
     q \<leftarrow> produce_bodies queue_default ''t'' 0 [[0], [1], [2], [3]];
     (q, a) \<leftarrow> poll_offsets q ''t'' ''g'' 2 100000 0;
     (q, b) \<leftarrow> poll_offsets q ''t'' ''g'' 2 100000 1; assert (length a = 2 \<and> length b = 2);
     assert (sort (map snd (a @ b)) = [0, 1, 2, 3]) }"

lemma competing_consumers_in_group_split_work_passes: "competing_consumers_in_group_split_work = Some ()"
  by (simp add: competing_consumers_in_group_split_work_def test_eval cong: bind_first_cong)

definition single_consumer_sees_fifo :: "unit option" where
  "single_consumer_sees_fifo = do {
     q \<leftarrow> produce_bodies queue_default ''t'' 0 [[0], [1], [2], [3], [4]];
     (q, got) \<leftarrow> poll_offsets q ''t'' ''g'' 10 1000 0; assert (map snd got = [0, 1, 2, 3, 4]) }"

lemma single_consumer_sees_fifo_passes: "single_consumer_sees_fifo = Some ()"
  by (simp add: single_consumer_sees_fifo_def test_eval cong: bind_first_cong)

definition a_commit_past_the_end_cannot_hide_later_messages :: "unit option" where
  "a_commit_past_the_end_cannot_hide_later_messages = do {
     (q, _) \<leftarrow> produce queue_default ''t'' 0 (as_bytes ''a'') [] 0;
     (q, _) \<leftarrow> applied q (CommitOffsetAt ''t'' ''g'' (- 1) 1);
     (q, _) \<leftarrow> produce q ''t'' 0 (as_bytes ''b'') [] 0;
     (q, got) \<leftarrow> poll_offsets q ''t'' ''g'' 10 1000 2; assert (map snd got = [1]);
     assert (validate q = Inr ()) }"

lemma a_commit_past_the_end_cannot_hide_later_messages_passes: "a_commit_past_the_end_cannot_hide_later_messages = Some ()"
  by (simp add: a_commit_past_the_end_cannot_hide_later_messages_def test_eval validate_eval cong: bind_first_cong)

section \<open>Batched answers\<close>

definition ack_many_acks_all_leases :: "unit option" where
  "ack_many_acks_all_leases = do {
     q \<leftarrow> produce_bodies queue_default ''t'' 0 [[0], [1], [2]];
     (q, leased) \<leftarrow> poll_offsets q ''t'' ''g'' 10 1000 0;
     (q, _) \<leftarrow> applied q (AckMany ''t'' ''g'' (map fst leased));
     (q, later) \<leftarrow> poll_offsets q ''t'' ''g'' 10 1000 5000; assert (later = []) }"

lemma ack_many_acks_all_leases_passes: "ack_many_acks_all_leases = Some ()"
  by (simp add: ack_many_acks_all_leases_def test_eval cong: bind_first_cong)

definition nack_many_releases_all_leases :: "unit option" where
  "nack_many_releases_all_leases = do {
     q \<leftarrow> produce_bodies queue_default ''t'' 0 [[0], [1], [2]];
     (q, leased) \<leftarrow> poll_offsets q ''t'' ''g'' 10 1000 0;
     (q, _) \<leftarrow> applied q (NackMany ''t'' ''g'' (map fst leased));
     (q, again) \<leftarrow> poll_offsets q ''t'' ''g'' 10 1000 1; assert (length again = 3) }"

lemma nack_many_releases_all_leases_passes: "nack_many_releases_all_leases = Some ()"
  by (simp add: nack_many_releases_all_leases_def test_eval cong: bind_first_cong)

definition poll_auto_acks_in_one_apply :: "unit option" where
  "poll_auto_acks_in_one_apply = do {
     q \<leftarrow> produce_bodies queue_default ''t'' 0 [[0], [1], [2]];
     (q, resp) \<leftarrow> applied q (PollAuto ''t'' ''g'' 10 1000 0);
     assert (case resp of Polled items \<Rightarrow> length items = 3 | _ \<Rightarrow> False);
     assert (qm_in_flight (metrics q) = 0 \<and> qm_messages (metrics q) = 0);
     (q, again) \<leftarrow> poll_offsets q ''t'' ''g'' 10 1000 5000; assert (again = []) }"

lemma poll_auto_acks_in_one_apply_passes: "poll_auto_acks_in_one_apply = Some ()"
  by (simp add: poll_auto_acks_in_one_apply_def test_eval cong: bind_first_cong)

section \<open>Retention and reclamation\<close>

definition a_deduplicated_produce_still_enforces_retention :: "unit option" where
  "a_deduplicated_produce_still_enforces_retention = do {
     q \<leftarrow> produce_seqs queue_default ''t'' ''p'' [0, 1, 2];
     (q, _) \<leftarrow> applied q (SetRetention ''t'' 1 0);
     (q, _) \<leftarrow> produce q ''t'' 0 (as_bytes ''a'') ''p'' 0;
     assert (debug_topic_len q ''t'' = Some 1) }"

lemma a_deduplicated_produce_still_enforces_retention_passes: "a_deduplicated_produce_still_enforces_retention = Some ()"
  by (simp add: a_deduplicated_produce_still_enforces_retention_def test_eval cong: bind_first_cong)

definition retention_by_count_keeps_newest :: "unit option" where
  "retention_by_count_keeps_newest = do {
     (q, _) \<leftarrow> applied queue_default (SetRetention ''t'' 3 0);
     q \<leftarrow> produce_bodies q ''t'' 0 [[0], [1], [2], [3], [4]];
     (q, got) \<leftarrow> poll_offsets q ''t'' ''g'' 10 1000 0; assert (map snd got = [2, 3, 4]) }"

lemma retention_by_count_keeps_newest_passes: "retention_by_count_keeps_newest = Some ()"
  by (simp add: retention_by_count_keeps_newest_def test_eval cong: bind_first_cong)

definition retention_by_age_drops_old :: "unit option" where
  "retention_by_age_drops_old = do {
     (q, _) \<leftarrow> applied queue_default (SetRetention ''t'' 0 1000);
     (q, _) \<leftarrow> applied q (Produce ''t'' 0 Raw (as_bytes ''old'') [] 0 0);
     (q, _) \<leftarrow> applied q (Produce ''t'' 0 Raw (as_bytes ''new'') [] 0 5000);
     (q, got) \<leftarrow> poll_offsets q ''t'' ''g'' 10 1000 5000; assert (map snd got = [1]) }"

lemma retention_by_age_drops_old_passes: "retention_by_age_drops_old = Some ()"
  by (simp add: retention_by_age_drops_old_def test_eval cong: bind_first_cong)

definition retention_purge_advances_watermark_and_releases_ack_tracking :: "unit option" where
  "retention_purge_advances_watermark_and_releases_ack_tracking = do {
     (q, _) \<leftarrow> applied queue_default (SetRetention ''t'' 3 0);
     (q, _) \<leftarrow> produce q ''t'' 0 (as_bytes ''seed'') [] 0;
     (q, _) \<leftarrow> poll_offsets q ''t'' ''g'' 1 1 0;
     q \<leftarrow> produce_bodies q ''t'' 0 [[0], [1], [2], [3], [4]];
     (q, leased) \<leftarrow> poll_offsets q ''t'' ''g'' 10 1000 10; assert (map snd leased = [3, 4, 5]);
     q \<leftarrow> ack_leased q ''t'' ''g'' leased;
     t \<leftarrow> bget (topics q) ''t''; g \<leftarrow> bget (groups t) ''g'';
     assert (ack_watermark g = 6 \<and> acked_above g = {} \<and> bis_empty (in_flight g) \<and> bis_empty (leased_offsets g)) }"

lemma retention_purge_advances_watermark_and_releases_ack_tracking_passes: "retention_purge_advances_watermark_and_releases_ack_tracking = Some ()"
  by (simp add: retention_purge_advances_watermark_and_releases_ack_tracking_def test_eval cong: bind_first_cong)

definition unconsumed_topic_is_never_reclaimed :: "unit option" where
  "unconsumed_topic_is_never_reclaimed = do {
     q \<leftarrow> produce_bodies queue_default ''t'' 0 [[0], [1], [2], [3], [4]]; assert (qm_messages (metrics q) = 5) }"

lemma unconsumed_topic_is_never_reclaimed_passes: "unconsumed_topic_is_never_reclaimed = Some ()"
  by (simp add: unconsumed_topic_is_never_reclaimed_def test_eval cong: bind_first_cong)

definition default_retention_cap_applies_when_unset :: "unit option" where
  "default_retention_cap_applies_when_unset = do {
     assert (effective_retention topic_default = (DEFAULT_RETAIN_MAX_MESSAGES, 0)) }"

lemma default_retention_cap_applies_when_unset_passes: "default_retention_cap_applies_when_unset = Some ()"
  by (simp add: default_retention_cap_applies_when_unset_def test_eval cong: bind_first_cong)

definition explicit_retention_overrides_default_cap :: "unit option" where
  "explicit_retention_overrides_default_cap = do {
     assert (effective_retention (topic_default\<lparr>retain_max_messages := 50\<rparr>) = (50, 0));
     assert (effective_retention (topic_default\<lparr>retain_max_age_ms := 1000\<rparr>) = (0, 1000)) }"

lemma explicit_retention_overrides_default_cap_passes: "explicit_retention_overrides_default_cap = Some ()"
  by (simp add: explicit_retention_overrides_default_cap_def test_eval cong: bind_first_cong)

section \<open>Idle groups\<close>

definition a_commit_created_group_expires_when_idle :: "unit option" where
  "a_commit_created_group_expires_when_idle = do {
     (q, _) \<leftarrow> produce queue_default ''t'' 0 (as_bytes ''a'') [] 0;
     (q, _) \<leftarrow> applied q (CommitOffsetAt ''t'' ''ghost'' 0 1); assert (qf_groups (debug_footprint q) = 1);
     (q, _) \<leftarrow> applied q (CommitOffsetAt ''t'' ''live'' 0 (1 + GROUP_IDLE_EXPIRE_MS + 1)); assert (qf_groups (debug_footprint q) = 1) }"

lemma a_commit_created_group_expires_when_idle_passes: "a_commit_created_group_expires_when_idle = Some ()"
  by (simp add: a_commit_created_group_expires_when_idle_def test_eval cong: bind_first_cong)

definition small_group_counts_are_left_alone :: "unit option" where
  "small_group_counts_are_left_alone = do {
     assert (blen (groups (gc_idle_groups (topic_default\<lparr>next_offset := 10, groups := binsert ''g'' (group_default\<lparr>ack_watermark := 10\<rparr>) bempty\<rparr>))) = 1) }"

lemma small_group_counts_are_left_alone_passes: "small_group_counts_are_left_alone = Some ()"
  by (simp add: small_group_counts_are_left_alone_def test_eval cong: bind_first_cong)

definition idle_group_expires_and_unpins_memory :: "unit option" where
  "idle_group_expires_and_unpins_memory = do {
     q \<leftarrow> produce_bodies queue_default ''t'' 0 [[0], [1], [2]];
     (q, _) \<leftarrow> poll_offsets q ''t'' ''dead'' 1 10 1000;
     (q, leased) \<leftarrow> poll_offsets q ''t'' ''live'' 10 1000 GROUP_IDLE_EXPIRE_MS; assert (length leased = 3);
     q \<leftarrow> ack_leased q ''t'' ''live'' leased; assert (qm_messages (metrics q) = 3);
     (q, _) \<leftarrow> poll_offsets q ''t'' ''live'' 10 1000 (GROUP_IDLE_EXPIRE_MS + 1002);
     t \<leftarrow> bget (topics q) ''t''; assert (\<not> bcontains (groups t) ''dead'' \<and> bcontains (groups t) ''live'');
     assert (qm_messages (metrics q) = 0) }"

lemma idle_group_expires_and_unpins_memory_passes: "idle_group_expires_and_unpins_memory = Some ()"
  by (simp add: idle_group_expires_and_unpins_memory_def test_eval cong: bind_first_cong)

definition idle_group_with_unexpired_lease_survives :: "unit option" where
  "idle_group_with_unexpired_lease_survives = do {
     (q, _) \<leftarrow> produce queue_default ''t'' 0 (as_bytes ''a'') [] 0;
     (q, _) \<leftarrow> poll_offsets q ''t'' ''dead'' 1 MAX_VISIBILITY_MS 1000;
     t \<leftarrow> bget (topics q) ''t''; g \<leftarrow> bget (groups t) ''dead'';
     q \<leftarrow> Some (q\<lparr>topics := binsert ''t'' (t\<lparr>groups := binsert ''dead'' (g\<lparr>
       in_flight := bmap (\<lambda>_ lease. lease\<lparr>deadline_ms := GROUP_IDLE_EXPIRE_MS * 3\<rparr>) (in_flight g),
       leased_offsets := bmap (\<lambda>_ _. GROUP_IDLE_EXPIRE_MS * 3) (leased_offsets g)\<rparr>) (groups t)\<rparr>) (topics q)\<rparr>);
     (q, _) \<leftarrow> poll_offsets q ''t'' ''live'' 10 1000 (GROUP_IDLE_EXPIRE_MS + 2000);
     t \<leftarrow> bget (topics q) ''t''; assert (bcontains (groups t) ''dead'') }"

lemma idle_group_with_unexpired_lease_survives_passes: "idle_group_with_unexpired_lease_survives = Some ()"
  by (simp add: idle_group_with_unexpired_lease_survives_def test_eval cong: bind_first_cong)

definition a_parked_lease_cannot_outlive_the_group_expiry :: "unit option" where
  "a_parked_lease_cannot_outlive_the_group_expiry = do {
     (q, _) \<leftarrow> produce queue_default ''t'' 0 (as_bytes ''a'') [] 0;
     (q, _) \<leftarrow> poll_offsets q ''t'' ''parked'' 1 (- 1) 1000;
     (q, _) \<leftarrow> poll_offsets q ''t'' ''live'' 10 1000 (GROUP_IDLE_EXPIRE_MS + 2000);
     t \<leftarrow> bget (topics q) ''t''; assert (\<not> bcontains (groups t) ''parked'') }"

lemma a_parked_lease_cannot_outlive_the_group_expiry_passes: "a_parked_lease_cannot_outlive_the_group_expiry = Some ()"
  by (simp add: a_parked_lease_cannot_outlive_the_group_expiry_def test_eval cong: bind_first_cong)

definition a_group_without_an_activity_timestamp_is_stamped_then_expires :: "unit option" where
  "a_group_without_an_activity_timestamp_is_stamped_then_expires = do {
     (q, _) \<leftarrow> produce queue_default ''t'' 0 (as_bytes ''a'') [] 0;
     (q, _) \<leftarrow> applied q (CommitOffset ''t'' ''commit-only'' 0);
     (q, _) \<leftarrow> poll_offsets q ''t'' ''live'' 10 1000 (GROUP_IDLE_EXPIRE_MS * 10);
     t \<leftarrow> bget (topics q) ''t''; assert (bcontains (groups t) ''commit-only'');
     (q, _) \<leftarrow> poll_offsets q ''t'' ''live'' 10 1000 (GROUP_IDLE_EXPIRE_MS * 10 + GROUP_IDLE_EXPIRE_MS + 1);
     t \<leftarrow> bget (topics q) ''t''; assert (\<not> bcontains (groups t) ''commit-only'') }"

lemma a_group_without_an_activity_timestamp_is_stamped_then_expires_passes: "a_group_without_an_activity_timestamp_is_stamped_then_expires = Some ()"
  by (simp add: a_group_without_an_activity_timestamp_is_stamped_then_expires_def test_eval cong: bind_first_cong)

end
