(* ===== verification/Engine_Types.thy ===== *)
theory Engine_Types
  imports Wire_Types Storage_Model
begin

text \<open>
  What the engine modules of \<^verbatim>\<open>crates/hermesmq-core/src/engine\<close> share: the openraft data types they
  read and build (log ids, entries, memberships), the openraft error they return, and the codec
  helpers \<^verbatim>\<open>enc\<close>, \<^verbatim>\<open>dec\<close>, \<^verbatim>\<open>sread\<close> and \<^verbatim>\<open>swrite\<close> of \<^verbatim>\<open>engine/mod.rs\<close>.

  The postcard crate is a parameter: a \<open>codec\<close> for each type that is serialised. What the code
  relies on is \<open>codec_ok\<close>: decoding what was encoded gives the value back. A membership
  configuration is opaque to the code and is a type parameter.
\<close>

section \<open>Raft data\<close>

record LogId =
  leader_term :: u64
  leader_node :: NodeId
  log_index :: u64

datatype 'm EntryPayload = Blank | Normal AppRequest | Membership 'm

record 'm Entry =
  entry_log_id :: LogId
  payload :: "'m EntryPayload"

record 'm StoredMembership =
  membership_log_id :: "LogId option"
  membership :: 'm

record LogState =
  last_purged_log_id :: "LogId option"
  last_log_id :: "LogId option"

section \<open>Errors and codecs\<close>

datatype StorageError = ReadLogs string | WriteLogs string

type_synonym 'a raft_result = "StorageError + 'a"

text \<open>The \<^verbatim>\<open>Display\<close> of \<^verbatim>\<open>crate::Error\<close>.\<close>

fun display_error :: "Error \<Rightarrow> string" where
  "display_error (Io e) = ''io error: '' @ e"
| "display_error (StorageFailure e) = ''storage error: '' @ e"

definition sread :: "'a store_result \<Rightarrow> 'a raft_result" where
  "sread r = map_err (ReadLogs \<circ> display_error) r"

definition swrite :: "'a store_result \<Rightarrow> 'a raft_result" where
  "swrite r = map_err (WriteLogs \<circ> display_error) r"

record 'a codec =
  encode :: "'a \<Rightarrow> string + bytes"
  decode :: "bytes \<Rightarrow> string + 'a"

definition codec_ok :: "'a codec \<Rightarrow> bool" where
  "codec_ok c \<longleftrightarrow> (\<forall>x b. encode c x = Inr b \<longrightarrow> decode c b = Inr x)"

definition enc :: "'a codec \<Rightarrow> 'a \<Rightarrow> bytes raft_result" where
  "enc c x = map_err WriteLogs (encode c x)"

definition dec :: "'a codec \<Rightarrow> bytes \<Rightarrow> 'a raft_result" where
  "dec c b = map_err ReadLogs (decode c b)"

lemma sread_Inr [simp]: "sread r = Inr x \<longleftrightarrow> r = Inr x"
  by (simp add: sread_def)

lemma swrite_Inr [simp]: "swrite r = Inr x \<longleftrightarrow> r = Inr x"
  by (simp add: swrite_def)

lemma sread_simps [simp]: "sread (Inr x) = Inr x" "sread (Inl e) = Inl (ReadLogs (display_error e))"
  by (simp_all add: sread_def)

lemma swrite_simps [simp]: "swrite (Inr x) = Inr x" "swrite (Inl e) = Inl (WriteLogs (display_error e))"
  by (simp_all add: swrite_def)

lemma dec_enc: "codec_ok c \<Longrightarrow> enc c x = Inr b \<Longrightarrow> dec c b = Inr x"
  by (simp add: codec_ok_def enc_def dec_def)

section \<open>Operations in sequence\<close>

text \<open>A store operation whose error ends the caller (\<^verbatim>\<open>op.map_err(swrite)?; rest\<close>).\<close>

definition try_write :: "'s \<times> 'a store_result \<Rightarrow> ('s \<Rightarrow> 's \<times> 'b raft_result) \<Rightarrow> 's \<times> 'b raft_result" where
  "try_write r k = (case r of (s, Inl e) \<Rightarrow> (s, Inl (WriteLogs (display_error e))) | (s, Inr _) \<Rightarrow> k s)"

lemma try_write_simps [simp]:
  "try_write (s, Inl e) k = (s, Inl (WriteLogs (display_error e)))"
  "try_write (s, Inr x) k = k s"
  by (simp_all add: try_write_def)

text \<open>\<^verbatim>\<open>a.into_iter().chain(b).max()\<close>.\<close>

definition max_option :: "u64 option \<Rightarrow> u64 option \<Rightarrow> u64 option" where
  "max_option a b = (case a of None \<Rightarrow> b | Some x \<Rightarrow> (case b of None \<Rightarrow> a | Some y \<Rightarrow> Some (max x y)))"

lemma max_option_None [simp]: "max_option a b = None \<longleftrightarrow> a = None \<and> b = None"
  by (simp add: max_option_def split: option.splits)

lemma max_option_left [simp]: "max_option None b = b" "max_option a None = a" "max_option (Some x) (Some y) = Some (max x y)"
  by (simp_all add: max_option_def split: option.splits)

end
