(* ===== verification/State_Machine.thy ===== *)
theory State_Machine
  imports Engine_Types Queue_Retained
begin

text \<open>
  The replicated state machine of \<^verbatim>\<open>crates/hermesmq-core/src/engine/state_machine.rs\<close>: applying log
  entries, building, storing, installing and reading back snapshots. The store record holds what
  \<^verbatim>\<open>Inner\<close> holds (the data and the snapshot counter) and the database. Each operation runs under
  the mutex as the source does and returns the new store with its result.
\<close>

section \<open>Data\<close>

definition KEY_SNAPSHOT :: string where "KEY_SNAPSHOT = ''sm:snapshot''"
definition SNAPSHOT_FORMAT :: bytes where "SNAPSHOT_FORMAT = [0xFF, 1]"

record 'm StateMachineData =
  last_applied :: "LogId option"
  last_membership :: "'m StoredMembership"
  sm_queue :: Queue

record 'm StateMachineDataV0 =
  last_applied_v0 :: "LogId option"
  last_membership_v0 :: "'m StoredMembership"
  sm_queue_v0 :: QueueV0

definition data_default :: "'m \<Rightarrow> 'm StateMachineData" where
  "data_default m = \<lparr>last_applied = None, last_membership = \<lparr>membership_log_id = None, membership = m\<rparr>, sm_queue = queue_default\<rparr>"

record 'm SnapshotMeta =
  snap_last_log_id :: "LogId option"
  snap_last_membership :: "'m StoredMembership"
  snapshot_id :: string

record 'm StoredSnapshot =
  snap_meta :: "'m SnapshotMeta"
  snap_data :: bytes

record 'm sm_codecs =
  data_codec :: "'m StateMachineData codec"
  data_v0_codec :: "'m StateMachineDataV0 codec"
  stored_codec :: "'m StoredSnapshot codec"

definition sm_codecs_ok :: "'m sm_codecs \<Rightarrow> bool" where
  "sm_codecs_ok C \<longleftrightarrow> codec_ok (data_codec C) \<and> codec_ok (stored_codec C)"

section \<open>Encoding and decoding\<close>

definition encode_state :: "'m sm_codecs \<Rightarrow> 'm StateMachineData \<Rightarrow> bytes raft_result" where
  "encode_state C data = map_ok (\<lambda>b. SNAPSHOT_FORMAT @ b) (enc (data_codec C) data)"

definition strip_prefix :: "bytes \<Rightarrow> bytes \<Rightarrow> bytes option" where
  "strip_prefix prefix b = (if starts_with b prefix then Some (drop (length prefix) b) else None)"

definition data_from_v0 :: "'m StateMachineDataV0 \<Rightarrow> 'm StateMachineData" where
  "data_from_v0 v0 = \<lparr>last_applied = last_applied_v0 v0, last_membership = last_membership_v0 v0, sm_queue = queue_from_v0 (sm_queue_v0 v0)\<rparr>"

definition decode_state :: "'m sm_codecs \<Rightarrow> bytes \<Rightarrow> 'm StateMachineData raft_result" where
  "decode_state C b =
     and_then (case strip_prefix SNAPSHOT_FORMAT b of
         Some rest \<Rightarrow> dec (data_codec C) rest
       | None \<Rightarrow> map_ok data_from_v0 (dec (data_v0_codec C) b)) (\<lambda>data.
     let data = data\<lparr>sm_queue := normalize (sm_queue data)\<rparr>
     in case validate (sm_queue data) of
          Inl reason \<Rightarrow> Inl (ReadLogs (''snapshot state is not self-consistent: '' @ reason))
        | Inr _ \<Rightarrow> Inr data)"

definition fuzz_decode_state :: "'m sm_codecs \<Rightarrow> bytes \<Rightarrow> bool" where
  "fuzz_decode_state C b \<longleftrightarrow> (case decode_state C b of Inl _ \<Rightarrow> False | Inr _ \<Rightarrow> True)"

definition persist_snapshot :: "'s Storage \<Rightarrow> 'm sm_codecs \<Rightarrow> 'm StoredSnapshot \<Rightarrow> 's \<Rightarrow> 's \<times> unit raft_result" where
  "persist_snapshot S C snap db = (case enc (stored_codec C) snap of
     Inl e \<Rightarrow> (db, Inl e)
   | Inr b \<Rightarrow> (case put S KEY_SNAPSHOT b db of (db, result) \<Rightarrow> (db, swrite result)))"

definition fuzz_store_snapshot :: "'s Storage \<Rightarrow> 'm sm_codecs \<Rightarrow> 'm \<Rightarrow> LogId option \<Rightarrow> bytes \<Rightarrow> 's \<Rightarrow> 's \<times> unit raft_result" where
  "fuzz_store_snapshot S C m last_lid data = persist_snapshot S C
     \<lparr>snap_meta = \<lparr>snap_last_log_id = last_lid, snap_last_membership = \<lparr>membership_log_id = None, membership = m\<rparr>, snapshot_id = ''fuzz''\<rparr>,
      snap_data = data\<rparr>"

text \<open>Reading the stored record, as \<^verbatim>\<open>new\<close>, \<^verbatim>\<open>snapshot_last_index\<close> and \<^verbatim>\<open>get_current_snapshot\<close> do.\<close>

definition stored_snapshot :: "'s Storage \<Rightarrow> 'm sm_codecs \<Rightarrow> 's \<Rightarrow> 'm StoredSnapshot option raft_result" where
  "stored_snapshot S C db = and_then (sread (get S KEY_SNAPSHOT db)) (\<lambda>b. case b of
     Some b \<Rightarrow> map_ok Some (dec (stored_codec C) b)
   | None \<Rightarrow> Inr None)"

definition snapshot_last_index :: "'s Storage \<Rightarrow> 'm sm_codecs \<Rightarrow> 's \<Rightarrow> u64 option raft_result" where
  "snapshot_last_index S C db =
     map_ok (\<lambda>snap. case snap of Some snap \<Rightarrow> map_option log_index (snap_last_log_id (snap_meta snap)) | None \<Rightarrow> None) (stored_snapshot S C db)"

section \<open>The store\<close>

record ('s, 'm) StateMachineStore =
  sm_data :: "'m StateMachineData"
  snapshot_seq :: u64
  sm_db :: 's

definition state_machine_new :: "'s Storage \<Rightarrow> 'm sm_codecs \<Rightarrow> 'm \<Rightarrow> 's \<Rightarrow> ('s, 'm) StateMachineStore raft_result" where
  "state_machine_new S C m db =
     map_ok (\<lambda>data. \<lparr>sm_data = data, snapshot_seq = 0, sm_db = db\<rparr>)
       (and_then (stored_snapshot S C db) (\<lambda>snap. case snap of
          Some snap \<Rightarrow> decode_state C (snap_data snap)
        | None \<Rightarrow> Inr (data_default m)))"

definition sm_rate_config :: "string \<Rightarrow> ('s, 'm) StateMachineStore \<Rightarrow> (u64 \<times> u32) option" where
  "sm_rate_config topic sm = rate_config (sm_queue (sm_data sm)) topic"

definition sm_metrics :: "('s, 'm) StateMachineStore \<Rightarrow> QueueMetrics" where
  "sm_metrics sm = metrics (sm_queue (sm_data sm))"

definition sm_has_deliverable :: "string \<Rightarrow> string \<Rightarrow> u64 \<Rightarrow> ('s, 'm) StateMachineStore \<Rightarrow> bool" where
  "sm_has_deliverable topic grp now_ms sm = has_deliverable (sm_queue (sm_data sm)) topic grp now_ms"

definition sm_topic_admits :: "string \<Rightarrow> ('s, 'm) StateMachineStore \<Rightarrow> bool" where
  "sm_topic_admits topic sm = topic_admits (sm_queue (sm_data sm)) topic"

definition debug_apply :: "AppRequest \<Rightarrow> ('s, 'm) StateMachineStore \<Rightarrow> ('s, 'm) StateMachineStore \<times> AppResponse" where
  "debug_apply req sm = (case apply_request (sm_queue (sm_data sm)) req of
     (q, resp) \<Rightarrow> (sm\<lparr>sm_data := (sm_data sm)\<lparr>sm_queue := q\<rparr>\<rparr>, resp))"

definition applied_state :: "('s, 'm) StateMachineStore \<Rightarrow> LogId option \<times> 'm StoredMembership" where
  "applied_state sm = (last_applied (sm_data sm), last_membership (sm_data sm))"

definition apply_entry :: "'m Entry \<Rightarrow> 'm StateMachineData \<Rightarrow> 'm StateMachineData \<times> AppResponse" where
  "apply_entry e data =
     (let lid = entry_log_id e; data = data\<lparr>last_applied := Some lid\<rparr>
      in case payload e of
           Blank \<Rightarrow> (data, NoOp)
         | Membership m \<Rightarrow> (data\<lparr>last_membership := \<lparr>membership_log_id = Some lid, membership = m\<rparr>\<rparr>, NoOp)
         | Normal req \<Rightarrow> (case apply_request (sm_queue data) req of (q, resp) \<Rightarrow> (data\<lparr>sm_queue := q\<rparr>, resp)))"

fun apply_entries :: "'m Entry list \<Rightarrow> 'm StateMachineData \<Rightarrow> 'm StateMachineData \<times> AppResponse list" where
  "apply_entries [] data = (data, [])"
| "apply_entries (e # es) data =
     (let (data, resp) = apply_entry e data; (data, resps) = apply_entries es data in (data, resp # resps))"

definition sm_apply :: "'m Entry list \<Rightarrow> ('s, 'm) StateMachineStore \<Rightarrow> ('s, 'm) StateMachineStore \<times> AppResponse list" where
  "sm_apply es sm = (case apply_entries es (sm_data sm) of (data, resps) \<Rightarrow> (sm\<lparr>sm_data := data\<rparr>, resps))"

definition install_snapshot :: "'s Storage \<Rightarrow> 'm sm_codecs \<Rightarrow> 'm SnapshotMeta \<Rightarrow> bytes \<Rightarrow> ('s, 'm) StateMachineStore \<Rightarrow>
    ('s, 'm) StateMachineStore \<times> unit raft_result" where
  "install_snapshot S C meta b sm = (case decode_state C b of
     Inl e \<Rightarrow> (sm, Inl e)
   | Inr data \<Rightarrow> (case persist_snapshot S C \<lparr>snap_meta = meta, snap_data = b\<rparr> (sm_db sm) of
       (db, Inl e) \<Rightarrow> (sm\<lparr>sm_db := db\<rparr>, Inl e)
     | (db, Inr _) \<Rightarrow> (sm\<lparr>sm_db := db, sm_data := data\<rparr>, Inr ())))"

definition get_current_snapshot :: "'s Storage \<Rightarrow> 'm sm_codecs \<Rightarrow> ('s, 'm) StateMachineStore \<Rightarrow> 'm StoredSnapshot option raft_result" where
  "get_current_snapshot S C sm = stored_snapshot S C (sm_db sm)"

definition snapshot_name :: "LogId option \<Rightarrow> u64 \<Rightarrow> string" where
  "snapshot_name lid seq = (case lid of
     Some lid \<Rightarrow> decimal_u64 (log_index lid) @ ''-'' @ decimal_u64 seq
   | None \<Rightarrow> ''none-'' @ decimal_u64 seq)"

definition build_snapshot :: "'s Storage \<Rightarrow> 'm sm_codecs \<Rightarrow> ('s, 'm) StateMachineStore \<Rightarrow>
    ('s, 'm) StateMachineStore \<times> 'm StoredSnapshot raft_result" where
  "build_snapshot S C sm =
     (let sm = sm\<lparr>snapshot_seq := snapshot_seq sm + 1\<rparr>;
          data = sm_data sm;
          meta = \<lparr>snap_last_log_id = last_applied data, snap_last_membership = last_membership data,
                  snapshot_id = snapshot_name (last_applied data) (snapshot_seq sm)\<rparr>
      in case encode_state C data of
           Inl e \<Rightarrow> (sm, Inl e)
         | Inr b \<Rightarrow> (let snap = \<lparr>snap_meta = meta, snap_data = b\<rparr>
             in case persist_snapshot S C snap (sm_db sm) of
                  (db, Inl e) \<Rightarrow> (sm\<lparr>sm_db := db\<rparr>, Inl e)
                | (db, Inr _) \<Rightarrow> (sm\<lparr>sm_db := db\<rparr>, Inr snap)))"

section \<open>Replay\<close>

fun requests :: "'m Entry list \<Rightarrow> AppRequest list" where
  "requests [] = []"
| "requests (e # es) = (case payload e of Normal req \<Rightarrow> req # requests es | _ \<Rightarrow> requests es)"

lemma requests_append [simp]: "requests (es @ es') = requests es @ requests es'"
  by (induction es) (auto split: EntryPayload.splits)

lemma apply_entries_append:
  "apply_entries (es @ es') data =
     (let (data, resps) = apply_entries es data; (data, resps') = apply_entries es' data in (data, resps @ resps'))"
  by (induction es arbitrary: data) (auto simp: Let_def split: prod.splits)

lemma apply_entries_queue: "sm_queue (fst (apply_entries es data)) = fst (apply_all (sm_queue data) (requests es))"
proof (induction es arbitrary: data)
  case (Cons e es)
  show ?case
    by (cases "payload e") (simp_all add: apply_entry_def Cons case_prod_beta Let_def)
qed simp

lemma apply_entry_last: "last_applied (fst (apply_entry e data)) = Some (entry_log_id e)"
  by (auto simp: apply_entry_def Let_def split: EntryPayload.splits prod.splits)

lemma apply_entries_last: "es \<noteq> [] \<Longrightarrow> last_applied (fst (apply_entries es data)) = Some (entry_log_id (last es))"
proof (induction es arbitrary: data)
  case (Cons e es)
  then show ?case by (cases es) (simp_all add: apply_entry_last case_prod_beta Let_def)
qed simp

lemma apply_entries_length: "length (snd (apply_entries es data)) = length es"
  by (induction es arbitrary: data) (simp_all add: case_prod_beta Let_def)

section \<open>Round trips\<close>

lemma normalize_valid: "queue_valid q \<Longrightarrow> normalize q = q"
proof -
  assume v: "queue_valid q"
  have grp: "bmap (\<lambda>_ g. if ack_watermark g > next_offset t then g\<lparr>ack_watermark := next_offset t\<rparr> else g) (groups t) = groups t"
    if t: "bget (topics q) name = Some t" for name t
  proof (rule btree_eqI)
    fix k
    show "bget (bmap (\<lambda>_ g. if ack_watermark g > next_offset t then g\<lparr>ack_watermark := next_offset t\<rparr> else g) (groups t)) k = bget (groups t) k"
      using v t by (cases "bget (groups t) k") (auto simp: queue_valid_def topic_valid_def group_valid_def not_less [symmetric])
  qed
  have "bmap (\<lambda>_ t. t\<lparr>groups := bmap (\<lambda>_ g. if ack_watermark g > next_offset t then g\<lparr>ack_watermark := next_offset t\<rparr> else g) (groups t)\<rparr>) (topics q) = topics q"
  proof (rule btree_eqI)
    fix k
    show "bget (bmap (\<lambda>_ t. t\<lparr>groups := bmap (\<lambda>_ g. if ack_watermark g > next_offset t then g\<lparr>ack_watermark := next_offset t\<rparr> else g) (groups t)\<rparr>) (topics q)) k = bget (topics q) k"
      using grp [of k] by (cases "bget (topics q) k") auto
  qed
  then show ?thesis by (simp add: normalize_def)
qed

lemma decode_encode_state:
  assumes "codec_ok (data_codec C)" and "queue_valid (sm_queue data)" and "encode_state C data = Inr b"
  shows "decode_state C b = Inr data"
proof -
  obtain b' where b': "enc (data_codec C) data = Inr b'" and b: "b = SNAPSHOT_FORMAT @ b'"
    using assms(3) by (auto simp: encode_state_def map_ok_Inr)
  have "strip_prefix SNAPSHOT_FORMAT b = Some b'" by (simp add: strip_prefix_def starts_with_def b)
  moreover have "validate (sm_queue data) = Inr ()" using assms(2) by (simp add: validate_ok)
  ultimately show ?thesis using dec_enc [OF assms(1) b'] normalize_valid [OF assms(2)] by (simp add: decode_state_def)
qed

lemma decode_state_valid: "decode_state C b = Inr data \<Longrightarrow> queue_valid (sm_queue data)"
proof -
  assume "decode_state C b = Inr data"
  then obtain d where d: "(case validate (normalize (sm_queue d)) of
      Inl reason \<Rightarrow> Inl (ReadLogs (''snapshot state is not self-consistent: '' @ reason))
    | Inr _ \<Rightarrow> Inr (d\<lparr>sm_queue := normalize (sm_queue d)\<rparr>)) = Inr data"
    by (auto simp: decode_state_def and_then_Inr Let_def)
  then show "queue_valid (sm_queue data)"
    by (cases "validate (normalize (sm_queue d))") (auto simp: validate_ok [symmetric])
qed

lemma queue_valid_default: "queue_valid queue_default"
  by (simp add: queue_valid_def queue_default_def)

lemma reachable_valid: "total_cost reqs \<le> counter_limit \<Longrightarrow> queue_valid (fst (apply_all queue_default reqs))"
  using wf_valid [OF wf.all_reachable] by (simp add: validate_ok)

context storage_contract
begin

lemma persist_snapshot_ok:
  assumes "persist_snapshot S C snap db = (db', Inr ())" and "codec_ok (stored_codec C)" and "stored_snapshot S C db' = Inr r"
  shows "r = Some snap"
proof -
  obtain b where b: "enc (stored_codec C) snap = Inr b" and p: "put S KEY_SNAPSHOT b db = (db', Inr ())"
    using assms(1) by (auto simp: persist_snapshot_def split: sum.splits prod.splits)
  have "bget (snd (view db')) KEY_SNAPSHOT = Some b" using put [of KEY_SNAPSHOT b] p by (auto simp: effect_def)
  then have "get S KEY_SNAPSHOT db' = Inr x \<Longrightarrow> x = Some b" for x using get [of KEY_SNAPSHOT] by (simp add: answers_def)
  then show ?thesis using assms(3) dec_enc [OF assms(2) b] by (auto simp: stored_snapshot_def and_then_Inr map_ok_Inr)
qed

lemma persist_snapshot_error: "persist_snapshot S C snap db = (db', Inl e) \<Longrightarrow> view db' = view db"
  using put [of KEY_SNAPSHOT] by (auto simp: persist_snapshot_def effect_def swrite_def map_err_def split: sum.splits prod.splits)

lemma persist_then_new:
  assumes "persist_snapshot S C snap db = (db', Inr ())" and "codec_ok (stored_codec C)"
    and "decode_state C (snap_data snap) = Inr data" and "state_machine_new S C m db' = Inr sm"
  shows "sm_data sm = data"
  using assms(3,4) persist_snapshot_ok [OF assms(1,2)] by (auto simp: state_machine_new_def map_ok_Inr and_then_Inr)

end

section \<open>Properties\<close>

text \<open>Applying a batch of committed entries answers each entry once, in order, records the last log id, and
  changes the queue exactly as the requests among the entries do; blank and membership entries do
  not touch it. Batching makes no difference: applying two batches equals applying their
  concatenation.\<close>

lemma apply_replays_log:
  "length (snd (sm_apply es sm)) = length es \<and>
   sm_queue (sm_data (fst (sm_apply es sm))) = fst (apply_all (sm_queue (sm_data sm)) (requests es)) \<and>
   (es \<noteq> [] \<longrightarrow> fst (applied_state (fst (sm_apply es sm))) = Some (entry_log_id (last es))) \<and>
   sm_apply (es @ es') sm =
     (let (sm1, resps) = sm_apply es sm; (sm2, resps') = sm_apply es' sm1 in (sm2, resps @ resps'))"
  by (auto simp: sm_apply_def applied_state_def apply_entries_length apply_entries_queue apply_entries_last apply_entries_append case_prod_beta Let_def)

definition sample_entries :: "unit Entry list" where
  "sample_entries = [\<lparr>entry_log_id = \<lparr>leader_term = 1, leader_node = 1, log_index = 0\<rparr>, payload = Blank\<rparr>,
     \<lparr>entry_log_id = \<lparr>leader_term = 1, leader_node = 1, log_index = 1\<rparr>, payload = Normal (CreateTopic ''a'')\<rparr>]"

definition sample_sm :: "(MemStore, unit) StateMachineStore" where
  "sample_sm = \<lparr>sm_data = data_default (), snapshot_seq = 0, sm_db = mem_default\<rparr>"

definition sample_data :: "unit StateMachineData" where
  "sample_data = fst (apply_entries sample_entries (data_default ()))"

definition sample_snap :: "unit StoredSnapshot" where
  "sample_snap = \<lparr>snap_meta = \<lparr>snap_last_log_id = last_applied sample_data, snap_last_membership = last_membership sample_data,
      snapshot_id = snapshot_name (last_applied sample_data) 1\<rparr>, snap_data = SNAPSHOT_FORMAT @ [7]\<rparr>"

definition sample_codecs :: "unit sm_codecs" where
  "sample_codecs = \<lparr>
     data_codec = \<lparr>encode = (\<lambda>d. if d = sample_data then Inr [7] else Inl []), decode = (\<lambda>b. if b = [7] then Inr sample_data else Inl [])\<rparr>,
     data_v0_codec = \<lparr>encode = (\<lambda>_. Inl []), decode = (\<lambda>_. Inl [])\<rparr>,
     stored_codec = \<lparr>encode = (\<lambda>p. if p = sample_snap then Inr [8] else Inl []), decode = (\<lambda>b. if b = [8] then Inr sample_snap else Inl [])\<rparr>\<rparr>"

lemma sample_codecs_ok: "sm_codecs_ok sample_codecs"
  by (auto simp: sm_codecs_ok_def codec_ok_def sample_codecs_def split: if_splits)

lemma sample_requests_cost: "total_cost (requests sample_entries) \<le> counter_limit"
  by (simp add: sample_entries_def counter_limit_eq total_cost_def)

definition sample_snapshotted :: "(MemStore, unit) StateMachineStore" where
  "sample_snapshotted = \<lparr>sm_data = sample_data, snapshot_seq = 1, sm_db = mem_default\<lparr>mem_meta := binsert KEY_SNAPSHOT [8] bempty\<rparr>\<rparr>"

lemma sample_build:
  "build_snapshot mem_storage sample_codecs (sample_sm\<lparr>sm_data := sample_data\<rparr>) = (sample_snapshotted, Inr sample_snap)"
  by (simp add: build_snapshot_def encode_state_def persist_snapshot_def enc_def sample_codecs_def sample_snap_def sample_sm_def
      sample_snapshotted_def mem_defs mem_default_def)

lemma sample_valid: "queue_valid (sm_queue sample_data)"
  using reachable_valid [OF sample_requests_cost] by (simp add: sample_data_def apply_entries_queue data_default_def)

lemma sample_decode: "decode_state sample_codecs (snap_data sample_snap) = Inr sample_data"
  using sample_codecs_ok
  by (intro decode_encode_state [OF _ sample_valid])
     (simp_all add: sm_codecs_ok_def encode_state_def sample_codecs_def enc_def sample_snap_def)

text \<open>(C26) A snapshot survives a restart: when building a snapshot of a node that has applied any log within the
  counter budget succeeds, a state machine opened on the same database starts with exactly the
  data that was snapshotted.\<close>

theorem snapshot_restart:
  assumes "storage_contract S view" and "sm_codecs_ok C" and "total_cost (requests es) \<le> counter_limit"
    and "sm_data sm = fst (apply_entries es (data_default m))"
    and "build_snapshot S C sm = (sm1, Inr snap)" and "state_machine_new S C m (sm_db sm1) = Inr sm2"
  shows "sm_data sm2 = sm_data sm"
proof -
  have valid: "queue_valid (sm_queue (sm_data sm))"
    using reachable_valid [OF assms(3)] by (simp add: assms(4) apply_entries_queue data_default_def)
  obtain b where b: "encode_state C (sm_data sm) = Inr b"
    using assms(5) by (auto simp: build_snapshot_def Let_def split: sum.splits)
  obtain db where p: "persist_snapshot S C snap (sm_db sm) = (db, Inr ())" and snap: "snap_data snap = b" and db: "sm_db sm1 = db"
    using assms(5) b by (auto simp: build_snapshot_def Let_def split: sum.splits prod.splits)
  have "decode_state C (snap_data snap) = Inr (sm_data sm)"
    unfolding snap using assms(2) by (intro decode_encode_state [OF _ valid b]) (simp add: sm_codecs_ok_def)
  with assms(2,6) p db show ?thesis
    by (intro storage_contract.persist_then_new [OF assms(1) p]) (auto simp: sm_codecs_ok_def)
qed

theorem snapshot_restart_witness:
  "\<exists>sm2. state_machine_new mem_storage sample_codecs () (sm_db sample_snapshotted) = Inr sm2 \<and> sm_data sm2 = sample_data"
proof -
  obtain sm2 where new: "state_machine_new mem_storage sample_codecs () (sm_db sample_snapshotted) = Inr sm2"
    using sample_decode by (simp add: state_machine_new_def stored_snapshot_def sample_snapshotted_def mem_defs dec_def sample_codecs_def)
  have "sm_data sm2 = sm_data (sample_sm\<lparr>sm_data := sample_data\<rparr>)"
    by (rule snapshot_restart [OF mem_store.storage_contract_axioms sample_codecs_ok sample_requests_cost _ sample_build new])
       (simp add: sample_data_def)
  with new show ?thesis by simp
qed

text \<open>(C25) Catching up by snapshot equals replaying the whole log: a node that installs the snapshot another node
  built after applying a prefix, and then applies the rest, ends with the data, and gives the
  answers, of a node that applied everything.\<close>

theorem snapshot_install_equals_replay:
  assumes "sm_codecs_ok C" and "total_cost (requests es) \<le> counter_limit"
    and "sm_data leader = fst (apply_entries es (data_default m))"
    and "build_snapshot S C leader = (leader1, Inr snap)"
    and "install_snapshot S' C (snap_meta snap) (snap_data snap) follower = (follower1, Inr ())"
  shows "sm_data (fst (sm_apply es' follower1)) = fst (apply_entries (es @ es') (data_default m)) \<and>
    snd (sm_apply es' follower1) = drop (length es) (snd (apply_entries (es @ es') (data_default m))) \<and>
    snap_last_log_id (snap_meta snap) = fst (applied_state follower1)"
proof -
  have valid: "queue_valid (sm_queue (sm_data leader))"
    using reachable_valid [OF assms(2)] by (simp add: assms(3) apply_entries_queue data_default_def)
  obtain b where b: "encode_state C (sm_data leader) = Inr b"
    using assms(4) by (auto simp: build_snapshot_def Let_def split: sum.splits)
  have snap: "snap_data snap = b" "snap_last_log_id (snap_meta snap) = last_applied (sm_data leader)"
    using assms(4) b by (auto simp: build_snapshot_def Let_def split: sum.splits prod.splits)
  have "decode_state C (snap_data snap) = Inr (sm_data leader)"
    unfolding snap using assms(1) by (intro decode_encode_state [OF _ valid b]) (simp add: sm_codecs_ok_def)
  then have "sm_data follower1 = sm_data leader"
    using assms(5) by (auto simp: install_snapshot_def split: sum.splits prod.splits)
  then show ?thesis
    using assms(3) apply_entries_length [of es "data_default m"]
    by (simp add: sm_apply_def applied_state_def snap apply_entries_append case_prod_beta Let_def)
qed

lemma sample_install:
  "install_snapshot mem_storage sample_codecs (snap_meta sample_snap) (snap_data sample_snap) sample_sm = (sample_snapshotted\<lparr>snapshot_seq := 0\<rparr>, Inr ())"
  using sample_decode
  by (simp add: install_snapshot_def persist_snapshot_def enc_def sample_codecs_def mem_defs sample_sm_def sample_snapshotted_def mem_default_def)

theorem snapshot_install_equals_replay_witness:
  "sm_data (fst (sm_apply sample_entries (sample_snapshotted\<lparr>snapshot_seq := 0\<rparr>))) = fst (apply_entries (sample_entries @ sample_entries) (data_default ()))"
proof -
  have "sm_data (sample_sm\<lparr>sm_data := sample_data\<rparr>) = fst (apply_entries sample_entries (data_default ()))" by (simp add: sample_data_def)
  from snapshot_install_equals_replay [OF sample_codecs_ok sample_requests_cost this sample_build sample_install, of sample_entries]
  show ?thesis by blast
qed

text \<open>(C27) Only a consistent snapshot replaces the queue: an installation that fails leaves the state machine and
  the stored records as they were, and one that succeeds leaves a queue that passes
  \<^verbatim>\<open>Queue::validate\<close> and that a restart reads back.\<close>

theorem install_snapshot_safe:
  assumes "storage_contract S view" and "codec_ok (stored_codec C)"
  shows "(install_snapshot S C meta b sm = (sm1, Inl e) \<longrightarrow> sm_data sm1 = sm_data sm \<and> view (sm_db sm1) = view (sm_db sm)) \<and>
    (install_snapshot S C meta b sm = (sm1, Inr ()) \<longrightarrow> validate (sm_queue (sm_data sm1)) = Inr () \<and>
      (\<forall>sm2. state_machine_new S C m (sm_db sm1) = Inr sm2 \<longrightarrow> sm_data sm2 = sm_data sm1))"
proof (intro conjI impI)
  assume run: "install_snapshot S C meta b sm = (sm1, Inl e)"
  have "sm_data sm1 = sm_data sm \<and> view (sm_db sm1) = view (sm_db sm)"
  proof (cases "decode_state C b")
    case (Inr data)
    then obtain db r where p: "persist_snapshot S C \<lparr>snap_meta = meta, snap_data = b\<rparr> (sm_db sm) = (db, r)" by fastforce
    with run Inr have "r = Inl e" "sm1 = sm\<lparr>sm_db := db\<rparr>" by (auto simp: install_snapshot_def split: sum.splits)
    with storage_contract.persist_snapshot_error [OF assms(1)] p show ?thesis by simp
  qed (use run in \<open>simp add: install_snapshot_def\<close>)
  then show "sm_data sm1 = sm_data sm" "view (sm_db sm1) = view (sm_db sm)" by simp_all
next
  assume run: "install_snapshot S C meta b sm = (sm1, Inr ())"
  then obtain data where d: "decode_state C b = Inr data" by (auto simp: install_snapshot_def split: sum.splits)
  obtain db r where p: "persist_snapshot S C \<lparr>snap_meta = meta, snap_data = b\<rparr> (sm_db sm) = (db, r)" by fastforce
  have r: "r = Inr ()" and sm1: "sm1 = sm\<lparr>sm_db := db, sm_data := data\<rparr>" using run d p by (auto simp: install_snapshot_def split: sum.splits)
  show "validate (sm_queue (sm_data sm1)) = Inr ()" using decode_state_valid [OF d] by (simp add: sm1 validate_ok)
  show "\<forall>sm2. state_machine_new S C m (sm_db sm1) = Inr sm2 \<longrightarrow> sm_data sm2 = sm_data sm1"
    using storage_contract.persist_then_new [OF assms(1) p [unfolded r] assms(2)] d by (auto simp: sm1)
qed

theorem install_snapshot_safe_witness:
  "validate (sm_queue (sm_data (sample_snapshotted\<lparr>snapshot_seq := 0\<rparr>))) = Inr ()"
proof -
  have "codec_ok (stored_codec sample_codecs)" using sample_codecs_ok by (simp add: sm_codecs_ok_def)
  from install_snapshot_safe [OF mem_store.storage_contract_axioms this] sample_install show ?thesis by blast
qed

end
