(* ===== verification/Log_Store.thy ===== *)
theory Log_Store
  imports Engine_Types
begin

text \<open>
  The Raft log store of \<^verbatim>\<open>crates/hermesmq-core/src/engine/log_store.rs\<close>. Appended entries are
  visible at once in \<^verbatim>\<open>pending\<close> and are written by a flusher thread that collects queued jobs into
  batches. The state \<open>LogStore\<close> holds the database, the pending map, the job channel and where the
  flusher thread is in its loop; callbacks and barrier channels are numbers, and \<open>completed\<close> and
  \<open>signalled\<close> record what was sent on them. The thread's loop body is three atomic actions, as its
  locks make it: collect a batch, write it to the database, then forget it in \<^verbatim>\<open>pending\<close> and answer.
  \<open>flusher_step\<close> lets them interleave with the other operations in any way.

  Index arithmetic (\<^verbatim>\<open>x + 1\<close>) wraps as in a release build.
\<close>

section \<open>State\<close>

definition KEY_PURGED :: string where "KEY_PURGED = ''log:purged''"
definition FLUSH_MAX_ENTRIES :: nat where "FLUSH_MAX_ENTRIES = 512"
definition FLUSH_MAX_BYTES :: nat where "FLUSH_MAX_BYTES = 8 * 1024 * 1024"

type_synonym log_bytes = "(u64 \<times> bytes) list"

datatype FlushJob = Append log_bytes "nat option" | Barrier nat

record Batch =
  batch_entries :: log_bytes
  batch_callbacks :: "nat list"
  batch_barriers :: "nat list"

datatype Flusher = Idle | Collected Batch | Written Batch "unit store_result"

record 's LogStore =
  ls_db :: 's
  pending :: log_table
  jobs :: "FlushJob list"
  flusher :: Flusher
  completed :: "(nat \<times> unit rust_result) list"
  signalled :: "nat list"
  alive :: bool

definition log_store_new :: "'s \<Rightarrow> 's LogStore" where
  "log_store_new db = \<lparr>ls_db = db, pending = bempty, jobs = [], flusher = Idle, completed = [], signalled = [], alive = True\<rparr>"

section \<open>The flusher thread\<close>

text \<open>The inner loop over the jobs that are available to \<^verbatim>\<open>try_recv\<close>; the rest stays in the channel.\<close>

fun collect :: "FlushJob list \<Rightarrow> log_bytes \<Rightarrow> nat list \<Rightarrow> nat \<Rightarrow> Batch \<times> FlushJob list" where
  "collect [] batch cbs nbytes = (\<lparr>batch_entries = batch, batch_callbacks = cbs, batch_barriers = []\<rparr>, [])"
| "collect (Barrier b # js) batch cbs nbytes =
     (\<lparr>batch_entries = batch, batch_callbacks = cbs, batch_barriers = [b]\<rparr>, js)"
| "collect (Append es cb # js) batch cbs nbytes =
     (let nbytes = nbytes + sum_list (map (length \<circ> snd) es);
          batch = batch @ es;
          cbs = cbs @ (case cb of None \<Rightarrow> [] | Some c \<Rightarrow> [c])
      in if length batch \<ge> FLUSH_MAX_ENTRIES \<or> nbytes \<ge> FLUSH_MAX_BYTES
         then (\<lparr>batch_entries = batch, batch_callbacks = cbs, batch_barriers = []\<rparr>, js)
         else collect js batch cbs nbytes)"

text \<open>\<open>n\<close> is the number of jobs that arrive before a \<^verbatim>\<open>try_recv\<close> finds the channel empty.\<close>

definition flush_collect :: "nat \<Rightarrow> 's LogStore \<Rightarrow> 's LogStore" where
  "flush_collect n s =
     (let (batch, rest) = collect (take n (jobs s)) [] [] 0
      in s\<lparr>jobs := rest @ drop n (jobs s), flusher := Collected batch\<rparr>)"

definition flush_write :: "'s Storage \<Rightarrow> Batch \<Rightarrow> 's LogStore \<Rightarrow> 's LogStore" where
  "flush_write S b s =
     (if batch_entries b = [] then s\<lparr>flusher := Written b (Inr ())\<rparr>
      else case append_log S (batch_entries b) (ls_db s) of (db, result) \<Rightarrow> s\<lparr>ls_db := db, flusher := Written b result\<rparr>)"

definition flush_finish :: "Batch \<Rightarrow> unit store_result \<Rightarrow> 's LogStore \<Rightarrow> 's LogStore" where
  "flush_finish b result s =
     (case result of
        Inr _ \<Rightarrow> s\<lparr>pending := remove_all (map fst (batch_entries b)) (pending s),
                   completed := completed s @ map (\<lambda>c. (c, Inr ())) (batch_callbacks b)\<rparr>
      | Inl e \<Rightarrow> s\<lparr>completed := completed s @ map (\<lambda>c. (c, Inl (display_error e))) (batch_callbacks b)\<rparr>)
     \<lparr>signalled := signalled s @ batch_barriers b, flusher := Idle\<rparr>"

inductive flusher_step :: "'s Storage \<Rightarrow> 's LogStore \<Rightarrow> 's LogStore \<Rightarrow> bool" for S where
  recv: "flusher s = Idle \<Longrightarrow> jobs s \<noteq> [] \<Longrightarrow> 0 < n \<Longrightarrow> flusher_step S s (flush_collect n s)"
| store: "flusher s = Collected b \<Longrightarrow> flusher_step S s (flush_write S b s)"
| finish: "flusher s = Written b result \<Longrightarrow> flusher_step S s (flush_finish b result s)"

text \<open>One turn of the thread's loop, and the turns until the channel is empty.\<close>

definition settle :: "'s Storage \<Rightarrow> 's LogStore \<Rightarrow> 's LogStore" where
  "settle S s =
     (case flusher s of
        Idle \<Rightarrow> s
      | Collected b \<Rightarrow> (let s = flush_write S b s in case flusher s of Written b result \<Rightarrow> flush_finish b result s | _ \<Rightarrow> s)
      | Written b result \<Rightarrow> flush_finish b result s)"

definition flush_round :: "'s Storage \<Rightarrow> 's LogStore \<Rightarrow> 's LogStore" where
  "flush_round S s = settle S (flush_collect (length (jobs s)) s)"

lemma collect_length: "length (snd (collect js batch cbs nbytes)) \<le> length js"
proof (induction js arbitrary: batch cbs nbytes)
  case (Cons j js)
  then show ?case by (cases j) (auto simp: Let_def intro: le_SucI)
qed simp

lemma collect_shorter: "js \<noteq> [] \<Longrightarrow> length (snd (collect js batch cbs nbytes)) < length js"
  using collect_length by (cases "(js, batch, cbs, nbytes)" rule: collect.cases) (auto simp: Let_def le_imp_less_Suc)

lemma settle_jobs [simp]: "jobs (settle S s) = jobs s"
  by (auto simp: settle_def flush_write_def flush_finish_def Let_def split: Flusher.splits sum.splits prod.splits)

lemma flush_round_jobs: "jobs s \<noteq> [] \<Longrightarrow> length (jobs (flush_round S s)) < length (jobs s)"
  using collect_shorter [of "jobs s" "[]" "[]" 0] by (simp add: flush_round_def flush_collect_def case_prod_beta)

function drain :: "'s Storage \<Rightarrow> 's LogStore \<Rightarrow> 's LogStore" where
  "drain S s = (if jobs s = [] then s else drain S (flush_round S s))"
  by auto
termination
  by (relation "measure (\<lambda>(S, s). length (jobs s))") (auto simp: flush_round_jobs)

declare drain.simps [simp del]

section \<open>The log operations\<close>

definition barrier :: "'s Storage \<Rightarrow> nat \<Rightarrow> 's LogStore \<Rightarrow> 's LogStore" where
  "barrier S token s = (if alive s then drain S (settle S (s\<lparr>jobs := jobs s @ [Barrier token]\<rparr>)) else s)"

definition pending_last :: "'s LogStore \<Rightarrow> u64 option" where
  "pending_last s = blast_key (pending s)"

definition encode_entries :: "'m Entry codec \<Rightarrow> 'm Entry list \<Rightarrow> log_bytes raft_result" where
  "encode_entries C = try_map (\<lambda>e. map_ok (Pair (log_index (entry_log_id e))) (enc C e))"

definition enqueue :: "'m Entry codec \<Rightarrow> 'm Entry list \<Rightarrow> nat option \<Rightarrow> 's LogStore \<Rightarrow> 's LogStore \<times> unit raft_result" where
  "enqueue C es cb s = (case encode_entries C es of
     Inl e \<Rightarrow> (s, Inl e)
   | Inr batch \<Rightarrow>
       (let s = s\<lparr>pending := insert_all batch (pending s)\<rparr>
        in if alive s then (s\<lparr>jobs := jobs s @ [Append batch cb]\<rparr>, Inr ())
           else (s, Inl (WriteLogs ''log flusher thread is gone''))))"

definition append :: "'m Entry codec \<Rightarrow> 'm Entry list \<Rightarrow> nat \<Rightarrow> 's LogStore \<Rightarrow> 's LogStore \<times> unit raft_result" where
  "append C es cb = enqueue C es (Some cb)"

definition fuzz_append :: "'m Entry codec \<Rightarrow> 'm Entry list \<Rightarrow> 's LogStore \<Rightarrow> 's LogStore \<times> unit raft_result" where
  "fuzz_append C es = enqueue C es None"

definition fuzz_pending_indices :: "'s LogStore \<Rightarrow> u64 list" where
  "fuzz_pending_indices s = bkeys (pending s)"

definition truncate :: "'s Storage \<Rightarrow> nat \<Rightarrow> LogId \<Rightarrow> 's LogStore \<Rightarrow> 's LogStore \<times> unit raft_result" where
  "truncate S token log_id s =
     (let s = barrier S token s;
          s = s\<lparr>pending := bretain (\<lambda>k _. k < log_index log_id) (pending s)\<rparr>
      in case truncate_log_from S (log_index log_id) (ls_db s) of (db, result) \<Rightarrow> (s\<lparr>ls_db := db\<rparr>, swrite result))"

definition record_purged :: "'s Storage \<Rightarrow> LogId codec \<Rightarrow> LogId \<Rightarrow> 's \<Rightarrow> 's \<times> unit raft_result" where
  "record_purged S C up_to db = (case enc C up_to of
     Inl e \<Rightarrow> (db, Inl e)
   | Inr b \<Rightarrow> try_write (put S KEY_PURGED b db) (\<lambda>db.
       case purge_log_upto S (log_index up_to) db of (db, result) \<Rightarrow> (db, swrite result)))"

definition mark_purged :: "'s Storage \<Rightarrow> LogId codec \<Rightarrow> LogId \<Rightarrow> 's \<Rightarrow> 's \<times> unit raft_result" where
  "mark_purged S C up_to db = (case sread (get S KEY_PURGED db) of
     Inl e \<Rightarrow> (db, Inl e)
   | Inr None \<Rightarrow> record_purged S C up_to db
   | Inr (Some b) \<Rightarrow> (case dec C b of
       Inl e \<Rightarrow> (db, Inl e)
     | Inr current \<Rightarrow> if log_index current \<ge> log_index up_to then (db, Inr ()) else record_purged S C up_to db))"

definition purge :: "'s Storage \<Rightarrow> LogId codec \<Rightarrow> nat \<Rightarrow> LogId \<Rightarrow> 's LogStore \<Rightarrow> 's LogStore \<times> unit raft_result" where
  "purge S C token log_id s =
     (let s = barrier S token s;
          s = s\<lparr>pending := bsplit_off (log_index log_id + 1) (pending s)\<rparr>
      in case mark_purged S C log_id (ls_db s) of (db, result) \<Rightarrow> (s\<lparr>ls_db := db\<rparr>, result))"

section \<open>Reading\<close>

datatype Bound = Included u64 | Excluded u64 | Unbounded

fun start_index :: "Bound \<Rightarrow> u64" where
  "start_index (Included x) = x"
| "start_index (Excluded x) = x + 1"
| "start_index Unbounded = 0"

definition last_index :: "'s Storage \<Rightarrow> 's LogStore \<Rightarrow> u64 option raft_result" where
  "last_index S s = map_ok (\<lambda>db_last. max_option db_last (pending_last s)) (sread (last_log_index S (ls_db s)))"

fun end_index :: "'s Storage \<Rightarrow> Bound \<Rightarrow> 's LogStore \<Rightarrow> u64 raft_result" where
  "end_index S (Included x) s = Inr (x + 1)"
| "end_index S (Excluded x) s = Inr x"
| "end_index S Unbounded s = map_ok (\<lambda>l. case l of None \<Rightarrow> 0 | Some i \<Rightarrow> i + 1) (last_index S s)"

text \<open>
  The database is read first and \<^verbatim>\<open>pending\<close> afterwards, under its lock, so the two reads may see
  the store at different moments \<open>s\<close> and \<open>s'\<close>.
\<close>

definition merged_range :: "'s Storage \<Rightarrow> u64 \<Rightarrow> u64 \<Rightarrow> 's LogStore \<Rightarrow> 's LogStore \<Rightarrow> log_table raft_result" where
  "merged_range S start stop s s' =
     map_ok (\<lambda>items. insert_all (brange start stop (pending s')) (insert_all items bempty)) (sread (read_log S start stop (ls_db s)))"

text \<open>\<^verbatim>\<open>BTreeMap::range\<close> panics when the start is above the end; the panic is \<open>None\<close>.\<close>

definition read_entries :: "'s Storage \<Rightarrow> 'm Entry codec \<Rightarrow> u64 \<Rightarrow> u64 \<Rightarrow> 's LogStore \<Rightarrow> 's LogStore \<Rightarrow> 'm Entry list raft_result option" where
  "read_entries S C start stop s s' = (case merged_range S start stop s s' of
     Inl e \<Rightarrow> Some (Inl e)
   | Inr merged \<Rightarrow> if stop < start then None else Some (try_map (dec C) (bvalues merged)))"

definition try_get_log_entries :: "'s Storage \<Rightarrow> 'm Entry codec \<Rightarrow> Bound \<Rightarrow> Bound \<Rightarrow> 's LogStore \<Rightarrow> 'm Entry list raft_result option" where
  "try_get_log_entries S C lo hi s = (case end_index S hi s of
     Inl e \<Rightarrow> Some (Inl e)
   | Inr stop \<Rightarrow> read_entries S C (start_index lo) stop s s)"

definition entry_bytes :: "'s Storage \<Rightarrow> u64 \<Rightarrow> 's LogStore \<Rightarrow> bytes option raft_result" where
  "entry_bytes S index s = (case bget (pending s) index of
     Some b \<Rightarrow> Inr (Some b)
   | None \<Rightarrow> map_ok (\<lambda>items. case items of [] \<Rightarrow> None | e # _ \<Rightarrow> Some (snd e)) (sread (read_log S index (index + 1) (ls_db s))))"

definition read_purged :: "'s Storage \<Rightarrow> LogId codec \<Rightarrow> 's \<Rightarrow> LogId option raft_result" where
  "read_purged S C db = and_then (sread (get S KEY_PURGED db)) (\<lambda>b. case b of
     None \<Rightarrow> Inr None
   | Some b \<Rightarrow> map_ok Some (dec C b))"

definition get_log_state :: "'s Storage \<Rightarrow> LogId codec \<Rightarrow> 'm Entry codec \<Rightarrow> 's LogStore \<Rightarrow> LogState raft_result" where
  "get_log_state S C E s =
     and_then (read_purged S C (ls_db s)) (\<lambda>purged.
     and_then (last_index S s) (\<lambda>lst.
     map_ok (\<lambda>lid. \<lparr>last_purged_log_id = purged, last_log_id = lid\<rparr>)
       (case lst of
          None \<Rightarrow> Inr purged
        | Some index \<Rightarrow> and_then (entry_bytes S index s) (\<lambda>b. case b of
            Some b \<Rightarrow> map_ok (Some \<circ> entry_log_id) (dec E b)
          | None \<Rightarrow> Inr purged))))"

section \<open>Vote and committed pointer\<close>

definition save_vote :: "'s Storage \<Rightarrow> 'v codec \<Rightarrow> 'v \<Rightarrow> 's \<Rightarrow> 's \<times> unit raft_result" where
  "save_vote S C vote db = (case enc C vote of
     Inl e \<Rightarrow> (db, Inl e)
   | Inr b \<Rightarrow> (case save_vote_bytes S b db of (db, result) \<Rightarrow> (db, swrite result)))"

definition read_vote :: "'s Storage \<Rightarrow> 'v codec \<Rightarrow> 's \<Rightarrow> 'v option raft_result" where
  "read_vote S C db = and_then (sread (read_vote_bytes S db)) (\<lambda>b. case b of
     None \<Rightarrow> Inr None
   | Some b \<Rightarrow> map_ok Some (dec C b))"

definition save_committed :: "'s Storage \<Rightarrow> LogId option codec \<Rightarrow> LogId option \<Rightarrow> 's \<Rightarrow> 's \<times> unit raft_result" where
  "save_committed S C committed db = (case enc C committed of
     Inl e \<Rightarrow> (db, Inl e)
   | Inr b \<Rightarrow> (case save_committed_bytes S b db of (db, result) \<Rightarrow> (db, swrite result)))"

definition read_committed :: "'s Storage \<Rightarrow> LogId option codec \<Rightarrow> 's LogStore \<Rightarrow> LogId option raft_result" where
  "read_committed S C s = and_then (sread (read_committed_bytes S (ls_db s))) (\<lambda>b. case b of
     None \<Rightarrow> Inr None
   | Some b \<Rightarrow> and_then (dec C b) (\<lambda>stored. case stored of
       None \<Rightarrow> Inr None
     | Some committed \<Rightarrow> map_ok (\<lambda>lst. case lst of
         Some highest \<Rightarrow> if log_index committed \<le> highest then Some committed else None
       | None \<Rightarrow> None) (last_index S s)))"

end
