(* ===== verification/Log_Refinement.thy ===== *)
theory Log_Refinement
  imports Log_Store
begin

text \<open>
  The log store implements an ordered log. \<open>log_view\<close> is the log a reader sees: the pending entries
  over the stored ones. Every action of the flusher thread leaves it unchanged, and the operations
  act on it as on a plain map, for any storage that meets \<open>storage_contract\<close>.
\<close>

section \<open>The abstract log\<close>

definition log_view :: "('s \<Rightarrow> log_table \<times> meta_table) \<Rightarrow> 's LogStore \<Rightarrow> log_table" where
  "log_view view s = insert_all (entries (pending s)) (fst (view (ls_db s)))"

fun job_entries :: "FlushJob \<Rightarrow> log_bytes" where
  "job_entries (Append es cb) = es"
| "job_entries (Barrier b) = []"

fun job_callbacks :: "FlushJob \<Rightarrow> nat list" where
  "job_callbacks (Append es cb) = (case cb of None \<Rightarrow> [] | Some c \<Rightarrow> [c])"
| "job_callbacks (Barrier b) = []"

fun job_barriers :: "FlushJob \<Rightarrow> nat list" where
  "job_barriers (Append es cb) = []"
| "job_barriers (Barrier b) = [b]"

definition in_batch :: "(Batch \<Rightarrow> 'a list) \<Rightarrow> (FlushJob \<Rightarrow> 'a list) \<Rightarrow> 's LogStore \<Rightarrow> 'a list" where
  "in_batch f g s = (case flusher s of Idle \<Rightarrow> [] | Collected b \<Rightarrow> f b | Written b _ \<Rightarrow> f b) @ concat (map g (jobs s))"

abbreviation outstanding :: "'s LogStore \<Rightarrow> log_bytes" where
  "outstanding \<equiv> in_batch batch_entries job_entries"

abbreviation owed_callbacks :: "'s LogStore \<Rightarrow> nat list" where
  "owed_callbacks \<equiv> in_batch batch_callbacks job_callbacks"

abbreviation owed_barriers :: "'s LogStore \<Rightarrow> nat list" where
  "owed_barriers \<equiv> in_batch batch_barriers job_barriers"

definition stored :: "('s \<Rightarrow> log_table \<times> meta_table) \<Rightarrow> log_bytes \<Rightarrow> 's LogStore \<Rightarrow> bool" where
  "stored view es s \<longleftrightarrow> (\<forall>(i, b) \<in> set es. bget (fst (view (ls_db s))) i = Some b)"

text \<open>Entries on their way to the database are distinct and still pending, and a written batch is stored.\<close>

definition log_inv :: "('s \<Rightarrow> log_table \<times> meta_table) \<Rightarrow> 's LogStore \<Rightarrow> bool" where
  "log_inv view s \<longleftrightarrow> distinct (map fst (outstanding s)) \<and>
     (\<forall>(i, b) \<in> set (outstanding s). bget (pending s) i = Some b) \<and>
     (\<forall>b. flusher s = Written b (Inr ()) \<longrightarrow> stored view (batch_entries b) s)"

lemma log_inv_new: "log_inv view (log_store_new db)"
  by (simp add: log_inv_def log_store_new_def in_batch_def)

lemma map_of_rev_distinct: "distinct (map fst es) \<Longrightarrow> map_of (rev es) = map_of es"
  by (intro map_of_inject_set [THEN iffD2]) (auto simp: rev_map [symmetric])

lemma map_of_rev_entries: "map_of (rev (entries m)) = bget m"
  by (simp add: map_of_rev_distinct bget.rep_eq)

lemma sorted_brange: "sorted_wrt (<) (map fst (brange start stop m))"
  using sorted_entries [of m] unfolding brange_def by (simp add: sorted_wrt_map sorted_wrt_filter)

lemma sorted_by_key_unique:
  assumes "set xs = set ys" and "sorted_wrt (<) (map fst xs)" and "sorted_wrt (<) (map fst ys)"
  shows "xs = (ys :: ('k::linorder \<times> 'v) list)"
proof -
  have "Btree xs = Btree ys"
    by (rule btree_eqI_Some) (use assms in \<open>simp add: bget_entries Btree_inverse\<close>)
  then show ?thesis using assms(2,3) by (simp add: Btree_inject)
qed

lemma bget_insert_distinct:
  assumes "distinct (map fst es)"
  shows "bget (insert_all es m) i = (case map_of es i of None \<Rightarrow> bget m i | Some v \<Rightarrow> Some v)"
  using assms by (simp add: bget_insert_all map_of_rev_distinct)

lemma bget_log_view: "bget (log_view view s) i = (case bget (pending s) i of None \<Rightarrow> bget (fst (view (ls_db s))) i | Some v \<Rightarrow> Some v)"
  by (simp add: log_view_def bget_insert_all map_of_rev_entries)

lemma collect_split:
  assumes "collect js batch cbs nbytes = (b, rest)"
  shows "batch_entries b @ concat (map job_entries rest) = batch @ concat (map job_entries js)"
    and "batch_callbacks b @ concat (map job_callbacks rest) = cbs @ concat (map job_callbacks js)"
    and "batch_barriers b @ concat (map job_barriers rest) = concat (map job_barriers js)"
  using assms
proof (induction js arbitrary: batch cbs nbytes b rest)
  case (Cons j js)
  {
    case 1 then show ?case using Cons.IH(1) by (cases j) (auto simp: Let_def split: if_splits)
  next
    case 2 then show ?case using Cons.IH(2) by (cases j) (fastforce simp: Let_def split: if_splits)+
  next
    case 3 then show ?case using Cons.IH(3) by (cases j) (auto simp: Let_def split: if_splits)
  }
qed auto

lemma flush_collect_in_batch:
  assumes "flusher s = Idle"
  shows "outstanding (flush_collect n s) = outstanding s" and "owed_callbacks (flush_collect n s) = owed_callbacks s"
    and "owed_barriers (flush_collect n s) = owed_barriers s"
proof -
  obtain b rest where c: "collect (take n (jobs s)) [] [] 0 = (b, rest)" by fastforce
  have j: "concat (map g (jobs s)) = concat (map g (take n (jobs s))) @ concat (map g (drop n (jobs s)))" for g :: "FlushJob \<Rightarrow> 'b list"
    by (metis append_take_drop_id concat_append map_append)
  show "outstanding (flush_collect n s) = outstanding s" "owed_callbacks (flush_collect n s) = owed_callbacks s"
    "owed_barriers (flush_collect n s) = owed_barriers s"
    using collect_split [OF c] assms by (simp_all add: flush_collect_def c in_batch_def j)
qed

lemma flush_collect_frame [simp]:
  "ls_db (flush_collect n s) = ls_db s" "pending (flush_collect n s) = pending s" "completed (flush_collect n s) = completed s"
  "signalled (flush_collect n s) = signalled s" "alive (flush_collect n s) = alive s"
  by (simp_all add: flush_collect_def case_prod_beta)

lemma flush_write_frame [simp]:
  "pending (flush_write S b s) = pending s" "completed (flush_write S b s) = completed s" "jobs (flush_write S b s) = jobs s"
  "signalled (flush_write S b s) = signalled s" "alive (flush_write S b s) = alive s"
  "\<exists>result. flusher (flush_write S b s) = Written b result"
  by (auto simp: flush_write_def split: prod.splits)

lemma flush_finish_frame [simp]:
  "ls_db (flush_finish b result s) = ls_db s" "jobs (flush_finish b result s) = jobs s" "flusher (flush_finish b result s) = Idle"
  "alive (flush_finish b result s) = alive s"
  by (auto simp: flush_finish_def split: sum.splits)

inductive_cases flusher_stepE: "flusher_step S s s'"

section \<open>Flushing\<close>

text \<open>The callbacks and the barriers are answered in the order they were queued, each once.\<close>

lemma flusher_step_answers:
  assumes "flusher_step S s s'"
  shows "map fst (completed s') @ owed_callbacks s' = map fst (completed s) @ owed_callbacks s"
    and "signalled s' @ owed_barriers s' = signalled s @ owed_barriers s" and "alive s' = alive s"
proof -
  have "map fst (completed s') @ owed_callbacks s' = map fst (completed s) @ owed_callbacks s \<and>
    signalled s' @ owed_barriers s' = signalled s @ owed_barriers s \<and> alive s' = alive s"
    using assms
  proof cases
    case (recv n)
    then show ?thesis by (simp add: flush_collect_in_batch)
  next
    case (store b)
    obtain result where "flusher (flush_write S b s) = Written b result" using flush_write_frame(6) by blast
    with store show ?thesis by (simp add: in_batch_def)
  next
    case (finish b result)
    then show ?thesis by (auto simp: in_batch_def flush_finish_def o_def split: sum.splits)
  qed
  then show "map fst (completed s') @ owed_callbacks s' = map fst (completed s) @ owed_callbacks s"
    "signalled s' @ owed_barriers s' = signalled s @ owed_barriers s" "alive s' = alive s" by auto
qed

lemma settle_idle [simp]: "flusher (settle S s) = Idle"
proof (cases "flusher s")
  case (Collected b)
  obtain result where "flusher (flush_write S b s) = Written b result" using flush_write_frame(6) by blast
  with Collected show ?thesis by (simp add: settle_def)
qed (simp_all add: settle_def)

lemma settle_steps: "(flusher_step S)\<^sup>*\<^sup>* s (settle S s)"
proof (cases "flusher s")
  case (Collected b)
  obtain result where w: "flusher (flush_write S b s) = Written b result" using flush_write_frame(6) by blast
  have "flusher_step S s (flush_write S b s)" using Collected by (rule flusher_step.store)
  moreover have "flusher_step S (flush_write S b s) (flush_finish b result (flush_write S b s))" using w by (rule flusher_step.finish)
  ultimately show ?thesis using Collected w by (auto simp: settle_def Let_def intro: rtranclp_trans)
next
  case (Written b result)
  then have "flusher_step S s (flush_finish b result s)" by (rule flusher_step.finish)
  with Written show ?thesis by (auto simp: settle_def)
qed (simp add: settle_def)

lemma flush_round_steps:
  assumes "flusher s = Idle" and "jobs s \<noteq> []"
  shows "(flusher_step S)\<^sup>*\<^sup>* s (flush_round S s)"
proof -
  have "flusher_step S s (flush_collect (length (jobs s)) s)" using assms by (intro flusher_step.recv) auto
  then show ?thesis unfolding flush_round_def by (rule converse_rtranclp_into_rtranclp [OF _ settle_steps])
qed

lemma drain_steps: "flusher s = Idle \<Longrightarrow> (flusher_step S)\<^sup>*\<^sup>* s (drain S s)"
proof (induction S s rule: drain.induct)
  case (1 S s)
  show ?case
  proof (cases "jobs s = []")
    case False
    have "(flusher_step S)\<^sup>*\<^sup>* (flush_round S s) (drain S (flush_round S s))"
      using False by (intro "1.IH") (simp_all add: flush_round_def)
    with rtranclp_trans [OF flush_round_steps [OF 1(2) False] this] False show ?thesis by (simp add: drain.simps [of S s])
  qed (simp add: drain.simps [of S s])
qed

lemma drain_done: "flusher s = Idle \<Longrightarrow> flusher (drain S s) = Idle \<and> jobs (drain S s) = []"
proof (induction S s rule: drain.induct)
  case (1 S s)
  then show ?case by (cases "jobs s = []") (simp_all add: drain.simps [of S s] flush_round_def)
qed

lemma flusher_steps_answers:
  assumes "(flusher_step S)\<^sup>*\<^sup>* s s'"
  shows "map fst (completed s') @ owed_callbacks s' = map fst (completed s) @ owed_callbacks s \<and>
    signalled s' @ owed_barriers s' = signalled s @ owed_barriers s \<and> alive s' = alive s"
  using assms by (induction rule: rtranclp_induct) (simp_all add: flusher_step_answers)

lemma barrier_steps:
  assumes "alive s"
  shows "(flusher_step S)\<^sup>*\<^sup>* (s\<lparr>jobs := jobs s @ [Barrier token]\<rparr>) (barrier S token s)"
  using assms rtranclp_trans [OF settle_steps drain_steps [OF settle_idle]] by (simp add: barrier_def)

lemma barrier_done: "alive s \<Longrightarrow> flusher (barrier S token s) = Idle \<and> jobs (barrier S token s) = []"
  by (simp add: barrier_def drain_done)

lemma outstanding_done: "flusher s = Idle \<Longrightarrow> jobs s = [] \<Longrightarrow> in_batch f g s = []"
  by (simp add: in_batch_def)

context storage_contract
begin

lemma flush_write_db:
  assumes "flusher (flush_write S b s) = Written b result"
  shows "fst (view (ls_db (flush_write S b s))) =
    (case result of Inl _ \<Rightarrow> fst (view (ls_db s)) | Inr _ \<Rightarrow> insert_all (batch_entries b) (fst (view (ls_db s))))"
proof (cases "batch_entries b = []")
  case False
  obtain db result' where a: "append_log S (batch_entries b) (ls_db s) = (db, result')" by fastforce
  with append_log [of "batch_entries b"] have "view db = (case result' of Inl _ \<Rightarrow> view (ls_db s) | Inr _ \<Rightarrow> apfst (insert_all (batch_entries b)) (view (ls_db s)))"
    by (auto simp: effect_def)
  with False a assms show ?thesis by (auto simp: flush_write_def split: sum.splits)
qed (use assms in \<open>auto simp: flush_write_def split: sum.splits\<close>)

lemma stored_batch:
  assumes "distinct (map fst (batch_entries b))" and "flusher (flush_write S b s) = Written b (Inr u)"
  shows "stored view (batch_entries b) (flush_write S b s)"
  unfolding stored_def flush_write_db [OF assms(2)] using assms(1) by (auto simp: bget_insert_distinct)

lemma flusher_step_log:
  assumes "flusher_step S s s'" and inv: "log_inv view s"
  shows "log_view view s' = log_view view s \<and> log_inv view s'"
  using assms(1)
proof cases
  case (recv n)
  then show ?thesis using inv
    by (auto simp: log_inv_def flush_collect_in_batch log_view_def stored_def) (simp add: flush_collect_def case_prod_beta)
next
  case (store b)
  obtain result where w: "flusher (flush_write S b s) = Written b result" using flush_write_frame(6) by blast
  have out: "outstanding (flush_write S b s) = outstanding s" using store w by (simp add: in_batch_def)
  have d: "distinct (map fst (batch_entries b))" and p: "\<forall>(i, x) \<in> set (batch_entries b). bget (pending s) i = Some x"
    using inv store by (auto simp: log_inv_def in_batch_def)
  have "log_view view (flush_write S b s) = log_view view s"
  proof (rule btree_eqI)
    fix i
    show "bget (log_view view (flush_write S b s)) i = bget (log_view view s) i"
      using p d by (cases result) (auto simp: bget_log_view flush_write_db [OF w] bget_insert_distinct split: option.splits dest: map_of_SomeD)
  qed
  moreover have "log_inv view (flush_write S b s)"
    using inv out w stored_batch [OF d] by (auto simp: log_inv_def)
  ultimately show ?thesis using store by simp
next
  case (finish b result)
  have s'_out: "outstanding s' = concat (map job_entries (jobs s))" and s_out: "outstanding s = batch_entries b @ concat (map job_entries (jobs s))"
    using finish by (simp_all add: in_batch_def)
  show ?thesis
  proof (cases result)
    case (Inr u)
    have st: "stored view (batch_entries b) s" using inv finish Inr by (auto simp: log_inv_def)
    have pend: "pending s' = remove_all (map fst (batch_entries b)) (pending s)" and db: "ls_db s' = ls_db s"
      using finish Inr by (simp_all add: flush_finish_def)
    have "log_view view s' = log_view view s"
    proof (rule btree_eqI)
      fix i
      show "bget (log_view view s') i = bget (log_view view s) i"
      proof (cases "i \<in> fst ` set (batch_entries b)")
        case True
        then obtain x where x: "(i, x) \<in> set (batch_entries b)" by auto
        then have "bget (pending s) i = Some x" using inv s_out by (auto simp: log_inv_def)
        with x st show ?thesis by (auto simp: bget_log_view pend db stored_def image_iff)
      qed (simp add: bget_log_view pend db image_iff cong: option.case_cong)
    qed
    moreover have "log_inv view s'"
    proof -
      define J where "J = concat (map job_entries (jobs s))"
      have J: "distinct (map fst J)" "fst ` set (batch_entries b) \<inter> fst ` set J = {}" "\<forall>(i, x) \<in> set J. bget (pending s) i = Some x"
        using inv by (auto simp: log_inv_def s_out J_def [symmetric])
      then have "\<forall>(i, x) \<in> set J. bget (pending s') i = Some x" by (force simp: pend)
      with J(1) finish show ?thesis unfolding log_inv_def s'_out J_def [symmetric] by simp
    qed
    ultimately show ?thesis by simp
  next
    case (Inl e)
    have "pending s' = pending s" "ls_db s' = ls_db s" using finish Inl by (simp_all add: flush_finish_def)
    then show ?thesis using inv s_out s'_out finish by (auto simp: log_inv_def log_view_def)
  qed
qed

lemma flusher_steps_log:
  assumes "(flusher_step S)\<^sup>*\<^sup>* s s'" and "log_inv view s"
  shows "log_view view s' = log_view view s \<and> log_inv view s'"
  using assms by (induction rule: rtranclp_induct) (auto dest: flusher_step_log)

lemma barrier_log:
  assumes "alive s" and "log_inv view s"
  shows "log_view view (barrier S token s) = log_view view s \<and> log_inv view (barrier S token s)"
proof -
  let ?s = "s\<lparr>jobs := jobs s @ [Barrier token]\<rparr>"
  have "log_inv view ?s" "log_view view ?s = log_view view s"
    using assms(2) by (auto simp: log_inv_def log_view_def in_batch_def stored_def)
  with flusher_steps_log [OF barrier_steps [OF assms(1)]] show ?thesis by metis
qed

end

end
