(* ===== verification/Log_Guarantees.thy ===== *)
theory Log_Guarantees
  imports Log_Refinement
begin

text \<open>
  What the Raft engine gets from the log store: operations act on the log a reader sees, reads
  return it, a completed callback means the entries are in the database, a barrier waits for
  everything queued before it, and the pointers it reports are backed by entries. All statements
  hold for every storage with \<open>storage_contract\<close>, in every interleaving with the flusher thread.
\<close>

section \<open>Operations on the abstract log\<close>

lemma enqueue_ok:
  assumes "enqueue C es cb s = (s', Inr ())"
  shows "\<exists>batch. encode_entries C es = Inr batch \<and> alive s \<and>
    s' = s\<lparr>pending := insert_all batch (pending s), jobs := jobs s @ [Append batch cb]\<rparr>"
  using assms by (cases "encode_entries C es") (auto simp: enqueue_def Let_def split: if_splits)

lemma encode_entries_indices: "encode_entries C es = Inr batch \<Longrightarrow> map fst batch = map (log_index \<circ> entry_log_id) es"
  unfolding encode_entries_def try_map_Inr by (induction es batch rule: list_all2_induct) (auto simp: map_ok_Inr)

lemma view_insert_all:
  "insert_all (entries (insert_all batch p)) m = insert_all batch (insert_all (entries p) m)"
  by (rule btree_eqI) (simp add: bget_insert_all map_of_rev_entries cong: option.case_cong split: option.splits)

lemma enqueue_view:
  "enqueue C es cb s = (s', Inr ()) \<Longrightarrow> encode_entries C es = Inr batch \<Longrightarrow> log_view view s' = insert_all batch (log_view view s)"
  by (auto dest!: enqueue_ok simp: log_view_def view_insert_all)

text \<open>Raft appends entries that are not in the log yet, with distinct indices.\<close>

definition fresh_entries :: "('s \<Rightarrow> log_table \<times> meta_table) \<Rightarrow> 'm Entry list \<Rightarrow> 's LogStore \<Rightarrow> bool" where
  "fresh_entries view es s \<longleftrightarrow> distinct (map (log_index \<circ> entry_log_id) es) \<and>
     (\<forall>e \<in> set es. bget (log_view view s) (log_index (entry_log_id e)) = None)"

lemma in_batch_enqueue:
  "in_batch f g (s\<lparr>pending := p, jobs := jobs s @ [j]\<rparr>) = in_batch f g s @ g j"
  by (simp add: in_batch_def)

lemma enqueue_inv:
  assumes "enqueue C es cb s = (s', Inr ())" and "log_inv view s" and "fresh_entries view es s"
  shows "log_inv view s'"
proof -
  obtain batch where b: "encode_entries C es = Inr batch"
      and s': "s' = s\<lparr>pending := insert_all batch (pending s), jobs := jobs s @ [Append batch cb]\<rparr>"
    using enqueue_ok [OF assms(1)] by blast
  have idx: "map fst batch = map (log_index \<circ> entry_log_id) es" by (rule encode_entries_indices [OF b])
  have d: "distinct (map fst batch)" using assms(3) by (simp add: idx fresh_entries_def)
  have "fst ` set batch = (log_index \<circ> entry_log_id) ` set es" using idx by (metis list.set_map)
  then have new: "i \<in> fst ` set batch \<Longrightarrow> bget (pending s) i = None" for i
    using assms(3) by (auto simp: fresh_entries_def bget_log_view split: option.splits)
  have out: "outstanding s' = outstanding s @ batch" by (simp add: s' in_batch_enqueue)
  have old: "(i, x) \<in> set (outstanding s) \<Longrightarrow> bget (pending s) i = Some x" for i x using assms(2) by (auto simp: log_inv_def)
  have disj: "fst ` set (outstanding s) \<inter> fst ` set batch = {}" using new old by fastforce
  have "bget (pending s') i = Some x" if "(i, x) \<in> set (outstanding s')" for i x
  proof (cases "i \<in> fst ` set batch")
    case True
    have "(i, x) \<notin> set (outstanding s)"
    proof
      assume "(i, x) \<in> set (outstanding s)"
      then have "i \<in> fst ` set (outstanding s)" by force
      with True disj show False by blast
    qed
    then have "(i, x) \<in> set batch" using that by (simp add: out)
    then show ?thesis using d by (simp add: s' bget_insert_distinct)
  next
    case False
    then have "map_of batch i = None" by (simp add: map_of_eq_None_iff)
    moreover have "(i, x) \<in> set (outstanding s)" using that False by (force simp: out)
    ultimately show ?thesis using d old by (simp add: s' bget_insert_distinct)
  qed
  moreover have "distinct (map fst (outstanding s'))" using disj d assms(2) by (auto simp: out log_inv_def)
  moreover have "flusher s' = flusher s" "ls_db s' = ls_db s" by (simp_all add: s')
  ultimately show ?thesis using assms(2) by (auto simp: log_inv_def stored_def)
qed

context storage_contract
begin

lemma truncate_view:
  assumes "alive s" and "log_inv view s" and "truncate S token lid s = (s', Inr ())"
  shows "log_view view s' = bretain (\<lambda>k _. k < log_index lid) (log_view view s)"
proof -
  let ?b = "barrier S token s"
  obtain db where t: "truncate_log_from S (log_index lid) (ls_db ?b) = (db, Inr ())"
      and s': "s' = ?b\<lparr>pending := bretain (\<lambda>k _. k < log_index lid) (pending ?b), ls_db := db\<rparr>"
    using assms(3) by (auto simp: truncate_def Let_def split: prod.splits)
  have "view db = apfst (bretain (\<lambda>k _. k < log_index lid)) (view (ls_db ?b))"
    using truncate_log_from t by (auto simp: effect_def)
  then have "log_view view s' = bretain (\<lambda>k _. k < log_index lid) (log_view view ?b)"
    by (intro btree_eqI) (auto simp: bget_log_view s' bget_retain split: option.splits)
  then show ?thesis using barrier_log [OF assms(1,2)] by simp
qed

lemma last_index_view: "last_index S s = Inr l \<Longrightarrow> l = blast_key (log_view view s)"
proof -
  assume "last_index S s = Inr l"
  then have l: "l = max_option (blast_key (fst (view (ls_db s)))) (blast_key (pending s))"
    using last_log_index by (auto simp: last_index_def map_ok_Inr pending_last_def answers_def)
  have dom: "bget (log_view view s) i \<noteq> None \<longleftrightarrow> bget (fst (view (ls_db s))) i \<noteq> None \<or> bget (pending s) i \<noteq> None" for i
    by (simp add: bget_log_view split: option.splits)
  show "l = blast_key (log_view view s)"
  proof (cases l)
    case None
    then have "bget (fst (view (ls_db s))) i = None" "bget (pending s) i = None" for i
      using l by (auto simp: blast_key_None bis_empty_iff)
    with dom have "bis_empty (log_view view s)" by (simp add: bis_empty_iff)
    with None show ?thesis by (metis blast_key_None)
  next
    case (Some i)
    have "blast_key (log_view view s) = Some i"
      unfolding blast_key_Some dom using l Some
      by (cases "blast_key (fst (view (ls_db s)))"; cases "blast_key (pending s)")
         (auto simp: blast_key_Some blast_key_None bis_empty_iff max_def split: if_splits)
    with Some show ?thesis by simp
  qed
qed

lemma merged_range_view:
  assumes "merged_range S start stop s s = Inr merged"
  shows "entries merged = brange start stop (log_view view s)"
proof -
  have m: "merged = insert_all (brange start stop (pending s)) (insert_all (brange start stop (fst (view (ls_db s)))) bempty)"
    using assms read_log by (auto simp: merged_range_def map_ok_Inr answers_def)
  have br: "brange start stop t = entries (bretain (\<lambda>k _. start \<le> k \<and> k < stop) t)" for t :: log_table
    by (simp add: brange_def bretain.rep_eq)
  have "merged = bretain (\<lambda>k _. start \<le> k \<and> k < stop) (log_view view s)"
    unfolding m br by (rule btree_eqI) (simp add: bget_insert_all map_of_rev_entries bget_retain bget_log_view split: option.splits)
  then show ?thesis by (simp add: br)
qed

end

section \<open>Properties of the operations\<close>

text \<open>(C20) The log store refines a plain ordered log, for every storage that meets the contract: an append adds its
  encoded entries, a truncation drops the entries from its index on, and no action of the flusher
  thread changes the log a reader sees.\<close>

theorem log_store_refines:
  assumes "storage_contract S view" and "log_inv view s"
  shows "(append C es cb s = (s', Inr ()) \<longrightarrow>
      (\<exists>batch. encode_entries C es = Inr batch \<and> log_view view s' = insert_all batch (log_view view s))) \<and>
    (alive s \<and> truncate S token lid s = (s', Inr ()) \<longrightarrow>
      log_view view s' = bretain (\<lambda>k _. k < log_index lid) (log_view view s)) \<and>
    (flusher_step S s s' \<longrightarrow> log_view view s' = log_view view s)"
  using enqueue_ok [of C es "Some cb" s s'] enqueue_view [of C es "Some cb" s s'] storage_contract.truncate_view [OF assms(1) _ assms(2)]
    storage_contract.flusher_step_log [OF assms(1) _ assms(2)]
  by (auto simp: append_def)

definition sample_entry :: "u64 \<Rightarrow> unit Entry" where
  "sample_entry i = \<lparr>entry_log_id = \<lparr>leader_term = 0, leader_node = 0, log_index = i\<rparr>, payload = Blank\<rparr>"

definition sample_codec :: "unit Entry codec" where
  "sample_codec = \<lparr>
     encode = (\<lambda>e. if e = sample_entry 1 then Inr [1] else if e = sample_entry 2 then Inr [2] else Inl []),
     decode = (\<lambda>b. if b = [1] then Inr (sample_entry 1) else if b = [2] then Inr (sample_entry 2) else Inl [])\<rparr>"

lemma sample_codec_ok: "codec_ok sample_codec"
  by (auto simp: codec_ok_def sample_codec_def split: if_splits)

definition sample_log :: "MemStore LogStore" where
  "sample_log = fst (append sample_codec [sample_entry 1, sample_entry 2] 7 (log_store_new mem_default))"

lemmas log_eval = append_def enqueue_def encode_entries_def enc_def log_store_new_def mem_default_def sample_codec_def sample_entry_def
  insert_all_def truncate_def barrier_def settle_def drain.simps flush_round_def flush_collect_def flush_write_def flush_finish_def
  remove_all_def FLUSH_MAX_ENTRIES_def FLUSH_MAX_BYTES_def mem_defs

lemma sample_log_eq:
  "sample_log = \<lparr>ls_db = mem_default, pending = bliteral [(1, [1]), (2, [2])], jobs = [Append [(1, [1]), (2, [2])] (Some 7)],
     flusher = Idle, completed = [], signalled = [], alive = True\<rparr>"
  by (simp add: sample_log_def log_eval btree_eval)

lemma sample_log_inv: "log_inv mem_view sample_log"
  by (simp add: log_inv_def sample_log_eq in_batch_def btree_eval)

theorem log_store_refines_witness:
  "\<exists>s'. truncate mem_storage 0 \<lparr>leader_term = 0, leader_node = 0, log_index = 2\<rparr> sample_log = (s', Inr ()) \<and>
     log_view mem_view s' = bretain (\<lambda>k _. k < 2) (log_view mem_view sample_log)"
proof -
  obtain s' where "truncate mem_storage 0 \<lparr>leader_term = 0, leader_node = 0, log_index = 2\<rparr> sample_log = (s', Inr ())"
    by (simp add: truncate_def Let_def mem_defs)
  moreover have "alive sample_log" by (simp add: sample_log_eq)
  ultimately show ?thesis
    using log_store_refines [OF mem_store.storage_contract_axioms sample_log_inv, where token = 0] by fastforce
qed

text \<open>Reads return the log: when a read of a range succeeds, it gives the decoded entries of exactly the
  indices of that range, in order, whether they are still pending or already stored.\<close>

lemma reads_return_log:
  assumes "storage_contract S view"
    and "try_get_log_entries S C (Included start) (Excluded stop) s = Some (Inr es)"
  shows "list_all2 (\<lambda>(_, b) e. dec C b = Inr e) (brange start stop (log_view view s)) es"
proof -
  obtain merged where m: "merged_range S start stop s s = Inr merged" and es: "try_map (dec C) (bvalues merged) = Inr es"
    using assms(2) by (auto simp: try_get_log_entries_def read_entries_def split: sum.splits if_splits)
  have "list_all2 (\<lambda>b e. dec C b = Inr e) (map snd (brange start stop (log_view view s))) es"
    using es storage_contract.merged_range_view [OF assms(1) m] by (simp add: try_map_Inr bvalues_def)
  then show ?thesis by (simp add: list.rel_map case_prod_unfold)
qed

text \<open>(C21) What was appended is what is read: appended entries with increasing indices come back equal from a
  read of their range, after any number of flusher actions.\<close>

theorem append_read_roundtrip:
  assumes "storage_contract S view" and "codec_ok C" and "log_inv view s" and "fresh_entries view es s"
    and "append C es cb s = (s1, Inr ())" and "(flusher_step S)\<^sup>*\<^sup>* s1 s2"
    and "sorted_wrt (<) (map (log_index \<circ> entry_log_id) es)"
    and "\<forall>i. start \<le> i \<and> i < stop \<longleftrightarrow> i \<in> (log_index \<circ> entry_log_id) ` set es"
    and "try_get_log_entries S C (Included start) (Excluded stop) s2 = Some (Inr xs)"
  shows "xs = es"
proof -
  note enq = assms(5) [unfolded append_def]
  obtain batch where b: "encode_entries C es = Inr batch" using enqueue_ok [OF enq] by blast
  note idx = encode_entries_indices [OF b]
  have d: "distinct (map fst batch)" using assms(4) by (simp add: idx fresh_entries_def)
  have view2: "log_view view s2 = insert_all batch (log_view view s)"
    using storage_contract.flusher_steps_log [OF assms(1,6) enqueue_inv [OF enq assms(3,4)]] enqueue_view [OF enq b] by simp
  have keys: "(start \<le> i \<and> i < stop) \<longleftrightarrow> i \<in> fst ` set batch" for i
    using assms(8) idx by (metis list.set_map)
  have "set (brange start stop (log_view view s2)) = set batch"
    unfolding set_brange view2 keys by (force simp: bget_insert_distinct [OF d] d map_of_eq_None_iff split: option.splits)
  then have "brange start stop (log_view view s2) = batch"
    using assms(7) by (intro sorted_by_key_unique sorted_brange) (simp_all add: idx)
  then have "list_all2 (\<lambda>(_, b) e. dec C b = Inr e) batch xs"
    using storage_contract.merged_range_view [OF assms(1)] assms(9)
    by (auto simp: try_get_log_entries_def read_entries_def try_map_Inr bvalues_def list.rel_map case_prod_unfold split: sum.splits if_splits)
  moreover have "list_all2 (\<lambda>e (_, b). dec C b = Inr e) es batch"
    using b unfolding encode_entries_def try_map_Inr
    by (rule list_all2_mono) (auto simp: map_ok_Inr dec_enc [OF assms(2)])
  ultimately show ?thesis
    by (auto simp: list_all2_conv_all_nth intro!: nth_equalityI split: prod.splits)
qed

lemma new_log_fresh: "fresh_entries mem_view [sample_entry 1, sample_entry 2] (log_store_new mem_default)"
  by (simp add: fresh_entries_def log_view_def mem_view_def log_store_new_def mem_default_def sample_entry_def)

lemma sample_log_append: "append sample_codec [sample_entry 1, sample_entry 2] 7 (log_store_new mem_default) = (sample_log, Inr ())"
  by (simp add: sample_log_def log_eval)

theorem append_read_roundtrip_witness:
  "try_get_log_entries mem_storage sample_codec (Included 1) (Excluded 3) sample_log = Some (Inr [sample_entry 1, sample_entry 2])"
proof -
  have "(\<forall>i :: u64. 1 \<le> i \<and> i < 3 \<longleftrightarrow> i \<in> (log_index \<circ> entry_log_id) ` set [sample_entry 1, sample_entry 2])"
    by (auto simp: sample_entry_def word_le_nat_alt word_less_nat_alt word_unat_eq_iff)
  moreover obtain xs where xs: "try_get_log_entries mem_storage sample_codec (Included 1) (Excluded 3) sample_log = Some (Inr xs)"
    by (simp add: try_get_log_entries_def read_entries_def merged_range_def sample_log_eq log_eval btree_eval dec_def)
  ultimately have "xs = [sample_entry 1, sample_entry 2]"
    by (intro append_read_roundtrip [OF mem_store.storage_contract_axioms sample_codec_ok log_inv_new new_log_fresh sample_log_append
          rtranclp.rtrancl_refl])
       (simp_all add: sample_entry_def)
  with xs show ?thesis by simp
qed

section \<open>Callbacks and barriers\<close>

text \<open>(C23) A barrier always returns, and when it does the channel is empty and the flusher idle: every callback
  queued before it has been answered, in the order of the appends and once each, its own channel has
  been signalled, and the log is unchanged.\<close>

theorem barrier_waits:
  assumes "storage_contract S view" and "log_inv view s" and "alive s"
  shows "jobs (barrier S token s) = [] \<and> flusher (barrier S token s) = Idle \<and>
    map fst (completed (barrier S token s)) = map fst (completed s) @ owed_callbacks s \<and>
    token \<in> set (signalled (barrier S token s)) \<and> log_view view (barrier S token s) = log_view view s"
proof -
  let ?s = "s\<lparr>jobs := jobs s @ [Barrier token]\<rparr>" and ?b = "barrier S token s"
  have q: "owed_callbacks ?s = owed_callbacks s" "owed_barriers ?s = owed_barriers s @ [token]"
    by (simp_all add: in_batch_def)
  note ans = flusher_steps_answers [OF barrier_steps [OF assms(3), of S token]]
  have fin: "jobs ?b = []" "flusher ?b = Idle" using barrier_done [OF assms(3), of S token] by auto
  then have "owed_callbacks ?b = []" "owed_barriers ?b = []" by (simp_all add: outstanding_done)
  with ans q have "map fst (completed ?b) = map fst (completed s) @ owed_callbacks s" "token \<in> set (signalled ?b)" by auto
  with fin storage_contract.barrier_log [OF assms(1,3,2)] show ?thesis by blast
qed

theorem barrier_waits_witness: "map fst (completed (barrier mem_storage 0 sample_log)) = [7]"
  using barrier_waits [OF mem_store.storage_contract_axioms sample_log_inv, of 0]
  by (simp add: sample_log_eq in_batch_def)

inductive log_step :: "'s Storage \<Rightarrow> 'm Entry codec \<Rightarrow> ('s \<Rightarrow> log_table \<times> meta_table) \<Rightarrow> 's LogStore \<Rightarrow> 's LogStore \<Rightarrow> bool"
  for S C view where
  flush: "flusher_step S s s' \<Longrightarrow> log_step S C view s s'"
| appended: "append C es cb s = (s', Inr ()) \<Longrightarrow> fresh_entries view es s \<Longrightarrow> cb \<notin> set (map fst (completed s) @ owed_callbacks s) \<Longrightarrow>
    log_step S C view s s'"

definition log_ok :: "('s \<Rightarrow> log_table \<times> meta_table) \<Rightarrow> 's LogStore \<Rightarrow> bool" where
  "log_ok view s \<longleftrightarrow> log_inv view s \<and> distinct (map fst (completed s) @ owed_callbacks s)"

text \<open>Where an append is: queued, in the flusher's hands, or answered.\<close>

definition queued :: "nat \<Rightarrow> log_bytes \<Rightarrow> 's LogStore \<Rightarrow> bool" where
  "queued cb batch s \<longleftrightarrow> Append batch (Some cb) \<in> set (jobs s)"

definition in_flush :: "nat \<Rightarrow> log_bytes \<Rightarrow> 's LogStore \<Rightarrow> bool" where
  "in_flush cb batch s \<longleftrightarrow> (\<exists>b. (flusher s = Collected b \<or> (\<exists>r. flusher s = Written b r)) \<and>
     cb \<in> set (batch_callbacks b) \<and> set batch \<subseteq> set (batch_entries b))"

definition settled :: "('s \<Rightarrow> log_table \<times> meta_table) \<Rightarrow> nat \<Rightarrow> log_bytes \<Rightarrow> 's LogStore \<Rightarrow> bool" where
  "settled view cb batch s \<longleftrightarrow> (\<exists>r. (cb, r) \<in> set (completed s) \<and>
     (r = Inr () \<longrightarrow> stored view batch s \<and> fst ` set batch \<inter> fst ` set (outstanding s) = {}))"

lemma settled_mono:
  assumes "settled view cb batch s" and "set (completed s) \<subseteq> set (completed s')"
    and "stored view batch s \<Longrightarrow> fst ` set batch \<inter> fst ` set (outstanding s) = {} \<Longrightarrow>
      stored view batch s' \<and> fst ` set batch \<inter> fst ` set (outstanding s') = {}"
  shows "settled view cb batch s'"
proof -
  obtain r where "(cb, r) \<in> set (completed s)"
      "r = Inr () \<Longrightarrow> stored view batch s \<and> fst ` set batch \<inter> fst ` set (outstanding s) = {}"
    using assms(1) by (auto simp: settled_def)
  with assms(2,3) show ?thesis unfolding settled_def by (intro exI [of _ r]) auto
qed

lemma collect_keeps:
  assumes "collect js batch cbs nbytes = (b, rest)"
  shows "set batch \<subseteq> set (batch_entries b) \<and> set cbs \<subseteq> set (batch_callbacks b)"
  using assms
proof (induction js arbitrary: batch cbs nbytes)
  case (Cons j js)
  show ?case
  proof (cases j)
    case (Append es cb)
    with Cons.prems Cons.IH [of "batch @ es" "cbs @ (case cb of None \<Rightarrow> [] | Some c \<Rightarrow> [c])" "nbytes + sum_list (map (length \<circ> snd) es)"]
    show ?thesis by (auto simp: Let_def split: if_splits)
  qed (use Cons.prems in auto)
qed auto

lemma collect_job:
  assumes "collect js batch cbs nbytes = (b, rest)" and "Append es (Some cb) \<in> set js"
  shows "Append es (Some cb) \<in> set rest \<or> cb \<in> set (batch_callbacks b) \<and> set es \<subseteq> set (batch_entries b)"
  using assms
proof (induction js arbitrary: batch cbs nbytes)
  case (Cons j js)
  show ?case
  proof (cases j)
    case (Append es' cb')
    let ?n = "nbytes + sum_list (map (length \<circ> snd) es')" and ?cbs = "cbs @ (case cb' of None \<Rightarrow> [] | Some c \<Rightarrow> [c])"
    show ?thesis
    proof (cases "length (batch @ es') \<ge> FLUSH_MAX_ENTRIES \<or> ?n \<ge> FLUSH_MAX_BYTES")
      case True
      with Append Cons.prems show ?thesis by (auto simp: Let_def)
    next
      case False
      with Append Cons.prems(1) have "collect js (batch @ es') ?cbs ?n = (b, rest)" by (simp add: Let_def)
      with collect_keeps [OF this] Cons.IH [OF this] Cons.prems(2) Append show ?thesis by auto
    qed
  qed (use Cons.prems in auto)
qed auto

context storage_contract
begin

lemma flusher_step_settles:
  assumes "flusher_step S s s'" and inv: "log_inv view s" and "queued cb batch s \<or> in_flush cb batch s \<or> settled view cb batch s"
  shows "queued cb batch s' \<or> in_flush cb batch s' \<or> settled view cb batch s'"
  using assms(1)
proof cases
  case (recv n)
  obtain b rest where c: "collect (take n (jobs s)) [] [] 0 = (b, rest)" by fastforce
  have s': "jobs s' = rest @ drop n (jobs s)" "flusher s' = Collected b" using recv by (simp_all add: flush_collect_def c)
  have "queued cb batch s \<Longrightarrow> queued cb batch s' \<or> in_flush cb batch s'"
    using collect_job [OF c, of batch cb] append_take_drop_id [of n "jobs s"] unfolding queued_def in_flush_def s'
    by (metis Un_iff set_append)
  moreover have "settled view cb batch s \<Longrightarrow> settled view cb batch s'"
    using recv by (auto simp: settled_def stored_def flush_collect_in_batch)
  moreover have "\<not> in_flush cb batch s" using recv by (simp add: in_flush_def)
  ultimately show ?thesis using assms(3) by blast
next
  case (store b)
  obtain result where w: "flusher (flush_write S b s) = Written b result" using flush_write_frame(6) by blast
  have out: "outstanding s' = outstanding s" using store w by (simp add: in_batch_def)
  have d: "distinct (map fst (batch_entries b))" using inv store by (auto simp: log_inv_def in_batch_def)
  have "stored view batch s'" if st: "stored view batch s" and disj: "fst ` set batch \<inter> fst ` set (outstanding s) = {}"
  proof -
    have "map_of (batch_entries b) i = None" if "(i, x) \<in> set batch" for i x
    proof -
      have "i \<in> fst ` set batch" using that by force
      then show ?thesis using disj store by (auto simp: map_of_eq_None_iff in_batch_def)
    qed
    with st d show ?thesis using store(1) flush_write_db [OF w]
      by (cases result) (auto simp: stored_def bget_insert_distinct split: prod.splits)
  qed
  then have "settled view cb batch s \<Longrightarrow> settled view cb batch s'" using store(1) out by (auto simp: settled_def)
  moreover have "queued cb batch s \<Longrightarrow> queued cb batch s'" "in_flush cb batch s \<Longrightarrow> in_flush cb batch s'"
    using store w by (auto simp: queued_def in_flush_def)
  ultimately show ?thesis using assms(3) by blast
next
  case (finish b result)
  let ?J = "concat (map job_entries (jobs s))"
  have out: "outstanding s = batch_entries b @ ?J" "outstanding s' = ?J" using finish by (simp_all add: in_batch_def)
  have disj: "fst ` set (batch_entries b) \<inter> fst ` set ?J = {}"
    using inv unfolding log_inv_def out(1) map_append distinct_append by simp
  have "settled view cb batch s'" if "in_flush cb batch s"
  proof -
    have cb: "cb \<in> set (batch_callbacks b)" and sub: "set batch \<subseteq> set (batch_entries b)"
      using that finish by (auto simp: in_flush_def)
    show ?thesis
    proof (cases result)
      case (Inr u)
      then have "stored view (batch_entries b) s" using inv finish by (auto simp: log_inv_def)
      then have "stored view batch s'" using sub finish by (auto simp: stored_def)
      moreover have "fst ` set batch \<inter> fst ` set (outstanding s') = {}" using disj sub unfolding out by blast
      moreover have "(cb, Inr ()) \<in> set (completed s')" using cb finish Inr by (auto simp: flush_finish_def)
      ultimately show ?thesis by (auto simp: settled_def)
    next
      case (Inl e)
      then have "(cb, Inl (display_error e)) \<in> set (completed s')" using cb finish by (auto simp: flush_finish_def)
      then show ?thesis unfolding settled_def by blast
    qed
  qed
  moreover have "settled view cb batch s \<Longrightarrow> settled view cb batch s'"
  proof (rule settled_mono)
    show "set (completed s) \<subseteq> set (completed s')" using finish by (auto simp: flush_finish_def split: sum.splits)
    show "stored view batch s' \<and> fst ` set batch \<inter> fst ` set (outstanding s') = {}"
      if "stored view batch s" "fst ` set batch \<inter> fst ` set (outstanding s) = {}"
      using that finish(1) unfolding out by (auto simp: stored_def)
  qed
  moreover have "queued cb batch s \<Longrightarrow> queued cb batch s'" using finish by (simp add: queued_def)
  ultimately show ?thesis using assms(3) by blast
qed

lemma append_settles:
  assumes "append C es cb' s = (s', Inr ())" and "fresh_entries view es s"
    and "queued cb batch s \<or> in_flush cb batch s \<or> settled view cb batch s"
  shows "queued cb batch s' \<or> in_flush cb batch s' \<or> settled view cb batch s'"
proof -
  obtain new where b: "encode_entries C es = Inr new"
      and s': "s' = s\<lparr>pending := insert_all new (pending s), jobs := jobs s @ [Append new (Some cb')]\<rparr>"
    using enqueue_ok [OF assms(1) [unfolded append_def]] by blast
  have out: "outstanding s' = outstanding s @ new" by (simp add: s' in_batch_enqueue)
  have frame: "completed s' = completed s" "ls_db s' = ls_db s" by (simp_all add: s')
  have "fst ` set new = (log_index \<circ> entry_log_id) ` set es" using encode_entries_indices [OF b] by (metis list.set_map)
  then have new: "i \<in> fst ` set new \<Longrightarrow> bget (log_view view s) i = None" for i using assms(2) by (auto simp: fresh_entries_def)
  have "fst ` set batch \<inter> fst ` set new = {}" if "stored view batch s"
  proof -
    have "bget (log_view view s) i \<noteq> None" if "i \<in> fst ` set batch" for i
      using that \<open>stored view batch s\<close> by (auto simp: stored_def bget_log_view split: option.splits)
    with new show ?thesis by blast
  qed
  then have "settled view cb batch s'" if "settled view cb batch s"
    using that by (elim settled_mono) (simp_all add: out frame Int_Un_distrib image_Un stored_def)
  moreover have "queued cb batch s \<Longrightarrow> queued cb batch s'" "in_flush cb batch s \<Longrightarrow> in_flush cb batch s'"
    by (auto simp: queued_def in_flush_def s')
  ultimately show ?thesis using assms(3) by blast
qed

lemma log_step_ok:
  assumes "log_step S C view s s'" and "log_ok view s"
  shows "log_ok view s'"
  using assms(1)
proof cases
  case flush
  with assms(2) show ?thesis using flusher_step_log [OF flush] flusher_step_answers(1) [OF flush] by (simp add: log_ok_def)
next
  case (appended es cb)
  note enq = appended(1) [unfolded append_def]
  have "completed s' = completed s" "owed_callbacks s' = owed_callbacks s @ [cb]"
    using enqueue_ok [OF enq] by (auto simp: in_batch_enqueue)
  with appended assms(2) enqueue_inv [OF enq _ appended(2)] show ?thesis by (auto simp: log_ok_def)
qed

lemma log_steps_settle:
  assumes "(log_step S C view)\<^sup>*\<^sup>* s s'" and "log_ok view s" and "queued cb batch s \<or> in_flush cb batch s \<or> settled view cb batch s"
  shows "log_ok view s' \<and> (queued cb batch s' \<or> in_flush cb batch s' \<or> settled view cb batch s')"
  using assms(1)
proof (induction rule: rtranclp_induct)
  case (step s1 s2)
  from step.hyps(2) step.IH show ?case
  proof cases
    case flush
    with step.IH show ?thesis using log_step_ok [OF step.hyps(2)] flusher_step_settles [OF flush, of cb batch] by (simp add: log_ok_def)
  next
    case (appended es cb')
    with step.IH show ?thesis using log_step_ok [OF step.hyps(2)] append_settles [OF appended(1,2), of cb batch] by simp
  qed
qed (use assms in simp)

end

lemma owed_not_completed:
  assumes "log_ok view s" and "queued cb batch s \<or> in_flush cb batch s"
  shows "(cb, r) \<notin> set (completed s)"
proof
  assume "(cb, r) \<in> set (completed s)"
  then have "cb \<in> set (map fst (completed s))" by force
  moreover have "cb \<in> set (owed_callbacks s)"
    using assms(2) by (force simp: queued_def in_flush_def in_batch_def)
  ultimately show False using assms(1) by (auto simp: log_ok_def)
qed

text \<open>(C22) A callback that reports success is a promise kept: from then on the entries of its append are in the
  database, whatever further appends and flushes run, until they are truncated or purged.\<close>

theorem completed_is_durable:
  assumes "storage_contract S view" and "log_ok view s" and "fresh_entries view es s"
    and "cb \<notin> set (map fst (completed s) @ owed_callbacks s)" and "append C es cb s = (s1, Inr ())"
    and "(log_step S C view)\<^sup>*\<^sup>* s1 s2" and "(cb, Inr ()) \<in> set (completed s2)"
  shows "\<forall>e \<in> set es. \<exists>b. enc C e = Inr b \<and> bget (fst (view (ls_db s2))) (log_index (entry_log_id e)) = Some b"
proof -
  obtain batch where b: "encode_entries C es = Inr batch" and s1: "jobs s1 = jobs s @ [Append batch (Some cb)]"
    using enqueue_ok [OF assms(5) [unfolded append_def]] by auto
  have "log_ok view s1" by (rule storage_contract.log_step_ok [OF assms(1) log_step.appended [OF assms(5,3,4)] assms(2)])
  moreover have "queued cb batch s1" by (simp add: queued_def s1)
  ultimately have ok2: "log_ok view s2" and "queued cb batch s2 \<or> in_flush cb batch s2 \<or> settled view cb batch s2"
    using storage_contract.log_steps_settle [OF assms(1,6)] by blast+
  then have "settled view cb batch s2" using owed_not_completed assms(7) by blast
  then obtain r where r: "(cb, r) \<in> set (completed s2)" "r = Inr () \<longrightarrow> stored view batch s2" by (auto simp: settled_def)
  have "distinct (map fst (completed s2))" using ok2 by (simp add: log_ok_def)
  then have "r = Inr ()" using r(1) assms(7) by (metis eq_key_imp_eq_value)
  with r have st: "stored view batch s2" by blast
  have "list_all2 (\<lambda>e ib. enc C e = Inr (snd ib) \<and> fst ib = log_index (entry_log_id e)) es batch"
    using b unfolding encode_entries_def try_map_Inr by (rule list_all2_mono) (auto simp: map_ok_Inr)
  then have "\<forall>e \<in> set es. \<exists>ib \<in> set batch. enc C e = Inr (snd ib) \<and> fst ib = log_index (entry_log_id e)"
    by (induction rule: list_all2_induct) auto
  then show ?thesis using st by (fastforce simp: stored_def)
qed

lemma log_ok_new: "log_ok view (log_store_new db)"
  using log_inv_new [of view db] by (simp add: log_ok_def log_store_new_def in_batch_def)

lemma sample_log_flush:
  "\<exists>s. (flusher_step mem_storage)\<^sup>*\<^sup>* sample_log s \<and> completed s = [(7, Inr ())] \<and> pending s = bempty \<and>
     ls_db s = mem_default\<lparr>mem_log := bliteral [(1, [1]), (2, [2])]\<rparr>"
proof (intro exI conjI)
  show "(flusher_step mem_storage)\<^sup>*\<^sup>* sample_log (flush_round mem_storage sample_log)"
    by (rule flush_round_steps) (simp_all add: sample_log_eq)
qed (simp_all add: sample_log_eq log_eval btree_eval)

theorem completed_is_durable_witness:
  "\<exists>s2. (flusher_step mem_storage)\<^sup>*\<^sup>* sample_log s2 \<and> bget (fst (mem_view (ls_db s2))) 2 = Some [2]"
proof -
  obtain s2 where steps: "(flusher_step mem_storage)\<^sup>*\<^sup>* sample_log s2" and c: "(7, Inr ()) \<in> set (completed s2)"
    using sample_log_flush by force
  have "(log_step mem_storage sample_codec mem_view)\<^sup>*\<^sup>* sample_log s2"
    using steps by (induction rule: rtranclp_induct) (auto intro: rtranclp.rtrancl_into_rtrancl log_step.flush)
  from completed_is_durable [OF mem_store.storage_contract_axioms log_ok_new new_log_fresh _ sample_log_append this c]
  have "\<exists>b. enc sample_codec (sample_entry 2) = Inr b \<and> bget (fst (mem_view (ls_db s2))) 2 = Some b"
    by (simp add: log_store_new_def in_batch_def sample_entry_def)
  with steps show ?thesis by (auto simp: sample_codec_def enc_def sample_entry_def)
qed

text \<open>(C24) Reads are not atomic. A read takes the database first and the pending map second; when the flusher
  writes a batch and forgets it between the two, an entry that is in the log before, during and
  after the read is missing from its result.\<close>

theorem read_race_loses_entry:
  "\<exists>s s'. (log_step mem_storage sample_codec mem_view)\<^sup>*\<^sup>* (log_store_new mem_default) s \<and> (flusher_step mem_storage)\<^sup>*\<^sup>* s s' \<and>
     bget (log_view mem_view s) 1 = Some [1] \<and> bget (log_view mem_view s') 1 = Some [1] \<and>
     read_entries mem_storage sample_codec 1 2 s s' = Some (Inr [])"
proof -
  obtain s' where steps: "(flusher_step mem_storage)\<^sup>*\<^sup>* sample_log s'" and s': "pending s' = bempty"
    using sample_log_flush by blast
  have "log_step mem_storage sample_codec mem_view (log_store_new mem_default) sample_log"
    by (rule log_step.appended [OF sample_log_append new_log_fresh]) (simp add: log_store_new_def in_batch_def)
  moreover have v: "bget (log_view mem_view sample_log) 1 = Some [1]"
    by (simp add: sample_log_eq bget_log_view btree_eval)
  moreover have "bget (log_view mem_view s') 1 = Some [1]"
    using mem_store.flusher_steps_log [OF steps sample_log_inv] v by simp
  moreover have "read_entries mem_storage sample_codec 1 2 sample_log s' = Some (Inr [])"
    by (simp add: read_entries_def merged_range_def sample_log_eq s' log_eval btree_eval)
  ultimately show ?thesis using steps by blast
qed

section \<open>Purging and the reported pointers\<close>

definition purged_of :: "LogId codec \<Rightarrow> ('s \<Rightarrow> log_table \<times> meta_table) \<Rightarrow> 's LogStore \<Rightarrow> LogId option" where
  "purged_of C view s = (case bget (snd (view (ls_db s))) KEY_PURGED of
     None \<Rightarrow> None
   | Some b \<Rightarrow> (case decode C b of Inl _ \<Rightarrow> None | Inr p \<Rightarrow> Some p))"

definition purge_inv :: "LogId codec \<Rightarrow> ('s \<Rightarrow> log_table \<times> meta_table) \<Rightarrow> 's LogStore \<Rightarrow> bool" where
  "purge_inv C view s \<longleftrightarrow> (\<forall>p i. purged_of C view s = Some p \<and> i \<le> log_index p \<longrightarrow> bget (log_view view s) i = None)"

lemma word_less_succ:
  fixes x y :: "'a::len word"
  assumes "x \<noteq> - 1"
  shows "x + 1 \<le> y \<longleftrightarrow> x < y"
proof -
  have "unat (x + 1) = unat x + 1" using assms by (simp add: word_not_max_iff unat_word_ariths)
  then show ?thesis by (simp add: word_le_nat_alt word_less_nat_alt Suc_le_eq)
qed

context storage_contract
begin

lemma flusher_step_meta: "flusher_step S s s' \<Longrightarrow> snd (view (ls_db s')) = snd (view (ls_db s))"
proof (erule flusher_stepE)
  fix b assume "s' = flush_write S b s"
  moreover obtain db result where "append_log S (batch_entries b) (ls_db s) = (db, result)" by fastforce
  moreover from this append_log [of "batch_entries b"] have "snd (view db) = snd (view (ls_db s))"
    by (auto simp: effect_def split: sum.splits)
  ultimately show ?thesis by (simp add: flush_write_def)
qed simp_all

lemma barrier_meta: "snd (view (ls_db (barrier S token s))) = snd (view (ls_db s))"
proof (cases "alive s")
  case True
  from barrier_steps [OF this] show ?thesis by (induction rule: rtranclp_induct) (simp_all add: flusher_step_meta)
qed (simp add: barrier_def)

lemma record_purged_ok:
  assumes "record_purged S C lid db = (db', Inr ())"
  shows "\<exists>b. encode C lid = Inr b \<and> view db' = (bretain (\<lambda>k _. k > log_index lid) (fst (view db)), binsert KEY_PURGED b (snd (view db)))"
proof -
  obtain b where b: "enc C lid = Inr b" using assms by (auto simp: record_purged_def split: sum.splits)
  obtain db1 r1 where p: "put S KEY_PURGED b db = (db1, r1)" by fastforce
  with assms b have r1: "r1 = Inr ()" by (cases r1) (auto simp: record_purged_def)
  obtain r2 where "purge_log_upto S (log_index lid) db1 = (db', r2)" "r2 = Inr ()"
    using assms b p r1 by (auto simp: record_purged_def split: prod.splits)
  then have "view db' = apfst (bretain (\<lambda>k _. k > log_index lid)) (view db1)"
    using purge_log_upto [of "log_index lid"] by (auto simp: effect_def)
  moreover have "view db1 = apsnd (binsert KEY_PURGED b) (view db)" using put [of KEY_PURGED b] p r1 by (auto simp: effect_def)
  ultimately show ?thesis using b by (auto simp: enc_def apfst_def apsnd_def map_prod_def split: prod.splits)
qed

lemma mark_purged_ok:
  assumes "mark_purged S C lid db = (db', Inr ())"
  shows "(\<exists>b cur. db' = db \<and> bget (snd (view db)) KEY_PURGED = Some b \<and> decode C b = Inr cur \<and> log_index lid \<le> log_index cur) \<or>
    record_purged S C lid db = (db', Inr ())"
proof -
  obtain g where g: "get S KEY_PURGED db = Inr g" using assms by (cases "get S KEY_PURGED db") (auto simp: mark_purged_def)
  then have "bget (snd (view db)) KEY_PURGED = g" using get [of KEY_PURGED] by (auto simp: answers_def)
  with assms g show ?thesis
    by (cases g) (auto simp: mark_purged_def dec_def map_err_def split: sum.splits if_splits)
qed

lemma purge_ok:
  assumes alive: "alive s" and "log_inv view s" and codec: "codec_ok C" and max: "log_index lid \<noteq> - 1" and pinv: "purge_inv C view s"
    and run: "purge S C token lid s = (s', Inr ())"
  shows "log_view view s' = bretain (\<lambda>k _. k > log_index lid) (log_view view s)" (is "_ = ?cut")
    and "\<exists>p. purged_of C view s' = Some p \<and> log_index lid \<le> log_index p" and "purge_inv C view s'"
proof -
  let ?b = "barrier S token s"
  obtain db where m: "mark_purged S C lid (ls_db ?b) = (db, Inr ())"
      and s': "s' = ?b\<lparr>pending := bsplit_off (log_index lid + 1) (pending ?b), ls_db := db\<rparr>"
    using run by (auto simp: purge_def Let_def split: prod.splits)
  have vb: "log_view view ?b = log_view view s" using barrier_log [OF alive assms(2)] by simp
  have pb: "purged_of C view ?b = purged_of C view s" by (simp add: purged_of_def barrier_meta)
  have "log_view view s' = ?cut \<and> (\<exists>p. purged_of C view s' = Some p \<and> log_index lid \<le> log_index p \<and>
      (\<forall>i. i \<le> log_index p \<longrightarrow> bget (log_view view s') i = None))"
    using mark_purged_ok [OF m]
  proof (elim disjE exE conjE)
    fix b cur
    assume db: "db = ls_db ?b" and b: "bget (snd (view (ls_db ?b))) KEY_PURGED = Some b" "decode C b = Inr cur"
      and le: "log_index lid \<le> log_index cur"
    have cur: "purged_of C view s = Some cur" using b pb by (simp add: purged_of_def)
    then have gone: "i \<le> log_index cur \<Longrightarrow> bget (log_view view s) i = None" for i using pinv by (auto simp: purge_inv_def)
    have "bget (log_view view s') i = (if i \<le> log_index lid then None else bget (log_view view s) i)" for i
    proof -
      have "i \<le> log_index lid \<Longrightarrow> bget (log_view view ?b) i = None" using gone le vb by simp
      then show ?thesis unfolding vb [symmetric] by (auto simp: bget_log_view s' db word_less_succ [OF max, unfolded not_le [symmetric]] split: option.splits)
    qed
    then have view: "log_view view s' = ?cut" by (intro btree_eqI) (auto simp: bget_retain split: option.splits)
    moreover have "purged_of C view s' = Some cur" using cur pb by (simp add: purged_of_def s' db)
    ultimately show ?thesis using le gone by (auto simp: bget_retain)
  next
    assume rec: "record_purged S C lid (ls_db ?b) = (db, Inr ())"
    obtain b where b: "encode C lid = Inr b"
        and v: "view db = (bretain (\<lambda>k _. k > log_index lid) (fst (view (ls_db ?b))), binsert KEY_PURGED b (snd (view (ls_db ?b))))"
      using record_purged_ok [OF rec] by blast
    have "log_view view s' = ?cut" unfolding vb [symmetric]
      by (intro btree_eqI) (auto simp: bget_log_view s' v bget_retain word_less_succ [OF max] split: option.splits)
    moreover have "purged_of C view s' = Some lid" using codec b by (simp add: purged_of_def s' v codec_ok_def)
    ultimately show ?thesis by (auto simp: bget_retain split: option.splits)
  qed
  then show "log_view view s' = ?cut" "\<exists>p. purged_of C view s' = Some p \<and> log_index lid \<le> log_index p" "purge_inv C view s'"
    by (auto simp: purge_inv_def)
qed

end

text \<open>A purge drops exactly the entries up to its index, records a pointer at or above it, and keeps the rule
  that no entry at or below the recorded pointer is in the log.\<close>

theorem purge_drops_prefix:
  assumes "storage_contract S view" and "codec_ok C" and "alive s" and "log_inv view s" and "purge_inv C view s"
    and "log_index lid \<noteq> - 1" and "purge S C token lid s = (s', Inr ())"
  shows "log_view view s' = bretain (\<lambda>k _. k > log_index lid) (log_view view s) \<and>
    (\<exists>p. purged_of C view s' = Some p \<and> log_index lid \<le> log_index p) \<and> purge_inv C view s'"
  using storage_contract.purge_ok [OF assms(1,3,4,2,6,5,7)] by blast

definition sample_log_id :: "u64 \<Rightarrow> LogId" where
  "sample_log_id i = \<lparr>leader_term = 0, leader_node = 0, log_index = i\<rparr>"

definition sample_id_codec :: "LogId codec" where
  "sample_id_codec = \<lparr>encode = (\<lambda>l. if l = sample_log_id 1 then Inr [1] else Inl []),
     decode = (\<lambda>b. if b = [1] then Inr (sample_log_id 1) else Inl [])\<rparr>"

theorem purge_drops_prefix_witness:
  "\<exists>s'. purge mem_storage sample_id_codec 0 (sample_log_id 1) sample_log = (s', Inr ()) \<and>
     log_view mem_view s' = bretain (\<lambda>k _. k > 1) (log_view mem_view sample_log)"
proof -
  have c: "codec_ok sample_id_codec" by (auto simp: codec_ok_def sample_id_codec_def split: if_splits)
  have meta: "mem_meta (ls_db (barrier mem_storage 0 sample_log)) = bempty"
    using mem_store.barrier_meta [of 0 sample_log] by (simp add: mem_view_def sample_log_eq mem_default_def)
  obtain s' where s': "purge mem_storage sample_id_codec 0 (sample_log_id 1) sample_log = (s', Inr ())"
    using meta by (simp add: purge_def Let_def mark_purged_def record_purged_def mem_defs sample_id_codec_def enc_def)
  have "purge_inv sample_id_codec mem_view sample_log"
    by (simp add: purge_inv_def purged_of_def mem_view_def sample_log_eq mem_default_def)
  from purge_drops_prefix [OF mem_store.storage_contract_axioms c _ sample_log_inv this _ s'] s' show ?thesis
    by (auto simp: sample_log_id_def sample_log_eq)
qed

text \<open>The reported pointers are backed by the log: a commit pointer that is returned lies at or below the
  last log entry, and the last log id is that of the entry with the highest index, or the purged
  pointer when the log is empty.\<close>

lemma pointers_backed:
  assumes "storage_contract S view"
  shows "(read_committed S C s = Inr (Some c) \<longrightarrow> (\<exists>i. blast_key (log_view view s) = Some i \<and> log_index c \<le> i)) \<and>
    (get_log_state S P E s = Inr ls \<and> blast_key (log_view view s) \<noteq> Some (- 1) \<longrightarrow> (case blast_key (log_view view s) of
        None \<Rightarrow> last_log_id ls = last_purged_log_id ls
      | Some i \<Rightarrow> \<exists>b e. bget (log_view view s) i = Some b \<and> dec E b = Inr e \<and> last_log_id ls = Some (entry_log_id e)))"
proof (intro conjI impI)
  assume "read_committed S C s = Inr (Some c)"
  then obtain i where "last_index S s = Inr (Some i)" "log_index c \<le> i"
    by (auto simp: read_committed_def and_then_Inr map_ok_Inr split: option.splits if_splits)
  with storage_contract.last_index_view [OF assms] show "\<exists>i. blast_key (log_view view s) = Some i \<and> log_index c \<le> i" by fastforce
next
  assume gls: "get_log_state S P E s = Inr ls \<and> blast_key (log_view view s) \<noteq> Some (- 1)"
  then obtain lst where l: "last_index S s = Inr lst" by (auto simp: get_log_state_def and_then_Inr)
  have lst: "lst = blast_key (log_view view s)" by (rule storage_contract.last_index_view [OF assms l])
  show "case blast_key (log_view view s) of None \<Rightarrow> last_log_id ls = last_purged_log_id ls
    | Some i \<Rightarrow> \<exists>b e. bget (log_view view s) i = Some b \<and> dec E b = Inr e \<and> last_log_id ls = Some (entry_log_id e)"
  proof (cases lst)
    case None
    with gls l lst show ?thesis by (auto simp: get_log_state_def and_then_Inr map_ok_Inr)
  next
    case (Some i)
    have max: "i \<noteq> - 1" using gls lst Some by metis
    obtain b where i: "bget (log_view view s) i = Some b" using lst Some by (metis blast_key_Some not_None_eq)
    obtain bo where bo: "entry_bytes S i s = Inr bo" using gls l Some by (auto simp: get_log_state_def and_then_Inr map_ok_Inr)
    have "bo = Some b"
    proof (cases "bget (pending s) i")
      case None
      then have db: "bget (fst (view (ls_db s))) i = Some b" using i by (simp add: bget_log_view)
      obtain items where items: "read_log S i (i + 1) (ls_db s) = Inr items" and bo': "bo = (case items of [] \<Rightarrow> None | e # _ \<Rightarrow> Some (snd e))"
        using bo None by (auto simp: entry_bytes_def map_ok_Inr)
      have lt: "k < i + 1 \<longleftrightarrow> k \<le> i" for k using word_less_succ [OF max, of k] by (metis not_le)
      have it: "items = brange i (i + 1) (fst (view (ls_db s)))"
        using storage_contract.read_log [OF assms, of i "i + 1"] items by (simp add: answers_def)
      have "set items = {(i, b)}" unfolding it set_brange lt using db by (auto dest: order.antisym)
      then show ?thesis using bo' by (cases items) auto
    qed (use i bo in \<open>auto simp: bget_log_view entry_bytes_def\<close>)
    with gls l Some bo obtain e where "dec E b = Inr e" "last_log_id ls = Some (entry_log_id e)"
      by (auto simp: get_log_state_def and_then_Inr map_ok_Inr)
    with i have "\<exists>b e. bget (log_view view s) i = Some b \<and> dec E b = Inr e \<and> last_log_id ls = Some (entry_log_id e)" by blast
    then show ?thesis unfolding lst [symmetric] Some by simp
  qed
qed

definition sample_opt_codec :: "LogId option codec" where
  "sample_opt_codec = \<lparr>encode = (\<lambda>l. case l of None \<Rightarrow> Inr [0] | Some l \<Rightarrow> Inr [1]), decode = (\<lambda>b. if b = [0] then Inr None else Inr (Some (sample_log_id 1)))\<rparr>"

text \<open>A saved vote is the vote that is read after a restart, whatever log operations run in between.\<close>

lemma vote_roundtrip:
  assumes "storage_contract S view" and "codec_ok C" and "save_vote S C vote db = (db', Inr ())"
    and "(flusher_step S)\<^sup>*\<^sup>* (s\<lparr>ls_db := db'\<rparr>) s'" and "read_vote S C (ls_db s') = Inr v"
  shows "v = Some vote"
proof -
  obtain b where b: "enc C vote = Inr b" and sv: "save_vote_bytes S b db = (db', Inr ())"
    using assms(3) by (auto simp: save_vote_def split: sum.splits prod.splits)
  have "bget (snd (view db')) KEY_VOTE = Some b"
    using storage_contract.save_vote [OF assms(1), of b] sv by (auto simp: effect_def)
  moreover have "snd (view (ls_db s')) = snd (view (ls_db (s\<lparr>ls_db := db'\<rparr>)))"
    using assms(4) by (induction rule: rtranclp_induct) (simp_all add: storage_contract.flusher_step_meta [OF assms(1)])
  ultimately have "bget (snd (view (ls_db s'))) KEY_VOTE = Some b" by simp
  then have "read_vote_bytes S (ls_db s') = Inr x \<Longrightarrow> x = Some b" for x
    using storage_contract.read_vote [OF assms(1)] by (simp add: answers_def)
  then show ?thesis using assms(5) dec_enc [OF assms(2) b] by (auto simp: read_vote_def and_then_Inr map_ok_Inr)
qed

end
