(* ===== verification/Recovery.thy ===== *)
theory Recovery
  imports State_Machine Log_Guarantees
begin

text \<open>
  \<^verbatim>\<open>recover_consistency\<close> of \<^verbatim>\<open>crates/hermesmq-core/src/engine/mod.rs\<close>, the step that makes the
  persisted log, snapshot and commit pointer agree before the Raft engine reads them. The text of
  an openraft error is the parameter \<open>show_err\<close>.
\<close>

section \<open>The operation\<close>

definition base_next :: "u64 option \<Rightarrow> u64" where
  "base_next snap_index = (case snap_index of Some i \<Rightarrow> i + 1 | None \<Rightarrow> 0)"

definition drop_orphans :: "'s Storage \<Rightarrow> u64 \<Rightarrow> ('s, unit) store_op" where
  "drop_orphans S base db = (case first_log_index S db of
     Inl e \<Rightarrow> (db, Inl e)
   | Inr None \<Rightarrow> (db, Inr ())
   | Inr (Some first) \<Rightarrow>
       if first > base
       then (case last_log_index S db of
               Inl e \<Rightarrow> (db, Inl e)
             | Inr lst \<Rightarrow> (case (case lst of Some l \<Rightarrow> purge_log_upto S l db | None \<Rightarrow> (db, Inr ())) of
                 (db, Inl e) \<Rightarrow> (db, Inl e)
               | (db, Inr _) \<Rightarrow> delete_key S KEY_PURGED db))
       else (db, Inr ()))"

definition drop_commit :: "'s Storage \<Rightarrow> LogId option codec \<Rightarrow> (StorageError \<Rightarrow> string) \<Rightarrow> u64 option \<Rightarrow> ('s, unit) store_op" where
  "drop_commit S K show_err snap_index db = (case last_log_index S db of
     Inl e \<Rightarrow> (db, Inl e)
   | Inr lst \<Rightarrow> (case read_committed_bytes S db of
       Inl e \<Rightarrow> (db, Inl e)
     | Inr None \<Rightarrow> (db, Inr ())
     | Inr (Some b) \<Rightarrow> (case dec K b of
         Inl e \<Rightarrow> (db, Inl (StorageFailure (show_err e)))
       | Inr None \<Rightarrow> (db, Inr ())
       | Inr (Some c) \<Rightarrow>
           if (case max_option snap_index lst of Some r \<Rightarrow> log_index c > r | None \<Rightarrow> True)
           then delete_key S KEY_COMMITTED db else (db, Inr ()))))"

definition recover_consistency :: "'s Storage \<Rightarrow> 'm sm_codecs \<Rightarrow> LogId option codec \<Rightarrow> (StorageError \<Rightarrow> string) \<Rightarrow> ('s, unit) store_op" where
  "recover_consistency S C K show_err db = (case snapshot_last_index S C db of
     Inl e \<Rightarrow> (db, Inl (StorageFailure (show_err e)))
   | Inr snap_index \<Rightarrow> (case drop_orphans S (base_next snap_index) db of
       (db, Inl e) \<Rightarrow> (db, Inl e)
     | (db, Inr _) \<Rightarrow> drop_commit S K show_err snap_index db))"

section \<open>Healthy stores\<close>

definition snapshot_index_of :: "'m sm_codecs \<Rightarrow> meta_table \<Rightarrow> u64 option" where
  "snapshot_index_of C meta = (case bget meta KEY_SNAPSHOT of
     None \<Rightarrow> None
   | Some b \<Rightarrow> (case decode (stored_codec C) b of
       Inl _ \<Rightarrow> None
     | Inr snap \<Rightarrow> map_option log_index (snap_last_log_id (snap_meta snap))))"

definition committed_of :: "LogId option codec \<Rightarrow> meta_table \<Rightarrow> LogId option" where
  "committed_of K meta = (case bget meta KEY_COMMITTED of
     None \<Rightarrow> None
   | Some b \<Rightarrow> (case decode K b of Inl _ \<Rightarrow> None | Inr c \<Rightarrow> c))"

text \<open>The log begins at the applied base at the latest, and the commit pointer is covered by the snapshot or the log.\<close>

definition log_attached :: "u64 option \<Rightarrow> log_table \<Rightarrow> bool" where
  "log_attached snap_index log \<longleftrightarrow> (case bfirst_key log of None \<Rightarrow> True | Some first \<Rightarrow> first \<le> base_next snap_index)"

definition commit_backed :: "u64 option \<Rightarrow> log_table \<Rightarrow> LogId option \<Rightarrow> bool" where
  "commit_backed snap_index log committed \<longleftrightarrow> (case committed of
     None \<Rightarrow> True
   | Some c \<Rightarrow> (case max_option snap_index (blast_key log) of None \<Rightarrow> False | Some r \<Rightarrow> log_index c \<le> r))"

definition healthy :: "'m sm_codecs \<Rightarrow> LogId option codec \<Rightarrow> log_table \<times> meta_table \<Rightarrow> bool" where
  "healthy C K v \<longleftrightarrow> log_attached (snapshot_index_of C (snd v)) (fst v) \<and>
     commit_backed (snapshot_index_of C (snd v)) (fst v) (committed_of K (snd v))"

lemma recovery_keys: "KEY_PURGED \<noteq> KEY_SNAPSHOT" "KEY_COMMITTED \<noteq> KEY_SNAPSHOT" "KEY_PURGED \<noteq> KEY_COMMITTED"
  "KEY_PURGED \<noteq> KEY_VOTE" "KEY_COMMITTED \<noteq> KEY_VOTE"
  by (simp_all add: KEY_PURGED_def KEY_SNAPSHOT_def KEY_COMMITTED_def KEY_VOTE_def)

context storage_contract
begin

lemma snapshot_last_index_view: "snapshot_last_index S C db = Inr i \<Longrightarrow> i = snapshot_index_of C (snd (view db))"
proof -
  assume "snapshot_last_index S C db = Inr i"
  then obtain snap where s: "stored_snapshot S C db = Inr snap"
      and i: "i = (case snap of Some snap \<Rightarrow> map_option log_index (snap_last_log_id (snap_meta snap)) | None \<Rightarrow> None)"
    by (auto simp: snapshot_last_index_def map_ok_Inr)
  obtain b where b: "get S KEY_SNAPSHOT db = Inr b" using s by (auto simp: stored_snapshot_def and_then_Inr)
  then have "bget (snd (view db)) KEY_SNAPSHOT = b" using get [of KEY_SNAPSHOT] by (simp add: answers_def)
  with s b i show ?thesis
    by (cases b) (auto simp: stored_snapshot_def snapshot_index_of_def map_ok_Inr dec_def map_err_def split: sum.splits)
qed

lemma drop_orphans_ok:
  assumes "drop_orphans S base db = (db', Inr ())"
  shows "(case bfirst_key (fst (view db)) of None \<Rightarrow> True | Some first \<Rightarrow> first \<le> base) \<and> view db' = view db \<or>
    \<not> (case bfirst_key (fst (view db)) of None \<Rightarrow> True | Some first \<Rightarrow> first \<le> base) \<and>
    view db' = (bempty, bremove KEY_PURGED (snd (view db)))"
proof -
  obtain f where f: "first_log_index S db = Inr f" using assms by (cases "first_log_index S db") (auto simp: drop_orphans_def)
  then have fv: "bfirst_key (fst (view db)) = f" using first_log_index by (simp add: answers_def)
  show ?thesis
  proof (cases "case f of None \<Rightarrow> True | Some first \<Rightarrow> first \<le> base")
    case True
    then show ?thesis using assms f fv by (cases f) (simp_all add: drop_orphans_def not_less [symmetric] del: bfirst_key_None)
  next
    case False
    then obtain first where first: "f = Some first" "base < first" by (auto split: option.splits)
    obtain lst where l: "last_log_index S db = Inr lst"
      using assms f first by (cases "last_log_index S db") (auto simp: drop_orphans_def)
    have lv: "blast_key (fst (view db)) = lst" using last_log_index l by (simp add: answers_def)
    have "bget (fst (view db)) first \<noteq> None" using fv first by (metis bfirst_key_Some)
    then obtain top_key where t: "lst = Some top_key" using lv by (cases lst) (auto simp: blast_key_None bis_empty_iff)
    obtain db1 r1 where p: "purge_log_upto S top_key db = (db1, r1)" by fastforce
    have r1: "r1 = Inr ()" using assms f first l t p by (cases r1) (simp_all add: drop_orphans_def)
    have d: "delete_key S KEY_PURGED db1 = (db', Inr ())" using assms f first l t p r1 by (simp add: drop_orphans_def)
    have "bretain (\<lambda>k _. k > top_key) (fst (view db)) = bempty"
      using lv t by (intro btree_eqI) (auto simp: bget_retain blast_key_Some not_less split: option.splits)
    moreover have "view db1 = apfst (bretain (\<lambda>k _. k > top_key)) (view db)"
      using purge_log_upto [of top_key] p r1 by (simp add: effect_def)
    moreover have "view db' = apsnd (bremove KEY_PURGED) (view db1)" using delete [of KEY_PURGED] d by (simp add: effect_def)
    ultimately have "view db' = (bempty, bremove KEY_PURGED (snd (view db)))" by (cases "view db") simp
    with False fv show ?thesis by simp
  qed
qed

lemma drop_commit_ok:
  assumes "drop_commit S K show_err snap_index db = (db', Inr ())"
  shows "commit_backed snap_index (fst (view db)) (committed_of K (snd (view db))) \<and> view db' = view db \<or>
    \<not> commit_backed snap_index (fst (view db)) (committed_of K (snd (view db))) \<and>
    view db' = (fst (view db), bremove KEY_COMMITTED (snd (view db)))"
proof -
  obtain lst where l: "last_log_index S db = Inr lst" using assms by (cases "last_log_index S db") (auto simp: drop_commit_def)
  have lv: "blast_key (fst (view db)) = lst" using last_log_index l by (simp add: answers_def)
  obtain b where b: "read_committed_bytes S db = Inr b" using assms l by (cases "read_committed_bytes S db") (auto simp: drop_commit_def)
  have bv: "bget (snd (view db)) KEY_COMMITTED = b" using read_committed b by (simp add: answers_def)
  have del: "delete_key S KEY_COMMITTED db = (db', Inr ()) \<Longrightarrow> view db' = (fst (view db), bremove KEY_COMMITTED (snd (view db)))"
    using delete [of KEY_COMMITTED] by (simp add: effect_def apsnd_def map_prod_def split: prod.splits)
  show ?thesis
  proof (cases b)
    case None
    then show ?thesis using assms l b bv by (simp add: drop_commit_def committed_of_def commit_backed_def)
  next
    case (Some bytes)
    then obtain c where c: "decode K bytes = Inr c"
      using assms l b by (cases "decode K bytes") (auto simp: drop_commit_def dec_def)
    then have "committed_of K (snd (view db)) = c" using bv Some by (simp add: committed_of_def)
    with assms l b Some c lv del show ?thesis
      by (auto simp: drop_commit_def dec_def commit_backed_def not_less split: option.splits if_splits)
  qed
qed

end

lemma recovery_outcome:
  assumes "storage_contract S view" and "recover_consistency S C K show_err db = (db', Inr ())"
  shows "healthy C K (view db') \<and> (healthy C K (view db) \<longrightarrow> view db' = view db) \<and>
    bget (snd (view db')) KEY_SNAPSHOT = bget (snd (view db)) KEY_SNAPSHOT \<and>
    bget (snd (view db')) KEY_VOTE = bget (snd (view db)) KEY_VOTE \<and>
    (fst (view db') = fst (view db) \<or> fst (view db') = bempty)"
proof -
  obtain i where i: "snapshot_last_index S C db = Inr i"
    using assms(2) by (cases "snapshot_last_index S C db") (auto simp: recover_consistency_def)
  have iv: "snapshot_index_of C (snd (view db)) = i" using storage_contract.snapshot_last_index_view [OF assms(1) i] by simp
  obtain db1 r1 where d: "drop_orphans S (base_next i) db = (db1, r1)" by fastforce
  with assms(2) i have r1: "r1 = Inr ()" and c: "drop_commit S K show_err i db1 = (db', Inr ())"
    by (auto simp: recover_consistency_def split: sum.splits)
  note o1 = storage_contract.drop_orphans_ok [OF assms(1) d [unfolded r1]]
  note o2 = storage_contract.drop_commit_ok [OF assms(1) c]
  have idx: "snapshot_index_of C (bremove k m) = snapshot_index_of C m" if "k \<noteq> KEY_SNAPSHOT" for k m
    using that by (simp add: snapshot_index_of_def)
  have com: "committed_of K (bremove KEY_PURGED m) = committed_of K m" "committed_of K (bremove KEY_COMMITTED m) = None" for m
    using recovery_keys by (simp_all add: committed_of_def)
  have att: "log_attached i bempty" "commit_backed i log None" for log
    by (simp_all add: log_attached_def commit_backed_def bfirst_key_def)
  have keep: "healthy C K (view db) \<longleftrightarrow> (case bfirst_key (fst (view db)) of None \<Rightarrow> True | Some first \<Rightarrow> first \<le> base_next i) \<and>
      commit_backed i (fst (view db)) (committed_of K (snd (view db)))"
    by (simp add: healthy_def iv log_attached_def)
  show ?thesis using o1
  proof (elim disjE conjE)
    assume a: "case bfirst_key (fst (view db)) of None \<Rightarrow> True | Some first \<Rightarrow> first \<le> base_next i" and v: "view db1 = view db"
    from o2 show ?thesis unfolding v
      using a iv idx com att recovery_keys by (elim disjE conjE) (simp_all add: healthy_def log_attached_def)
  next
    assume a: "\<not> (case bfirst_key (fst (view db)) of None \<Rightarrow> True | Some first \<Rightarrow> first \<le> base_next i)"
      and v: "view db1 = (bempty, bremove KEY_PURGED (snd (view db)))"
    from o2 show ?thesis unfolding keep using v
      using a iv idx com att recovery_keys by (elim disjE conjE) (simp_all add: healthy_def)
  qed
qed

text \<open>The commit pointer recovery leaves can be decoded.\<close>

lemma recovered_commit_decodes:
  assumes "storage_contract S view" and "recover_consistency S C K show_err db = (db', Inr ())"
    and "bget (snd (view db')) KEY_COMMITTED = Some b"
  shows "\<exists>c. decode K b = Inr c"
proof -
  obtain i db1 where c: "drop_commit S K show_err i db1 = (db', Inr ())"
    using assms(2) by (auto simp: recover_consistency_def split: sum.splits prod.splits)
  obtain lst where l: "last_log_index S db1 = Inr lst" using c by (cases "last_log_index S db1") (auto simp: drop_commit_def)
  obtain rb where rb: "read_committed_bytes S db1 = Inr rb" using c l by (cases "read_committed_bytes S db1") (auto simp: drop_commit_def)
  then have v1: "bget (snd (view db1)) KEY_COMMITTED = rb" using storage_contract.read_committed [OF assms(1)] by (simp add: answers_def)
  have "view db' = view db1 \<or> bget (snd (view db')) KEY_COMMITTED = None"
    using storage_contract.drop_commit_ok [OF assms(1) c] by auto
  then have "rb = Some b" using v1 assms(3) by auto
  then show ?thesis using c l rb by (cases "decode K b") (auto simp: drop_commit_def dec_def)
qed

text \<open>(C28) Recovery heals the store and nothing else: afterwards the log starts at the applied base or is empty
  and the commit pointer is covered by the snapshot or the log; a store that was healthy is not
  changed at all; the snapshot and the vote are never touched, and the log is kept whole or
  dropped whole.\<close>

theorem recovery_heals:
  assumes "storage_contract S view" and "recover_consistency S C K show_err db = (db', Inr ())"
  shows "healthy C K (view db') \<and> (healthy C K (view db) \<longrightarrow> view db' = view db) \<and>
    bget (snd (view db')) KEY_SNAPSHOT = bget (snd (view db)) KEY_SNAPSHOT \<and>
    bget (snd (view db')) KEY_VOTE = bget (snd (view db)) KEY_VOTE \<and>
    (fst (view db') = fst (view db) \<or> fst (view db') = bempty)"
  by (rule recovery_outcome [OF assms])

definition orphan_store :: MemStore where
  "orphan_store = \<lparr>mem_log = bliteral [(5, [1]), (6, [2])], mem_meta = bliteral [(KEY_COMMITTED, [1])]\<rparr>"

definition recovered_store :: MemStore where
  "recovered_store = \<lparr>mem_log = bempty, mem_meta = bempty\<rparr>"

lemma orphan_recovers: "recover_consistency mem_storage sample_codecs sample_opt_codec (\<lambda>_. []) orphan_store = (recovered_store, Inr ())"
  by (simp add: recover_consistency_def snapshot_last_index_def stored_snapshot_def drop_orphans_def drop_commit_def base_next_def
      orphan_store_def recovered_store_def mem_defs dec_def sample_opt_codec_def btree_eval KEY_COMMITTED_def KEY_SNAPSHOT_def KEY_PURGED_def)

theorem recovery_heals_witness: "healthy sample_codecs sample_opt_codec (mem_view recovered_store)"
  by (rule recovery_heals [OF mem_store.storage_contract_axioms orphan_recovers, THEN conjunct1])

text \<open>(C30) After recovery the engine can replay: when the stored log has no gap, every index from the applied base
  up to the commit pointer is in the log.\<close>

theorem recovered_log_replays:
  assumes "storage_contract S view" and "recover_consistency S C K show_err db = (db', Inr ())"
    and "\<forall>i j k. bget (fst (view db)) i \<noteq> None \<and> bget (fst (view db)) k \<noteq> None \<and> i \<le> j \<and> j \<le> k \<longrightarrow> bget (fst (view db)) j \<noteq> None"
    and "snapshot_index_of C (snd (view db')) \<noteq> Some (- 1)" and "committed_of K (snd (view db')) = Some c"
    and "base_next (snapshot_index_of C (snd (view db'))) \<le> i" and "i \<le> log_index c"
  shows "bget (fst (view db')) i \<noteq> None"
proof -
  let ?snap = "snapshot_index_of C (snd (view db'))" and ?log = "fst (view db')"
  have h: "healthy C K (view db')" and keep: "?log = fst (view db) \<or> ?log = bempty"
    using recovery_outcome [OF assms(1,2)] by simp_all
  obtain r where r: "max_option ?snap (blast_key ?log) = Some r" "log_index c \<le> r"
    using h assms(5) by (auto simp: healthy_def commit_backed_def split: option.splits)
  have snap: "\<not> log_index c \<le> x" if "?snap = Some x" for x
  proof -
    have "x \<noteq> - 1" using that assms(4) by simp
    then have "x < i" using assms(6) that word_less_succ [of x i] by (simp add: base_next_def)
    with assms(7) show ?thesis by simp
  qed
  obtain l where l: "blast_key ?log = Some l" "log_index c \<le> l"
    using r snap by (cases "?snap"; cases "blast_key ?log") (auto simp: max_def split: if_splits)
  then have top_in: "bget ?log l \<noteq> None" by (simp add: blast_key_Some)
  then have "bfirst_key ?log \<noteq> None" by (auto simp: bis_empty_iff)
  then obtain f where f: "bfirst_key ?log = Some f" by blast
  then have "f \<le> i" using h assms(6) by (auto simp: healthy_def log_attached_def)
  moreover have "bget ?log f \<noteq> None" using f by (simp add: bfirst_key_Some)
  moreover have "?log = fst (view db)" using keep top_in by auto
  moreover have "i \<le> l" using assms(7) l(2) by (rule order_trans)
  ultimately show ?thesis using assms(3) [rule_format, of f l i] top_in by metis
qed

definition attached_store :: MemStore where
  "attached_store = \<lparr>mem_log = bliteral [(0, [1]), (1, [2])], mem_meta = bliteral [(KEY_COMMITTED, [1])]\<rparr>"

lemma attached_recovers: "recover_consistency mem_storage sample_codecs sample_opt_codec (\<lambda>_. []) attached_store = (attached_store, Inr ())"
  by (simp add: recover_consistency_def snapshot_last_index_def stored_snapshot_def drop_orphans_def drop_commit_def base_next_def
      attached_store_def mem_defs dec_def sample_opt_codec_def sample_log_id_def btree_eval KEY_COMMITTED_def KEY_SNAPSHOT_def KEY_PURGED_def)

theorem recovered_log_replays_witness: "bget (fst (mem_view attached_store)) 1 \<noteq> None"
proof (rule recovered_log_replays [OF mem_store.storage_contract_axioms attached_recovers])
  have dom: "bget (fst (mem_view attached_store)) j \<noteq> None \<longleftrightarrow> unat j \<le> 1" for j
    by (auto simp: mem_view_def attached_store_def btree_eval word_unat_eq_iff)
  show "\<forall>i j k. bget (fst (mem_view attached_store)) i \<noteq> None \<and> bget (fst (mem_view attached_store)) k \<noteq> None \<and> i \<le> j \<and> j \<le> k \<longrightarrow>
      bget (fst (mem_view attached_store)) j \<noteq> None"
    unfolding dom by (auto simp: word_le_nat_alt)
  show "committed_of sample_opt_codec (snd (mem_view attached_store)) = Some (sample_log_id 1)"
    by (simp add: committed_of_def mem_view_def attached_store_def btree_eval sample_opt_codec_def)
qed (simp_all add: snapshot_index_of_def mem_view_def attached_store_def btree_eval KEY_COMMITTED_def KEY_SNAPSHOT_def base_next_def sample_log_id_def)

end
