(* ===== verification/Rate_Limiter.thy ===== *)
theory Rate_Limiter
  imports Complex_Main BTree_Map
begin

text \<open>
  The token buckets of \<^verbatim>\<open>RateLimiter\<close> in \<^verbatim>\<open>crates/hermesmq-core/src/client.rs\<close>. An \<^verbatim>\<open>Instant\<close> is
  its number of nanoseconds and \<^verbatim>\<open>duration_since\<close> saturates at zero, as natural subtraction does.
  The \<^verbatim>\<open>f64\<close> token counts, rates and durations are real numbers: the formulas are those of the
  source without the rounding of their floating-point evaluation. The casts \<^verbatim>\<open>as u32\<close> and
  \<^verbatim>\<open>as u64\<close> saturate.
\<close>

section \<open>Operations\<close>

record Bucket =
  tokens :: real
  last_ns :: nat

type_synonym limiter = "(string, Bucket) btree"

definition as_u32 :: "real \<Rightarrow> u32" where
  "as_u32 x = of_nat (nat (min \<lfloor>x\<rfloor> (2 ^ 32 - 1)))"

definition as_u64 :: "real \<Rightarrow> u64" where
  "as_u64 x = of_nat (nat (min \<lfloor>x\<rfloor> (2 ^ 64 - 1)))"

definition as_secs :: "nat \<Rightarrow> real" where
  "as_secs ns = real ns / 10 ^ 9"

definition refill :: "Bucket \<Rightarrow> real \<Rightarrow> real \<Rightarrow> nat \<Rightarrow> Bucket" where
  "refill b rate burst now_ns = \<lparr>tokens = min (tokens b + as_secs (now_ns - last_ns b) * rate) burst, last_ns = now_ns\<rparr>"

definition retry_delay :: "real \<Rightarrow> real \<Rightarrow> u64" where
  "retry_delay toks rate = (if rate > 0 then as_u64 (of_int \<lceil>(1 - toks) / rate * 1000\<rceil>) else 1000)"

definition take_tokens :: "string \<Rightarrow> real \<Rightarrow> real \<Rightarrow> u32 \<Rightarrow> nat \<Rightarrow> limiter \<Rightarrow> limiter \<times> (u64 + u32)" where
  "take_tokens topic rate burst want now_ns bks =
     (if want = 0 then (bks, Inr 0)
      else let b = (case bget bks topic of Some b \<Rightarrow> b | None \<Rightarrow> \<lparr>tokens = burst, last_ns = now_ns\<rparr>);
               b = refill b rate burst now_ns;
               grant = min (as_u32 (of_int \<lfloor>tokens b\<rfloor>)) want
           in if grant = 0 then (binsert topic b bks, Inl (retry_delay (tokens b) rate))
              else (binsert topic (b\<lparr>tokens := tokens b - real (unat grant)\<rparr>) bks, Inr grant))"

definition refund :: "string \<Rightarrow> u32 \<Rightarrow> real \<Rightarrow> limiter \<Rightarrow> limiter" where
  "refund topic amount burst bks =
     (if amount = 0 then bks
      else bmodify topic (\<lambda>b. b\<lparr>tokens := min (tokens b + real (unat amount)) burst\<rparr>) bks)"

definition forget :: "string \<Rightarrow> limiter \<Rightarrow> limiter" where
  "forget topic bks = bremove topic bks"

definition debug_tokens :: "string \<Rightarrow> limiter \<Rightarrow> real option" where
  "debug_tokens topic bks = map_option tokens (bget bks topic)"

section \<open>The bucket invariant\<close>

lemma unat_of_nat_small: "n < 2 ^ LENGTH('a) \<Longrightarrow> unat (of_nat n :: 'a::len word) = n"
  by (simp add: unsigned_of_nat take_bit_nat_eq_self)

lemma real_unsigned_nonneg [simp]: "0 \<le> (unsigned (w :: 'a::len word) :: real)"
  by (metis of_nat_0_le_iff of_nat_unat)

lemma unat_as_u32:
  fixes x :: real
  assumes "0 \<le> x"
  shows "unat (as_u32 (of_int \<lfloor>x\<rfloor>)) = min (nat \<lfloor>x\<rfloor>) (2 ^ 32 - 1)"
proof -
  have e: "nat (min \<lfloor>x\<rfloor> (2 ^ 32 - 1)) = min (nat \<lfloor>x\<rfloor>) (2 ^ 32 - 1)" 
    by (simp add: min_def le_nat_iff) linarith
  have "min (nat \<lfloor>x\<rfloor>) (2 ^ 32 - 1) < (2 :: nat) ^ 32" by (simp add: min_def)
  then show ?thesis unfolding as_u32_def floor_of_int e by (intro unat_of_nat_small) simp
qed

lemma grant_le_tokens:
  assumes "0 \<le> x"
  shows "real (unat (min (as_u32 (of_int \<lfloor>x\<rfloor>)) want)) \<le> x"
proof -
  have "unat (min (as_u32 (of_int \<lfloor>x\<rfloor>)) want) \<le> unat (as_u32 (of_int \<lfloor>x\<rfloor>))"
    by (simp add: min_def word_le_nat_alt)
  then have "unat (min (as_u32 (of_int \<lfloor>x\<rfloor>)) want) \<le> nat \<lfloor>x\<rfloor>" using unat_as_u32 [OF assms] by simp
  then have "real (unat (min (as_u32 (of_int \<lfloor>x\<rfloor>)) want)) \<le> real (nat \<lfloor>x\<rfloor>)" by (simp only: of_nat_le_iff)
  also have "\<dots> \<le> x" using assms by (simp add: of_int_floor_le)
  finally show ?thesis .
qed

definition bucket_ok :: "real \<Rightarrow> Bucket \<Rightarrow> bool" where
  "bucket_ok burst b \<longleftrightarrow> 0 \<le> tokens b \<and> tokens b \<le> burst"

lemma refill_ok: "bucket_ok burst b \<Longrightarrow> 0 \<le> rate \<Longrightarrow> bucket_ok burst (refill b rate burst now_ns)"
  by (auto simp: bucket_ok_def refill_def as_secs_def)

lemma as_secs_split: "i \<le> j \<Longrightarrow> j \<le> k \<Longrightarrow> as_secs (j - i) + as_secs (k - j) = as_secs (k - i)"
  by (simp add: as_secs_def add_divide_distrib [symmetric])

section \<open>Sessions on one topic\<close>

datatype limiter_op = Take u32 nat | Refund u32

fun limiter_step :: "string \<Rightarrow> real \<Rightarrow> real \<Rightarrow> limiter_op \<Rightarrow> limiter \<Rightarrow> limiter \<times> int" where
  "limiter_step topic rate burst (Take want now_ns) bks = (case take_tokens topic rate burst want now_ns bks of
     (bks, Inr grant) \<Rightarrow> (bks, int (unat grant))
   | (bks, Inl retry) \<Rightarrow> (bks, 0))"
| "limiter_step topic rate burst (Refund amount) bks = (refund topic amount burst bks, - int (unat amount))"

text \<open>The tokens granted less those refunded by a sequence of calls.\<close>

fun net_granted :: "string \<Rightarrow> real \<Rightarrow> real \<Rightarrow> limiter_op list \<Rightarrow> limiter \<Rightarrow> int" where
  "net_granted topic rate burst [] bks = 0"
| "net_granted topic rate burst (op # ops) bks =
     (let (bks, n) = limiter_step topic rate burst op bks in n + net_granted topic rate burst ops bks)"

fun op_times :: "limiter_op list \<Rightarrow> nat list" where
  "op_times [] = []"
| "op_times (Take want now_ns # ops) = now_ns # op_times ops"
| "op_times (Refund amount # ops) = op_times ops"

lemma take_tokens_bucket:
  assumes "0 \<le> rate" and "bget bks topic = Some b" and "bucket_ok burst b" and "take_tokens topic rate burst want now_ns bks = (bks', res)"
    and "last_ns b \<le> now_ns"
  shows "\<exists>b'. bget bks' topic = Some b' \<and> bucket_ok burst b' \<and> last_ns b' \<le> now_ns \<and>
    tokens b' + (case res of Inr grant \<Rightarrow> real (unat grant) | Inl _ \<Rightarrow> 0) \<le> tokens b + as_secs (last_ns b' - last_ns b) * rate \<and> last_ns b \<le> last_ns b'"
proof (cases "want = 0")
  case True
  then show ?thesis using assms by (auto simp: take_tokens_def as_secs_def)
next
  case False
  let ?b = "refill b rate burst now_ns" and ?g = "min (as_u32 (of_int \<lfloor>tokens (refill b rate burst now_ns)\<rfloor>)) want"
  have ok: "bucket_ok burst ?b" by (rule refill_ok [OF assms(3,1)])
  have g: "real (unat ?g) \<le> tokens ?b" by (rule grant_le_tokens) (use ok in \<open>simp add: bucket_ok_def\<close>)
  have t: "tokens ?b \<le> tokens b + as_secs (now_ns - last_ns b) * rate" "last_ns ?b = now_ns" by (simp_all add: refill_def)
  show ?thesis
  proof (cases "?g = 0")
    case True
    then have "bks' = binsert topic ?b bks" "\<exists>r. res = Inl r" using False assms(2,4) by (auto simp: take_tokens_def Let_def)
    then show ?thesis using ok t assms(5) by auto
  next
    case g0: False
    then have l: "bks' = binsert topic (?b\<lparr>tokens := tokens ?b - real (unat ?g)\<rparr>) bks" and r: "res = Inr ?g"
      using False assms(2,4) by (auto simp: take_tokens_def Let_def)
    have "bucket_ok burst (?b\<lparr>tokens := tokens ?b - real (unat ?g)\<rparr>)"
      using ok g unfolding bucket_ok_def by (simp add: diff_le_eq add_increasing2)
    then show ?thesis using l r t assms(5) by auto
  qed
qed

text \<open>The bucket a topic has, or will start with: a topic without one behaves as if its full bucket had existed all along.\<close>

definition bucket_at :: "string \<Rightarrow> real \<Rightarrow> nat \<Rightarrow> limiter \<Rightarrow> Bucket" where
  "bucket_at topic burst start bks = (case bget bks topic of Some b \<Rightarrow> b | None \<Rightarrow> \<lparr>tokens = burst, last_ns = start\<rparr>)"

lemma take_tokens_fresh:
  assumes "bget bks topic = None" and "0 \<le> rate" and "want \<noteq> 0"
  shows "take_tokens topic rate burst want now_ns bks = take_tokens topic rate burst want now_ns (binsert topic \<lparr>tokens = burst, last_ns = start\<rparr> bks)"
proof -
  have "binsert topic b' (binsert topic b bks) = binsert topic b' bks" for b b' by (rule btree_eqI) simp
  moreover have "refill \<lparr>tokens = burst, last_ns = start'\<rparr> rate burst now_ns = \<lparr>tokens = burst, last_ns = now_ns\<rparr>" for start'
    using assms(2) by (simp add: refill_def as_secs_def)
  ultimately show ?thesis using assms by (simp add: take_tokens_def Let_def)
qed

lemma take_tokens_at:
  assumes "0 \<le> rate" and "bucket_ok burst (bucket_at topic burst start bks)" and "last_ns (bucket_at topic burst start bks) \<le> now_ns"
    and "take_tokens topic rate burst want now_ns bks = (bks', res)"
  shows "let b = bucket_at topic burst start bks; b' = bucket_at topic burst start bks'
    in bucket_ok burst b' \<and> last_ns b' \<le> now_ns \<and> last_ns b \<le> last_ns b' \<and>
       tokens b' + (case res of Inr grant \<Rightarrow> real (unat grant) | Inl _ \<Rightarrow> 0) \<le> tokens b + as_secs (last_ns b' - last_ns b) * rate"
proof (cases "want = 0")
  case True
  then show ?thesis using assms by (auto simp: take_tokens_def as_secs_def)
next
  case False
  let ?b = "bucket_at topic burst start bks" and ?bks = "if bget bks topic = None then binsert topic (bucket_at topic burst start bks) bks else bks"
  have "take_tokens topic rate burst want now_ns ?bks = (bks', res)" "bget ?bks topic = Some ?b"
    using take_tokens_fresh [OF _ assms(1) False] assms(4) by (auto simp: bucket_at_def)
  from take_tokens_bucket [OF assms(1) this(2) assms(2) this(1) assms(3)]
  show ?thesis by (auto simp: bucket_at_def [of topic burst start bks'] Let_def)
qed

lemma refund_at:
  assumes "0 \<le> burst" and "bucket_ok burst (bucket_at topic burst start bks)"
  shows "let b = bucket_at topic burst start bks; b' = bucket_at topic burst start (refund topic amount burst bks)
    in bucket_ok burst b' \<and> last_ns b' = last_ns b \<and> tokens b' \<le> tokens b + real (unat amount)"
  using assms by (auto simp: bucket_at_def refund_def bucket_ok_def Let_def split: option.splits intro: add_nonneg_nonneg)

lemma net_granted_bucket:
  assumes "0 \<le> rate" and "bget bks topic = Some b" and "bucket_ok burst b"
    and "sorted (last_ns b # op_times ops)" and "\<forall>t \<in> set (op_times ops). t \<le> stop" and "last_ns b \<le> stop"
  shows "of_int (net_granted topic rate burst ops bks) \<le> tokens b + as_secs (stop - last_ns b) * rate"
  using assms(2-)
proof (induction ops arbitrary: bks b)
  case Nil
  then show ?case using assms(1) by (simp add: bucket_ok_def as_secs_def)
next
  case (Cons op ops)
  show ?case
  proof (cases op)
    case (Take want now_ns)
    obtain bks' res where tk: "take_tokens topic rate burst want now_ns bks = (bks', res)" by fastforce
    have le: "last_ns b \<le> now_ns" "now_ns \<le> stop" using Cons.prems(3,4) Take by auto
    obtain b' where b': "bget bks' topic = Some b'" "bucket_ok burst b'" "last_ns b' \<le> now_ns" "last_ns b \<le> last_ns b'"
        and tok: "tokens b' + (case res of Inr grant \<Rightarrow> real (unat grant) | Inl _ \<Rightarrow> 0) \<le> tokens b + as_secs (last_ns b' - last_ns b) * rate"
      using take_tokens_bucket [OF assms(1) Cons.prems(1,2) tk le(1)] by blast
    have "sorted (last_ns b' # op_times ops)" using Cons.prems(3) Take b'(3) by (auto intro: order_trans)
    then have IH: "of_int (net_granted topic rate burst ops bks') \<le> tokens b' + as_secs (stop - last_ns b') * rate"
      using Cons.prems(4) Take b'(3) le by (intro Cons.IH [OF b'(1,2)]) auto
    have split: "as_secs (last_ns b' - last_ns b) + as_secs (stop - last_ns b') = as_secs (stop - last_ns b)"
      using b'(3,4) le by (intro as_secs_split) auto
    have "as_secs (last_ns b' - last_ns b) * rate + as_secs (stop - last_ns b') * rate = as_secs (stop - last_ns b) * rate"
      unfolding split [symmetric] by (simp add: distrib_right)
    moreover have "of_int (net_granted topic rate burst (op # ops) bks) =
        (case res of Inr grant \<Rightarrow> real (unat grant) | Inl _ \<Rightarrow> 0) + of_int (net_granted topic rate burst ops bks')"
      using Take tk by (cases res) simp_all
    ultimately show ?thesis using IH tok by linarith
  next
    case (Refund amount)
    let ?b = "if amount = 0 then b else b\<lparr>tokens := min (tokens b + real (unat amount)) burst\<rparr>"
    have "bget (refund topic amount burst bks) topic = Some ?b" using Cons.prems(1) by (simp add: refund_def)
    moreover have "bucket_ok burst ?b" using Cons.prems(2) by (auto simp: bucket_ok_def intro: add_nonneg_nonneg)
    ultimately have "of_int (net_granted topic rate burst ops (refund topic amount burst bks)) \<le> tokens ?b + as_secs (stop - last_ns ?b) * rate"
      using Cons.prems(3-) Refund by (intro Cons.IH) auto
    moreover have "tokens ?b \<le> tokens b + real (unat amount)" "last_ns ?b = last_ns b" by auto
    ultimately show ?thesis using Refund by simp
  qed
qed

section \<open>Properties\<close>

text \<open>The limit is a limit: over any sequence of takes and refunds on a topic from its first take on, the tokens
  granted less the tokens refunded never exceed the burst plus the rate times the elapsed time.\<close>

lemma rate_limit_bound:
  assumes "0 \<le> rate" and "0 \<le> burst" and "bget bks topic = None" and "want \<noteq> 0"
    and "sorted (start # op_times ops)" and "\<forall>t \<in> set (start # op_times ops). t \<le> stop"
  shows "of_int (net_granted topic rate burst (Take want start # ops) bks) \<le> burst + as_secs (stop - start) * rate"
proof -
  let ?b = "\<lparr>tokens = burst, last_ns = start\<rparr>"
  have "take_tokens topic rate burst want start bks = take_tokens topic rate burst want start (binsert topic ?b bks)"
    by (rule take_tokens_fresh [OF assms(3,1,4)])
  then have "net_granted topic rate burst (Take want start # ops) bks = net_granted topic rate burst (Take want start # ops) (binsert topic ?b bks)"
    by simp
  moreover have "of_int (net_granted topic rate burst (Take want start # ops) (binsert topic ?b bks)) \<le> tokens ?b + as_secs (stop - last_ns ?b) * rate"
    using assms by (intro net_granted_bucket) (auto simp: bucket_ok_def)
  ultimately show ?thesis by simp
qed

text \<open>A refusal is honest: whoever waits the delay it names is granted a token, when the rate is positive, the
  burst allows one, and the delay fits its field.\<close>

theorem retry_delay_sufficient:
  assumes "0 < rate" and "1 \<le> burst" and "\<forall>b. bget bks topic = Some b \<longrightarrow> bucket_ok burst b \<and> last_ns b \<le> now_ns"
    and "take_tokens topic rate burst want now_ns bks = (bks', Inl retry)" and "1000 / rate < 2 ^ 64 - 1"
    and "now_ns + unat retry * 10 ^ 6 \<le> later" and "want' \<noteq> 0"
  shows "\<exists>bks'' grant. take_tokens topic rate burst want' later bks' = (bks'', Inr grant) \<and> grant \<noteq> 0"
proof -
  define b where "b = refill (case bget bks topic of Some b \<Rightarrow> b | None \<Rightarrow> \<lparr>tokens = burst, last_ns = now_ns\<rparr>) rate burst now_ns"
  have ok: "bucket_ok burst b" unfolding b_def using assms(1-3) by (intro refill_ok) (auto simp: bucket_ok_def split: option.splits)
  have l': "bget bks' topic = Some b" and retry: "retry = retry_delay (tokens b) rate"
    using assms(4) by (auto simp: take_tokens_def Let_def b_def split: if_splits)
  let ?need = "(1 - tokens b) / rate * 1000"
  have "?need \<le> 1000 / rate" using ok assms(1) by (simp add: bucket_ok_def divide_right_mono)
  then have small: "\<lceil>?need\<rceil> \<le> 2 ^ 64 - 1" using assms(5) by (simp add: ceiling_le_iff)
  have "?need \<le> real (unat retry)"
  proof -
    have "nat (min \<lceil>?need\<rceil> (2 ^ 64 - 1)) < 2 ^ 64" by (simp add: nat_less_iff)
    then have "unat retry = nat (min \<lceil>?need\<rceil> (2 ^ 64 - 1))"
      using retry assms(1) unat_of_nat_small [where 'a = 64, of "nat (min \<lceil>?need\<rceil> (2 ^ 64 - 1))"] by (simp add: retry_delay_def as_u64_def)
    then have "unat retry = nat \<lceil>?need\<rceil>" using small by (simp add: min_def)
    then show ?thesis by linarith
  qed
  then have "1 - tokens b \<le> real (unat retry) / 1000 * rate" using assms(1) by (simp add: field_simps)
  also have "\<dots> \<le> as_secs (later - now_ns) * rate"
  proof -
    have "unat retry * 10 ^ 6 \<le> later - now_ns" using assms(6) by simp
    then have "real (unat retry * 10 ^ 6) \<le> real (later - now_ns)" by (simp only: of_nat_le_iff)
    then have "real (unat retry) / 1000 \<le> as_secs (later - now_ns)" by (simp add: as_secs_def field_simps)
    then show ?thesis using assms(1) by (simp add: mult_right_mono)
  qed
  finally have one: "1 \<le> tokens (refill b rate burst later)" using assms(2) by (simp add: refill_def b_def)
  let ?g = "min (as_u32 (of_int \<lfloor>tokens (refill b rate burst later)\<rfloor>)) want'"
  have "1 \<le> unat (as_u32 (of_int \<lfloor>tokens (refill b rate burst later)\<rfloor>))"
    using one unat_as_u32 [of "tokens (refill b rate burst later)"] by (simp add: le_nat_iff le_floor_iff)
  then have "?g \<noteq> 0" using assms(7) by (auto simp: min_def unat_eq_zero)
  then show ?thesis using assms(7) l' by (simp add: take_tokens_def Let_def)
qed

theorem retry_delay_sufficient_witness:
  "\<exists>bks'' grant. take_tokens ''t'' 1 1 1 (10 ^ 9) (binsert ''t'' \<lparr>tokens = 0, last_ns = 0\<rparr> bempty) = (bks'', Inr grant) \<and> grant \<noteq> 0"
proof -
  let ?bks = "binsert ''t'' \<lparr>tokens = 0, last_ns = 0\<rparr> bempty"
  have t: "take_tokens ''t'' 1 1 1 0 ?bks = (?bks, Inl 1000)"
    by (simp add: take_tokens_def refill_def as_secs_def as_u32_def retry_delay_def as_u64_def btree_eval)
  show ?thesis by (rule retry_delay_sufficient [OF _ _ _ t]) (simp_all add: bucket_ok_def)
qed

end
