(* ===== verification/Client_Protocol.thy ===== *)
theory Client_Protocol
  imports Queue_Batches Rate_Limiter Framing Engine_Types
begin

text \<open>
  The client port of \<^verbatim>\<open>crates/hermesmq-core/src/client.rs\<close>: the protocol messages of
  \<^verbatim>\<open>hermesmq-proto/proto/hermesmq.proto\<close>, the response constructors, the admission checks, and the
  two batchers that turn concurrent produce and ack requests into replicated writes.

  The Raft node is the parameter \<open>raft_node\<close>: proposing a write, initialising the cluster, its
  metrics, and the queue of the local state machine, over a world of type \<open>'w\<close>. What the handlers
  rely on is \<open>raft_spec\<close>: a write that is answered was applied to the queue, after whatever other
  requests were committed before it. Reply channels are numbers.
\<close>

section \<open>Messages\<close>

record ProduceMsg =
  pr_topic :: string
  pr_priority :: u32
  pr_content_type :: u32
  pr_payload :: bytes
  pr_producer_id :: string
  pr_seq :: u64

record PollMsg =
  po_topic :: string
  po_group :: string
  po_max :: u32
  po_visibility_ms :: u64
  po_ack_mode :: string
  po_wait_ms :: u64

record SubscribeMsg =
  su_topic :: string
  su_group :: string
  su_prefetch :: u32
  su_visibility_ms :: u64
  su_ack_mode :: string

datatype Request =
    ProduceReq ProduceMsg
  | PollReq PollMsg
  | AckReq string string u64
  | NackReq string string u64
  | CommitReq string string u64
  | CreateTopicReq string
  | DeleteTopicReq string
  | StatsReq
  | BootstrapReq "(NodeId \<times> string) list"
  | SetRateLimitReq string real u32
  | SetRetentionReq string u64 u64
  | SubscribeReq SubscribeMsg
  | AuthReq string

record DeliveredMsg =
  de_lease_id :: u64
  de_offset :: u64
  de_priority :: u32
  de_content_type :: u32
  de_payload :: bytes
  de_ts_ms :: u64

record ErrorMsg =
  er_code :: string
  er_message :: string
  er_leader_addr :: string
  er_retry_after_ms :: u64

record StatsMsg =
  st_last_applied :: u64
  st_current_leader :: u64
  st_current_term :: u64
  st_last_log_index :: u64
  st_is_leader :: bool
  st_topics :: u64
  st_messages :: u64
  st_in_flight :: u64

datatype Response = ProducedResp u64 | PolledResp "DeliveredMsg list" | OkResp | ErrorResp ErrorMsg | StatsResp StatsMsg

section \<open>Responses\<close>

definition ct_from_u32 :: "u32 \<Rightarrow> ContentType" where
  "ct_from_u32 v = (if v = 1 then Text else if v = 2 then Json else if v = 3 then MsgPack else Raw)"

fun ct_to_u32 :: "ContentType \<Rightarrow> u32" where
  "ct_to_u32 Raw = 0"
| "ct_to_u32 Text = 1"
| "ct_to_u32 Json = 2"
| "ct_to_u32 MsgPack = 3"

definition resp_error :: "string \<Rightarrow> string \<Rightarrow> Response" where
  "resp_error code message = ErrorResp \<lparr>er_code = code, er_message = message, er_leader_addr = [], er_retry_after_ms = 0\<rparr>"

definition resp_not_leader :: "string \<Rightarrow> Response" where
  "resp_not_leader addr = ErrorResp \<lparr>er_code = ''not_leader'', er_message = ''not the leader; retry against leader_addr'',
     er_leader_addr = addr, er_retry_after_ms = 0\<rparr>"

definition resp_rate_limited :: "u64 \<Rightarrow> Response" where
  "resp_rate_limited retry_after_ms = ErrorResp \<lparr>er_code = ''rate_limited'', er_message = ''rate limit exceeded'',
     er_leader_addr = [], er_retry_after_ms = retry_after_ms\<rparr>"

definition delivered_msg :: "Delivered \<Rightarrow> DeliveredMsg" where
  "delivered_msg d = \<lparr>de_lease_id = d_lease_id d, de_offset = d_offset d, de_priority = ucast (d_priority d),
     de_content_type = ct_to_u32 (d_content_type d), de_payload = d_payload d, de_ts_ms = d_ts_ms d\<rparr>"

definition resp_polled :: "Delivered list \<Rightarrow> Response" where
  "resp_polled items = PolledResp (map delivered_msg items)"

datatype RaftError = ForwardToLeader "string option" | OtherRaftError string

fun map_raft_error :: "RaftError \<Rightarrow> Response" where
  "map_raft_error (ForwardToLeader addr) = resp_not_leader (case addr of Some a \<Rightarrow> a | None \<Rightarrow> [])"
| "map_raft_error (OtherRaftError text) = resp_error ''internal'' text"

fun app_response_to_proto :: "AppResponse \<Rightarrow> Response" where
  "app_response_to_proto (Produced offset) = ProducedResp offset"
| "app_response_to_proto (Polled items) = resp_polled items"
| "app_response_to_proto (Rejected reason) = resp_error ''rejected'' reason"
| "app_response_to_proto (ProducedMany offsets) = resp_error ''internal'' ''unexpected batched produce response''"
| "app_response_to_proto _ = OkResp"

section \<open>The node and the connection context\<close>

record RaftMetrics =
  rm_id :: NodeId
  rm_current_leader :: "NodeId option"
  rm_current_term :: u64
  rm_last_log_index :: "u64 option"
  rm_last_applied :: "LogId option"
  rm_quorum_ack_ms :: "u64 option"
  rm_node_addr :: "NodeId \<Rightarrow> string option"

datatype InitError = NotAllowed | OtherInitError string

record 'w raft_node =
  client_write :: "AppRequest \<Rightarrow> 'w \<Rightarrow> 'w \<times> (RaftError + AppResponse)"
  raft_initialize :: "(NodeId, string) btree \<Rightarrow> 'w \<Rightarrow> 'w \<times> (InitError + unit)"
  raft_metrics :: "'w \<Rightarrow> RaftMetrics"
  local_queue :: "'w \<Rightarrow> Queue"

definition raft_spec :: "'w raft_node \<Rightarrow> bool" where
  "raft_spec R \<longleftrightarrow> (\<forall>req w w' resp. client_write R req w = (w', Inr resp) \<longrightarrow>
     (\<exists>reqs. apply_request (fst (apply_all (local_queue R w) reqs)) req = (local_queue R w', resp)))"

text \<open>\<open>notifiers\<close> maps a topic to the number of handles on its notifier; \<open>woken\<close> records the notified topics.\<close>

record 'w Ctx =
  world :: 'w
  limiter :: limiter
  notifiers :: "(string, nat) btree"
  woken :: "string list"

definition NOTIFIER_GC_THRESHOLD :: nat where "NOTIFIER_GC_THRESHOLD = 4096"

definition gc_notifiers :: "(string, nat) btree \<Rightarrow> (string, nat) btree" where
  "gc_notifiers m = (if blen m > NOTIFIER_GC_THRESHOLD then bretain (\<lambda>_ handles. handles > 1) m else m)"

definition notifier :: "string \<Rightarrow> 'w Ctx \<Rightarrow> 'w Ctx" where
  "notifier topic ctx =
     (let m = gc_notifiers (notifiers ctx)
      in ctx\<lparr>notifiers := binsert topic (Suc (case bget m topic of Some handles \<Rightarrow> handles | None \<Rightarrow> 1)) m\<rparr>)"

text \<open>The handle that \<open>notifier\<close> returned goes out of scope.\<close>

definition drop_notifier :: "string \<Rightarrow> 'w Ctx \<Rightarrow> 'w Ctx" where
  "drop_notifier topic ctx = ctx\<lparr>notifiers := bmodify topic (\<lambda>handles. handles - 1) (notifiers ctx)\<rparr>"

definition notify :: "string \<Rightarrow> 'w Ctx \<Rightarrow> 'w Ctx" where
  "notify topic ctx = (if bcontains (notifiers ctx) topic then ctx\<lparr>woken := woken ctx @ [topic]\<rparr> else ctx)"

definition write_and_map :: "'w raft_node \<Rightarrow> AppRequest \<Rightarrow> 'w Ctx \<Rightarrow> 'w Ctx \<times> Response" where
  "write_and_map R app ctx = (case client_write R app (world ctx) of
     (w, Inr resp) \<Rightarrow> (ctx\<lparr>world := w\<rparr>, app_response_to_proto resp)
   | (w, Inl e) \<Rightarrow> (ctx\<lparr>world := w\<rparr>, map_raft_error e))"

definition leader_addr :: "RaftMetrics \<Rightarrow> string" where
  "leader_addr m = (case Option.bind (rm_current_leader m) (rm_node_addr m) of Some a \<Rightarrow> a | None \<Rightarrow> [])"

section \<open>Admission\<close>

definition check_len :: "string \<Rightarrow> string \<Rightarrow> nat \<Rightarrow> Response + unit" where
  "check_len kind value mx =
     (if length value > mx
      then Inl (resp_error ''bad_request'' (kind @ '' is '' @ decimal (length value) @ '' bytes; max is '' @ decimal mx))
      else Inr ())"

definition check_names :: "string \<Rightarrow> string \<Rightarrow> Response option" where
  "check_names topic grp =
     (case and_then (check_len ''topic name'' topic MAX_NAME_BYTES) (\<lambda>_. check_len ''group name'' grp MAX_NAME_BYTES) of
        Inl resp \<Rightarrow> Some resp
      | Inr _ \<Rightarrow> None)"

definition check_new_topic :: "'w raft_node \<Rightarrow> string \<Rightarrow> 'w Ctx \<Rightarrow> Response option" where
  "check_new_topic R topic ctx = (case check_names topic [] of
     Some resp \<Rightarrow> Some resp
   | None \<Rightarrow>
       if \<not> topic_admits (local_queue R (world ctx)) topic
       then Some (resp_error ''rejected'' (''topic limit of '' @ decimal MAX_TOPICS @ '' reached''))
       else None)"

definition MAX_PAYLOAD_BYTES :: nat where "MAX_PAYLOAD_BYTES = 1024 * 1024"

definition produce_check :: "'w raft_node \<Rightarrow> ProduceMsg \<Rightarrow> 'w Ctx \<Rightarrow> Response option" where
  "produce_check R p ctx =
     (if length (pr_payload p) > MAX_PAYLOAD_BYTES
      then Some (resp_error ''payload_too_large''
        (''payload is '' @ decimal (length (pr_payload p)) @ '' bytes; max is '' @ decimal MAX_PAYLOAD_BYTES))
      else case check_len ''producer id'' (pr_producer_id p) MAX_PRODUCER_ID_BYTES of
             Inl resp \<Rightarrow> Some resp
           | Inr _ \<Rightarrow> check_new_topic R (pr_topic p) ctx)"

section \<open>The produce batcher\<close>

definition PRODUCE_BATCH_MAX_ITEMS :: nat where "PRODUCE_BATCH_MAX_ITEMS = 256"
definition PRODUCE_BATCH_MAX_BYTES :: nat where "PRODUCE_BATCH_MAX_BYTES = 512 * 1024"
definition MAX_PRIORITY :: u32 where "MAX_PRIORITY = 7"

text \<open>The inner loop of \<^verbatim>\<open>produce_batcher\<close> on the jobs that are available: the batch and what stays queued.\<close>

fun collect_produce :: "ProduceMsg list \<Rightarrow> nat \<Rightarrow> ProduceMsg list \<Rightarrow> ProduceMsg list \<times> ProduceMsg list" where
  "collect_produce batch nbytes [] = (batch, [])"
| "collect_produce batch nbytes (job # queued) =
     (if length batch < PRODUCE_BATCH_MAX_ITEMS \<and> nbytes < PRODUCE_BATCH_MAX_BYTES
      then collect_produce (batch @ [job]) (nbytes + length (pr_payload job)) queued
      else (batch, job # queued))"

definition next_batch :: "ProduceMsg \<Rightarrow> ProduceMsg list \<Rightarrow> ProduceMsg list \<times> ProduceMsg list" where
  "next_batch first queued = collect_produce [first] (length (pr_payload first)) queued"

definition job_item :: "u64 \<Rightarrow> ProduceMsg \<Rightarrow> ProduceItem" where
  "job_item ts_ms p = \<lparr>p_topic = pr_topic p, p_priority = ucast (min (pr_priority p) MAX_PRIORITY),
     p_content_type = ct_from_u32 (pr_content_type p), p_payload = pr_payload p, p_producer_id = pr_producer_id p,
     p_seq = pr_seq p, p_ts_ms = ts_ms\<rparr>"

definition batch_topics :: "ProduceMsg list \<Rightarrow> string list" where
  "batch_topics jobs = foldl (\<lambda>ts job. if List.member ts (pr_topic job) then ts else ts @ [pr_topic job]) [] jobs"

text \<open>The replies in job order; \<open>None\<close> is a reply channel that is dropped unanswered. The text of an
  unexpected response is its \<^verbatim>\<open>Debug\<close> form, the parameter \<open>debug\<close>.\<close>

fun zip_replies :: "'a list \<Rightarrow> Offset list \<Rightarrow> Response option list" where
  "zip_replies [] offsets = []"
| "zip_replies (job # jobs) [] = None # zip_replies jobs []"
| "zip_replies (job # jobs) (offset # offsets) = Some (ProducedResp offset) # zip_replies jobs offsets"

definition write_produce_batch :: "'w raft_node \<Rightarrow> (AppResponse \<Rightarrow> string) \<Rightarrow> u64 \<Rightarrow> ProduceMsg list \<Rightarrow> 'w Ctx \<Rightarrow> 'w Ctx \<times> Response option list" where
  "write_produce_batch R debug ts_ms jobs ctx =
     (case client_write R (ProduceMany (map (job_item ts_ms) jobs)) (world ctx) of
        (w, Inr (ProducedMany offsets)) \<Rightarrow>
          (fold notify (batch_topics jobs) (ctx\<lparr>world := w\<rparr>), zip_replies jobs offsets)
      | (w, Inr other) \<Rightarrow>
          (ctx\<lparr>world := w\<rparr>, map (\<lambda>_. Some (resp_error ''internal'' (''unexpected batch response: '' @ debug other))) jobs)
      | (w, Inl e) \<Rightarrow> (ctx\<lparr>world := w\<rparr>, map (\<lambda>_. Some (map_raft_error e)) jobs))"

text \<open>A produce request is answered with the reply to its job in the batch it ends up in.\<close>

definition handle_produce :: "'w raft_node \<Rightarrow> (AppResponse \<Rightarrow> string) \<Rightarrow> u64 \<Rightarrow> ProduceMsg list \<Rightarrow> ProduceMsg list \<Rightarrow> ProduceMsg \<Rightarrow> 'w Ctx \<Rightarrow> 'w Ctx \<times> Response" where
  "handle_produce R debug ts_ms earlier later p ctx = (case produce_check R p ctx of
     Some resp \<Rightarrow> (ctx, resp)
   | None \<Rightarrow> (case write_produce_batch R debug ts_ms (earlier @ p # later) ctx of
       (ctx, replies) \<Rightarrow> (ctx, case replies ! length earlier of
          Some resp \<Rightarrow> resp
        | None \<Rightarrow> resp_error ''internal'' ''produce batcher dropped the request'')))"

section \<open>The ack batcher\<close>

definition ACK_BATCH_MAX :: nat where "ACK_BATCH_MAX = 1024"

record AckJob =
  aj_topic :: string
  aj_group :: string
  aj_lease :: LeaseId
  aj_nack :: bool
  aj_reply :: "nat option"

type_synonym ack_key = "string \<times> string \<times> bool"
type_synonym ack_group = "LeaseId list \<times> nat list"

definition next_acks :: "AckJob list \<Rightarrow> AckJob list \<times> AckJob list" where
  "next_acks queued = (take ACK_BATCH_MAX queued, drop ACK_BATCH_MAX queued)"

definition job_key :: "AckJob \<Rightarrow> ack_key" where
  "job_key j = (aj_topic j, aj_group j, aj_nack j)"

definition add_job :: "(ack_key, ack_group) btree \<Rightarrow> AckJob \<Rightarrow> (ack_key, ack_group) btree" where
  "add_job m j =
     (let (lids, replies) = (case bget m (job_key j) of Some g \<Rightarrow> g | None \<Rightarrow> ([], []))
      in binsert (job_key j) (lids @ [aj_lease j], replies @ (case aj_reply j of Some r \<Rightarrow> [r] | None \<Rightarrow> [])) m)"

definition ack_groups :: "AckJob list \<Rightarrow> (ack_key, ack_group) btree" where
  "ack_groups jobs = foldl add_job bempty jobs"

definition ack_request :: "ack_key \<Rightarrow> LeaseId list \<Rightarrow> AppRequest" where
  "ack_request k lids = (case k of (topic, grp, is_nack) \<Rightarrow> if is_nack then NackMany topic grp lids else AckMany topic grp lids)"

definition write_ack_group :: "'w raft_node \<Rightarrow> ack_key \<times> ack_group \<Rightarrow> 'w Ctx \<Rightarrow> 'w Ctx \<times> (nat \<times> Response) list" where
  "write_ack_group R e ctx = (case e of ((topic, grp, is_nack), (lids, replies)) \<Rightarrow>
     (case write_and_map R (ack_request (topic, grp, is_nack) lids) ctx of (ctx, resp) \<Rightarrow>
       (if is_nack \<and> resp = OkResp then notify topic ctx else ctx, map (\<lambda>r. (r, resp)) replies)))"

fun write_ack_groups :: "'w raft_node \<Rightarrow> (ack_key \<times> ack_group) list \<Rightarrow> 'w Ctx \<Rightarrow> 'w Ctx \<times> (nat \<times> Response) list" where
  "write_ack_groups R [] ctx = (ctx, [])"
| "write_ack_groups R (e # es) ctx =
     (let (ctx, sent) = write_ack_group R e ctx; (ctx, rest) = write_ack_groups R es ctx in (ctx, sent @ rest))"

definition ack_round :: "'w raft_node \<Rightarrow> AckJob list \<Rightarrow> 'w Ctx \<Rightarrow> 'w Ctx \<times> (nat \<times> Response) list" where
  "ack_round R jobs ctx = write_ack_groups R (entries (ack_groups jobs)) ctx"

end
