(* ===== verification/Client_Handlers.thy ===== *)
theory Client_Handlers
  imports Client_Protocol
begin

text \<open>
  The request handlers of \<^verbatim>\<open>client.rs\<close>: the long poll with its rate limit, bootstrap, statistics
  and the dispatcher \<^verbatim>\<open>handle_request\<close>. The clocks a handler reads, and what other tasks do while it
  waits, are arguments: the long poll takes the list of its rounds, and a produce or an ack takes the
  other jobs of the batch it ends up in.
\<close>

section \<open>The long poll\<close>

definition DEFAULT_POLL_MAX :: u32 where "DEFAULT_POLL_MAX = 16"
definition MAX_POLL_MAX :: u32 where "MAX_POLL_MAX = 1024"
definition DEFAULT_VISIBILITY_MS :: u64 where "DEFAULT_VISIBILITY_MS = 30000"
definition MAX_WAIT_MS :: u64 where "MAX_WAIT_MS = 300000"

text \<open>One turn of the loop: what happened to the node since the last one, the clocks that are read, and
  whether the deadline has passed.\<close>

record 'w PollRound =
  meanwhile :: "'w Ctx \<Rightarrow> 'w Ctx"
  check_ms :: u64
  take_ns :: nat
  write_ms :: u64
  late :: bool

definition is_leader :: "RaftMetrics \<Rightarrow> bool" where
  "is_leader m \<longleftrightarrow> rm_current_leader m = Some (rm_id m)"

definition poll_limit :: "u32 \<Rightarrow> u32" where
  "poll_limit mx = (if mx = 0 then DEFAULT_POLL_MAX else min mx MAX_POLL_MAX)"

definition poll_visibility :: "u64 \<Rightarrow> u64" where
  "poll_visibility v = (if v = 0 then DEFAULT_VISIBILITY_MS else min v MAX_VISIBILITY_MS)"

definition poll_app :: "bool \<Rightarrow> string \<Rightarrow> string \<Rightarrow> u32 \<Rightarrow> u64 \<Rightarrow> u64 \<Rightarrow> AppRequest" where
  "poll_app auto_ack topic grp granted visibility ts_ms =
     (if auto_ack then PollAuto topic grp granted visibility ts_ms else Poll topic grp granted visibility ts_ms)"

text \<open>The tokens a poll takes when the topic has a limit, and the return of those it did not use.\<close>

definition take_grant :: "(u64 \<times> u32) option \<Rightarrow> string \<Rightarrow> u32 \<Rightarrow> nat \<Rightarrow> 'w Ctx \<Rightarrow> 'w Ctx \<times> (u64 + u32)" where
  "take_grant rate_cfg topic want now_ns ctx = (case rate_cfg of
     None \<Rightarrow> (ctx, Inr want)
   | Some (rate_milli, brst) \<Rightarrow>
       (case take_tokens topic (real (unat rate_milli) / 1000) (real (unat (max brst 1))) want now_ns (limiter ctx) of
          (l, res) \<Rightarrow> (ctx\<lparr>limiter := l\<rparr>, res)))"

definition return_grant :: "(u64 \<times> u32) option \<Rightarrow> string \<Rightarrow> u32 \<Rightarrow> Delivered list \<Rightarrow> 'w Ctx \<Rightarrow> 'w Ctx" where
  "return_grant rate_cfg topic granted items ctx = (case rate_cfg of
     None \<Rightarrow> ctx
   | Some (_, brst) \<Rightarrow> ctx\<lparr>limiter := refund topic (saturating_sub granted (of_nat (length items))) (real (unat (max brst 1))) (limiter ctx)\<rparr>)"

text \<open>An attempt to lease messages: \<open>Inl\<close> is an answer that ends the poll, \<open>Inr\<close> the leased items.\<close>

definition poll_attempt :: "'w raft_node \<Rightarrow> PollMsg \<Rightarrow> 'w PollRound \<Rightarrow> 'w Ctx \<Rightarrow> 'w Ctx \<times> (Response + Delivered list)" where
  "poll_attempt R p r ctx =
     (if \<not> has_deliverable (local_queue R (world ctx)) (po_topic p) (po_group p) (check_ms r) then (ctx, Inr [])
      else let rate_cfg = rate_config (local_queue R (world ctx)) (po_topic p)
           in case take_grant rate_cfg (po_topic p) (poll_limit (po_max p)) (take_ns r) ctx of
                (ctx, Inl retry) \<Rightarrow> (ctx, Inl (resp_rate_limited retry))
              | (ctx, Inr granted) \<Rightarrow>
                  (case client_write R (poll_app (po_ack_mode p = ''auto'') (po_topic p) (po_group p) granted
                          (poll_visibility (po_visibility_ms p)) (write_ms r)) (world ctx) of
                     (w, Inl e) \<Rightarrow> (ctx\<lparr>world := w\<rparr>, Inl (map_raft_error e))
                   | (w, Inr (Polled items)) \<Rightarrow> (return_grant rate_cfg (po_topic p) granted items (ctx\<lparr>world := w\<rparr>), Inr items)
                   | (w, Inr other) \<Rightarrow> (ctx\<lparr>world := w\<rparr>, Inl (app_response_to_proto other))))"

definition poll_turn :: "'w raft_node \<Rightarrow> PollMsg \<Rightarrow> 'w PollRound \<Rightarrow> 'w Ctx \<Rightarrow> 'w Ctx \<times> Response option" where
  "poll_turn R p r ctx =
     (case poll_attempt R p r (notifier (po_topic p) (meanwhile r ctx)) of (ctx, res) \<Rightarrow>
        (drop_notifier (po_topic p) ctx,
         case res of
           Inl resp \<Rightarrow> Some resp
         | Inr items \<Rightarrow>
             if items \<noteq> [] then Some (resp_polled items)
             else if min (po_wait_ms p) MAX_WAIT_MS = 0 \<or> late r then Some (resp_polled [])
             else None))"

text \<open>\<open>None\<close> when the rounds that were given end before the poll is answered.\<close>

fun poll_loop :: "'w raft_node \<Rightarrow> PollMsg \<Rightarrow> 'w PollRound list \<Rightarrow> 'w Ctx \<Rightarrow> 'w Ctx \<times> Response option" where
  "poll_loop R p [] ctx = (ctx, None)"
| "poll_loop R p (r # rs) ctx = (case poll_turn R p r ctx of
     (ctx, Some resp) \<Rightarrow> (ctx, Some resp)
   | (ctx, None) \<Rightarrow> poll_loop R p rs ctx)"

definition handle_poll :: "'w raft_node \<Rightarrow> PollMsg \<Rightarrow> 'w PollRound list \<Rightarrow> 'w Ctx \<Rightarrow> 'w Ctx \<times> Response option" where
  "handle_poll R p rounds ctx =
     (if \<not> is_leader (raft_metrics R (world ctx)) then (ctx, Some (resp_not_leader (leader_addr (raft_metrics R (world ctx)))))
      else case check_names (po_topic p) (po_group p) of
             Some resp \<Rightarrow> (ctx, Some resp)
           | None \<Rightarrow> poll_loop R p rounds ctx)"

section \<open>Administration\<close>

definition handle_bootstrap :: "'w raft_node \<Rightarrow> (NodeId \<times> string) list \<Rightarrow> 'w Ctx \<Rightarrow> 'w Ctx \<times> Response" where
  "handle_bootstrap R nodes ctx = (case raft_initialize R (bof_list nodes) (world ctx) of
     (w, res) \<Rightarrow> (ctx\<lparr>world := w\<rparr>, case res of
        Inr _ \<Rightarrow> OkResp
      | Inl NotAllowed \<Rightarrow> OkResp
      | Inl (OtherInitError text) \<Rightarrow> resp_error ''bootstrap_failed'' text))"

definition stats_response :: "RaftMetrics \<Rightarrow> Queue \<Rightarrow> Response" where
  "stats_response m q = StatsResp \<lparr>
     st_last_applied = (case rm_last_applied m of Some l \<Rightarrow> log_index l | None \<Rightarrow> 0),
     st_current_leader = (case rm_current_leader m of Some l \<Rightarrow> l | None \<Rightarrow> 0),
     st_current_term = rm_current_term m,
     st_last_log_index = (case rm_last_log_index m of Some i \<Rightarrow> i | None \<Rightarrow> 0),
     st_is_leader = is_leader m,
     st_topics = qm_topics (metrics q), st_messages = qm_messages (metrics q), st_in_flight = qm_in_flight (metrics q)\<rparr>"

section \<open>Dispatch\<close>

text \<open>What the environment contributes to a request: the clock, the other jobs of its batch and, for a poll, its rounds.\<close>

record 'w RequestEnv =
  env_now_ms :: u64
  env_earlier :: "ProduceMsg list"
  env_later :: "ProduceMsg list"
  env_acks_earlier :: "AckJob list"
  env_acks_later :: "AckJob list"
  env_reply :: nat
  env_rounds :: "'w PollRound list"

definition enqueue_ack :: "'w raft_node \<Rightarrow> 'w RequestEnv \<Rightarrow> string \<Rightarrow> string \<Rightarrow> u64 \<Rightarrow> bool \<Rightarrow> 'w Ctx \<Rightarrow> 'w Ctx \<times> Response" where
  "enqueue_ack R env topic grp lid is_nack ctx =
     (let job = \<lparr>aj_topic = topic, aj_group = grp, aj_lease = lid, aj_nack = is_nack, aj_reply = Some (env_reply env)\<rparr>
      in case ack_round R (env_acks_earlier env @ job # env_acks_later env) ctx of
           (ctx, sent) \<Rightarrow> (ctx, case map_of sent (env_reply env) of
              Some resp \<Rightarrow> resp
            | None \<Rightarrow> resp_error ''internal'' ''ack batcher dropped the request''))"

text \<open>\<^verbatim>\<open>f64::round\<close>: the nearest integer, halves away from zero.\<close>

definition round_f64 :: "real \<Rightarrow> real" where
  "round_f64 x = (if x \<ge> 0 then of_int \<lfloor>x + 1 / 2\<rfloor> else - of_int \<lfloor>1 / 2 - x\<rfloor>)"

definition checked_write :: "'w raft_node \<Rightarrow> Response option \<Rightarrow> AppRequest \<Rightarrow> 'w Ctx \<Rightarrow> 'w Ctx \<times> Response" where
  "checked_write R refused app ctx = (case refused of Some resp \<Rightarrow> (ctx, resp) | None \<Rightarrow> write_and_map R app ctx)"

definition delete_topic :: "'w raft_node \<Rightarrow> string \<Rightarrow> 'w Ctx \<Rightarrow> 'w Ctx \<times> Response" where
  "delete_topic R topic ctx = (case write_and_map R (DeleteTopic topic) ctx of (ctx, resp) \<Rightarrow>
     (if resp = OkResp then ctx\<lparr>notifiers := bremove topic (notifiers ctx), limiter := forget topic (limiter ctx)\<rparr> else ctx, resp))"

definition answered :: "'w Ctx \<times> Response \<Rightarrow> 'w Ctx \<times> Response option" where
  "answered res = (fst res, Some (snd res))"

fun handle_request :: "'w raft_node \<Rightarrow> (AppResponse \<Rightarrow> string) \<Rightarrow> 'w RequestEnv \<Rightarrow> Request option \<Rightarrow> 'w Ctx \<Rightarrow> 'w Ctx \<times> Response option" where
  "handle_request R debug env None ctx = (ctx, Some (resp_error ''bad_request'' ''empty request''))"
| "handle_request R debug env (Some (BootstrapReq nodes)) ctx = answered (handle_bootstrap R nodes ctx)"
| "handle_request R debug env (Some StatsReq) ctx = (ctx, Some (stats_response (raft_metrics R (world ctx)) (local_queue R (world ctx))))"
| "handle_request R debug env (Some (ProduceReq p)) ctx =
     answered (handle_produce R debug (env_now_ms env) (env_earlier env) (env_later env) p ctx)"
| "handle_request R debug env (Some (PollReq p)) ctx = handle_poll R p (env_rounds env) ctx"
| "handle_request R debug env (Some (AuthReq _)) ctx = (ctx, Some OkResp)"
| "handle_request R debug env (Some (SetRateLimitReq topic rate brst)) ctx =
     answered (checked_write R (check_new_topic R topic ctx) (SetRateLimit topic (as_u64 (round_f64 (rate * 1000))) brst) ctx)"
| "handle_request R debug env (Some (SetRetentionReq topic max_messages max_age)) ctx =
     answered (checked_write R (check_new_topic R topic ctx) (SetRetention topic max_messages max_age) ctx)"
| "handle_request R debug env (Some (AckReq topic grp lid)) ctx = answered (case check_names topic grp of
     Some resp \<Rightarrow> (ctx, resp)
   | None \<Rightarrow> enqueue_ack R env topic grp lid False ctx)"
| "handle_request R debug env (Some (NackReq topic grp lid)) ctx = answered (case check_names topic grp of
     Some resp \<Rightarrow> (ctx, resp)
   | None \<Rightarrow> enqueue_ack R env topic grp lid True ctx)"
| "handle_request R debug env (Some (CommitReq topic grp offset)) ctx =
     answered (checked_write R (check_names topic grp) (CommitOffsetAt topic grp offset (env_now_ms env)) ctx)"
| "handle_request R debug env (Some (CreateTopicReq topic)) ctx =
     answered (checked_write R (check_new_topic R topic ctx) (CreateTopic topic) ctx)"
| "handle_request R debug env (Some (DeleteTopicReq topic)) ctx = answered (delete_topic R topic ctx)"
| "handle_request R debug env (Some (SubscribeReq _)) ctx =
     (ctx, Some (resp_error ''bad_request'' ''subscribe takes over its connection''))"

end
