(* ===== verification/Sub_Tracking.thy ===== *)
theory Sub_Tracking
  imports Wire_Types Storage_Model
begin

text \<open>
  The bookkeeping of one push subscription, \<^verbatim>\<open>SubTracking\<close> in
  \<^verbatim>\<open>crates/hermesmq-core/src/client.rs\<close>: which offsets the subscriber holds, under which lease ids
  it knows them, and which it acknowledged a moment ago. The \<^verbatim>\<open>HashMap\<close>s are ordered maps here;
  where the source iterates over one, the order is only that of the leases \<^verbatim>\<open>drain_leases\<close> returns.
\<close>

section \<open>State and operations\<close>

definition SUBSCRIBE_MAX_LEASE_REFRESHES :: u32 where "SUBSCRIBE_MAX_LEASE_REFRESHES = 2"
definition SUBSCRIBE_MAX_LEASE_ALIASES :: nat where "SUBSCRIBE_MAX_LEASE_ALIASES = 8"

record OffsetTrack =
  track_lease :: LeaseId
  track_deadline :: u64
  refreshes :: u32
  leases :: "LeaseId list"

datatype Delivery = Push | Refreshed | AlreadyAcked

record SubTracking =
  by_offset :: "(Offset, OffsetTrack) btree"
  lease_to_offset :: "(LeaseId, Offset) btree"
  acked_recently :: "(Offset, u64) btree"

definition sub_default :: SubTracking where
  "sub_default = \<lparr>by_offset = bempty, lease_to_offset = bempty, acked_recently = bempty\<rparr>"

definition track_refresh :: "OffsetTrack \<Rightarrow> LeaseId \<Rightarrow> u64 \<Rightarrow> OffsetTrack" where
  "track_refresh track lid deadline =
     track\<lparr>refreshes := (if refreshes track < SUBSCRIBE_MAX_LEASE_REFRESHES then refreshes track + 1 else 0),
           track_lease := lid, track_deadline := deadline, leases := leases track @ [lid]\<rparr>"

definition deliver :: "Offset \<Rightarrow> LeaseId \<Rightarrow> u64 \<Rightarrow> u64 \<Rightarrow> SubTracking \<Rightarrow> SubTracking \<times> Delivery" where
  "deliver offset lid deadline now_ms t =
     (if (case bget (acked_recently t) offset of Some until \<Rightarrow> until > now_ms | None \<Rightarrow> False) then (t, AlreadyAcked)
      else let t = t\<lparr>acked_recently := bremove offset (acked_recently t)\<rparr>
           in case bget (by_offset t) offset of
                Some track \<Rightarrow>
                  (let refresh = refreshes track < SUBSCRIBE_MAX_LEASE_REFRESHES;
                       track = track_refresh track lid deadline;
                       (track, l2o) = (if length (leases track) > SUBSCRIBE_MAX_LEASE_ALIASES
                         then (track\<lparr>leases := tl (leases track)\<rparr>, bremove (hd (leases track)) (lease_to_offset t))
                         else (track, lease_to_offset t))
                   in (t\<lparr>by_offset := binsert offset track (by_offset t), lease_to_offset := binsert lid offset l2o\<rparr>,
                       if refresh then Refreshed else Push))
              | None \<Rightarrow>
                  (t\<lparr>by_offset := binsert offset \<lparr>track_lease = lid, track_deadline = deadline, refreshes = 0, leases = [lid]\<rparr> (by_offset t),
                     lease_to_offset := binsert lid offset (lease_to_offset t)\<rparr>, Push))"

definition resolve :: "LeaseId \<Rightarrow> u64 option \<Rightarrow> SubTracking \<Rightarrow> SubTracking \<times> LeaseId option" where
  "resolve lid acked_until t = (case bget (lease_to_offset t) lid of
     None \<Rightarrow> (t, None)
   | Some offset \<Rightarrow> (case bget (by_offset t) offset of
       None \<Rightarrow> (t, None)
     | Some track \<Rightarrow>
         (t\<lparr>by_offset := bremove offset (by_offset t), lease_to_offset := remove_all (leases track) (lease_to_offset t),
            acked_recently := (case acked_until of Some until \<Rightarrow> binsert offset until (acked_recently t) | None \<Rightarrow> acked_recently t)\<rparr>,
          Some (track_lease track))))"

definition drain_leases :: "SubTracking \<Rightarrow> SubTracking \<times> LeaseId list" where
  "drain_leases t = (sub_default, map track_lease (bvalues (by_offset t)))"

definition forget_offset :: "SubTracking \<Rightarrow> Offset \<Rightarrow> SubTracking" where
  "forget_offset t offset = (case bget (by_offset t) offset of
     None \<Rightarrow> t
   | Some track \<Rightarrow> t\<lparr>by_offset := bremove offset (by_offset t), lease_to_offset := remove_all (leases track) (lease_to_offset t)\<rparr>)"

definition live_count :: "u64 \<Rightarrow> u64 \<Rightarrow> SubTracking \<Rightarrow> SubTracking \<times> nat" where
  "live_count now_ms grace_ms t =
     (let t = t\<lparr>acked_recently := bretain (\<lambda>_ until. until > now_ms) (acked_recently t)\<rparr>;
          stale = map fst (filter (\<lambda>(_, track). saturating_add (track_deadline track) grace_ms \<le> now_ms) (entries (by_offset t)));
          t = foldl forget_offset t stale
      in (t, length (filter (\<lambda>track. track_deadline track > now_ms) (bvalues (by_offset t)))))"

text \<open>The two loops of \<^verbatim>\<open>debug_check_invariants\<close>; the messages print the offending ids.\<close>

definition debug_check_invariants :: "SubTracking \<Rightarrow> bool" where
  "debug_check_invariants t \<longleftrightarrow>
     list_all (\<lambda>(lid, offset). case bget (by_offset t) offset of None \<Rightarrow> False | Some track \<Rightarrow> lid \<in> set (leases track)) (entries (lease_to_offset t)) \<and>
     list_all (\<lambda>(_, track). length (leases track) \<le> SUBSCRIBE_MAX_LEASE_ALIASES + 1 \<and> track_lease track \<in> set (leases track)) (entries (by_offset t))"

definition debug_sizes :: "SubTracking \<Rightarrow> nat \<times> nat \<times> nat" where
  "debug_sizes t = (blen (by_offset t), blen (lease_to_offset t), blen (acked_recently t))"

section \<open>Invariant\<close>

definition track_ok :: "(LeaseId, Offset) btree \<Rightarrow> Offset \<Rightarrow> OffsetTrack \<Rightarrow> bool" where
  "track_ok l2o offset track \<longleftrightarrow> leases track \<noteq> [] \<and> track_lease track = last (leases track) \<and> distinct (leases track) \<and>
     length (leases track) \<le> SUBSCRIBE_MAX_LEASE_ALIASES \<and> refreshes track \<le> SUBSCRIBE_MAX_LEASE_REFRESHES \<and>
     (\<forall>lid. lid \<in> set (leases track) \<longleftrightarrow> bget l2o lid = Some offset)"

definition sub_inv :: "SubTracking \<Rightarrow> bool" where
  "sub_inv t \<longleftrightarrow> (\<forall>offset track. bget (by_offset t) offset = Some track \<longrightarrow> track_ok (lease_to_offset t) offset track) \<and>
     (\<forall>lid offset. bget (lease_to_offset t) lid = Some offset \<longrightarrow> bget (by_offset t) offset \<noteq> None)"

lemma sub_inv_default: "sub_inv sub_default"
  by (simp add: sub_inv_def sub_default_def)

lemma sub_inv_track: "sub_inv t \<Longrightarrow> bget (by_offset t) offset = Some track \<Longrightarrow> track_ok (lease_to_offset t) offset track"
  by (simp add: sub_inv_def)

lemma sub_inv_lease: "sub_inv t \<Longrightarrow> bget (lease_to_offset t) lid = Some offset \<Longrightarrow> \<exists>track. bget (by_offset t) offset = Some track"
  by (simp add: sub_inv_def)

lemma sub_inv_checks:
  assumes "sub_inv t"
  shows "debug_check_invariants t"
proof -
  have "case bget (by_offset t) offset of None \<Rightarrow> False | Some track \<Rightarrow> lid \<in> set (leases track)"
    if "bget (lease_to_offset t) lid = Some offset" for lid offset
    using sub_inv_lease [OF assms that] sub_inv_track [OF assms, of offset] that by (auto simp: track_ok_def)
  moreover have "length (leases track) \<le> SUBSCRIBE_MAX_LEASE_ALIASES + 1 \<and> track_lease track \<in> set (leases track)"
    if "bget (by_offset t) offset = Some track" for offset track
    using sub_inv_track [OF assms that] unfolding track_ok_def by (metis last_in_set le_Suc_eq Suc_eq_plus1)
  ultimately show ?thesis by (auto simp: debug_check_invariants_def list_all_iff bget_entries)
qed

lemma sub_inv_forget:
  assumes "sub_inv t" and "bget (by_offset t) offset = Some track"
  shows "sub_inv (t\<lparr>by_offset := bremove offset (by_offset t), lease_to_offset := remove_all (leases track) (lease_to_offset t), acked_recently := a\<rparr>)"
  using assms by (auto simp: sub_inv_def track_ok_def)

lemma sub_inv_resolve [keeps_inv]: "sub_inv t \<Longrightarrow> sub_inv (fst (resolve lid acked_until t))"
  using sub_inv_forget by (auto simp: resolve_def split: option.splits)

lemma sub_inv_forget_offset: "sub_inv t \<Longrightarrow> sub_inv (forget_offset t offset)"
  using sub_inv_forget [of t offset _ "acked_recently t"] by (auto simp: forget_offset_def split: option.splits)

lemma sub_inv_live_count [keeps_inv]: "sub_inv t \<Longrightarrow> sub_inv (fst (live_count now_ms grace_ms t))"
proof -
  assume "sub_inv t"
  then have "sub_inv (t\<lparr>acked_recently := a\<rparr>)" for a by (simp add: sub_inv_def)
  then show ?thesis unfolding live_count_def Let_def fst_conv by (rule foldl_invariant) (rule sub_inv_forget_offset)
qed

lemma sub_inv_drain [keeps_inv]: "sub_inv (fst (drain_leases t))"
  by (simp add: drain_leases_def sub_inv_default)

lemma sub_inv_deliver [keeps_inv]:
  assumes inv: "sub_inv t" and fresh: "bget (lease_to_offset t) lid = None"
  shows "sub_inv (fst (deliver offset lid deadline now_ms t))"
proof (cases "case bget (acked_recently t) offset of Some until \<Rightarrow> until > now_ms | None \<Rightarrow> False")
  case False
  note unacked = False
  show ?thesis
  proof (cases "bget (by_offset t) offset")
    case None
    then have "bget (lease_to_offset t) l \<noteq> Some offset" for l using sub_inv_lease [OF inv, of l offset] by auto
    then show ?thesis using False None inv fresh
      by (auto simp: deliver_def sub_inv_def track_ok_def SUBSCRIBE_MAX_LEASE_ALIASES_def SUBSCRIBE_MAX_LEASE_REFRESHES_def)
  next
    case (Some track)
    note ok = sub_inv_track [OF inv Some, unfolded track_ok_def]
    have new: "lid \<notin> set (leases track)" using ok fresh by auto
    have ref: "refreshes (track_refresh track lid deadline) \<le> SUBSCRIBE_MAX_LEASE_REFRESHES"
      by (auto simp: track_refresh_def SUBSCRIBE_MAX_LEASE_REFRESHES_def word_less_nat_alt word_le_nat_alt unat_word_ariths)
    obtain old rest where l: "leases track = old # rest" using ok by (cases "leases track") auto
    then have old: "bget (lease_to_offset t) old = Some offset" using ok by auto
    show ?thesis
    proof (cases "length (leases track @ [lid]) > SUBSCRIBE_MAX_LEASE_ALIASES")
      case True
      let ?track = "(track_refresh track lid deadline)\<lparr>leases := rest @ [lid]\<rparr>"
      let ?l2o = "binsert lid offset (bremove old (lease_to_offset t))"
      have d: "fst (deliver offset lid deadline now_ms t) =
          t\<lparr>by_offset := binsert offset ?track (by_offset t), lease_to_offset := ?l2o, acked_recently := bremove offset (acked_recently t)\<rparr>"
        using unacked Some True l by (simp add: deliver_def track_refresh_def Let_def)
      have "track_ok ?l2o offset ?track" using ok new ref l True by (auto simp: track_ok_def track_refresh_def)
      moreover have "track_ok ?l2o o' tr'" if "bget (by_offset t) o' = Some tr'" "o' \<noteq> offset" for o' tr'
        using sub_inv_track [OF inv that(1)] that(2) fresh old by (auto simp: track_ok_def)
      moreover have "bget (by_offset t) o' \<noteq> None" if "bget (lease_to_offset t) l' = Some o'" for l' o'
        using inv that by (auto simp: sub_inv_def)
      ultimately show ?thesis unfolding d sub_inv_def by auto
    next
      case False
      let ?track = "track_refresh track lid deadline" and ?l2o = "binsert lid offset (lease_to_offset t)"
      have d: "fst (deliver offset lid deadline now_ms t) =
          t\<lparr>by_offset := binsert offset ?track (by_offset t), lease_to_offset := ?l2o, acked_recently := bremove offset (acked_recently t)\<rparr>"
        using unacked Some False by (simp add: deliver_def track_refresh_def Let_def)
      have "track_ok ?l2o offset ?track" using ok new ref False by (auto simp: track_ok_def track_refresh_def)
      moreover have "track_ok ?l2o o' tr'" if "bget (by_offset t) o' = Some tr'" "o' \<noteq> offset" for o' tr'
        using inv that fresh by (auto simp: sub_inv_def track_ok_def)
      moreover have "bget (by_offset t) o' \<noteq> None" if "bget (lease_to_offset t) l' = Some o'" for l' o'
        using inv that by (auto simp: sub_inv_def)
      ultimately show ?thesis unfolding d sub_inv_def by auto
    qed
  qed
qed (use inv in \<open>simp add: deliver_def\<close>)

section \<open>What \<^verbatim>\<open>live_count\<close> forgets\<close>

lemma by_offset_forget: "bget (by_offset (forget_offset t offset)) offset' = (if offset' = offset then None else bget (by_offset t) offset')"
  by (auto simp: forget_offset_def split: option.splits)

lemma by_offset_forget_all:
  "bget (by_offset (foldl forget_offset t offsets)) offset = (if offset \<in> set offsets then None else bget (by_offset t) offset)"
  by (induction offsets arbitrary: t) (auto simp: by_offset_forget)

lemma by_offset_live:
  "bget (by_offset (fst (live_count now_ms grace t))) offset = (case bget (by_offset t) offset of
     None \<Rightarrow> None
   | Some track \<Rightarrow> if saturating_add (track_deadline track) grace \<le> now_ms then None else Some track)"
proof -
  have "offset \<in> set (map fst (filter (\<lambda>(_, track). saturating_add (track_deadline track) grace \<le> now_ms) (entries (by_offset t)))) \<longleftrightarrow>
      (\<exists>track. bget (by_offset t) offset = Some track \<and> saturating_add (track_deadline track) grace \<le> now_ms)"
    by (auto simp: bget_entries image_iff Bex_def)
  then show ?thesis unfolding live_count_def Let_def fst_conv by_offset_forget_all by (auto split: option.splits)
qed

lemma acked_recently_forget: "acked_recently (foldl forget_offset t offsets) = acked_recently t"
  by (induction offsets arbitrary: t) (auto simp: forget_offset_def split: option.splits)

lemma acked_recently_live: "acked_recently (fst (live_count now_ms grace t)) = bretain (\<lambda>_ until. until > now_ms) (acked_recently t)"
  by (simp add: live_count_def Let_def acked_recently_forget)

section \<open>Sessions\<close>

text \<open>A session is a sequence of calls; the queue never grants a lease id twice.\<close>

datatype sub_op = Deliver Offset LeaseId u64 u64 | Resolve LeaseId "u64 option" | LiveCount u64 u64 | DrainLeases

fun sub_step :: "SubTracking \<Rightarrow> sub_op \<Rightarrow> SubTracking" where
  "sub_step t (Deliver offset lid deadline now_ms) = fst (deliver offset lid deadline now_ms t)"
| "sub_step t (Resolve lid acked_until) = fst (resolve lid acked_until t)"
| "sub_step t (LiveCount now_ms grace_ms) = fst (live_count now_ms grace_ms t)"
| "sub_step t DrainLeases = fst (drain_leases t)"

fun op_lease :: "sub_op \<Rightarrow> LeaseId list" where
  "op_lease (Deliver offset lid deadline now_ms) = [lid]"
| "op_lease op = []"

definition sub_run :: "sub_op list \<Rightarrow> SubTracking" where
  "sub_run ops = foldl sub_step sub_default ops"

lemma forget_offset_leases: "bget (lease_to_offset (forget_offset t offset)) lid \<noteq> None \<Longrightarrow> bget (lease_to_offset t) lid \<noteq> None"
  by (auto simp: forget_offset_def split: option.splits if_splits)

lemma live_count_leases: "bget (lease_to_offset (fst (live_count now_ms grace_ms t))) lid \<noteq> None \<Longrightarrow> bget (lease_to_offset t) lid \<noteq> None"
proof -
  have "bget (lease_to_offset (foldl forget_offset s offsets)) lid \<noteq> None \<longrightarrow> bget (lease_to_offset s) lid \<noteq> None" for s offsets
  proof (induction offsets arbitrary: s)
    case (Cons offset offsets)
    from Cons.IH [of "forget_offset s offset"] forget_offset_leases [of s offset lid] show ?case unfolding foldl_Cons by blast
  qed simp
  from this [of "t\<lparr>acked_recently := bretain (\<lambda>_ until. until > now_ms) (acked_recently t)\<rparr>"]
  show "bget (lease_to_offset (fst (live_count now_ms grace_ms t))) lid \<noteq> None \<Longrightarrow> ?thesis"
    by (simp add: live_count_def Let_def)
qed

lemma sub_step_leases:
  assumes "bget (lease_to_offset (sub_step t op)) lid \<noteq> None"
  shows "bget (lease_to_offset t) lid \<noteq> None \<or> lid \<in> set (op_lease op)"
proof (cases op)
  case (Deliver offset lid' deadline now_ms)
  with assms show ?thesis by (auto simp: deliver_def Let_def split: option.splits if_splits)
next
  case (Resolve lid' acked_until)
  with assms show ?thesis by (auto simp: resolve_def split: option.splits if_splits)
next
  case (LiveCount now_ms grace_ms)
  with assms live_count_leases show ?thesis by simp
qed (use assms in \<open>simp add: drain_leases_def sub_default_def\<close>)

lemma sub_run_inv:
  assumes "distinct (concat (map op_lease ops))"
  shows "sub_inv (sub_run ops) \<and> (\<forall>lid. bget (lease_to_offset (sub_run ops)) lid \<noteq> None \<longrightarrow> lid \<in> set (concat (map op_lease ops)))"
  using assms
proof (induction ops rule: rev_induct)
  case (snoc op ops)
  let ?t = "sub_run ops"
  have run: "sub_run (ops @ [op]) = sub_step ?t op" by (simp add: sub_run_def)
  have IH: "sub_inv ?t" "\<forall>lid. bget (lease_to_offset ?t) lid \<noteq> None \<longrightarrow> lid \<in> set (concat (map op_lease ops))"
    using snoc by auto
  have "sub_inv (sub_step ?t op)"
  proof (cases op)
    case (Deliver offset lid deadline now_ms)
    then have "lid \<notin> set (concat (map op_lease ops))" using snoc.prems by auto
    with IH(2) have "bget (lease_to_offset ?t) lid = None" by blast
    with Deliver sub_inv_deliver [OF IH(1)] show ?thesis by simp
  qed (use IH(1) in \<open>simp_all add: keeps_inv\<close>)
  with IH(2) sub_step_leases [of ?t op] show ?case unfolding run by fastforce
qed (simp add: sub_run_def sub_inv_default, simp add: sub_default_def)

section \<open>Properties\<close>

text \<open>The three maps of a subscription stay consistent: in every session in which lease ids are not granted
  twice, \<^verbatim>\<open>debug_check_invariants\<close> holds after every call.\<close>

lemma sub_tracking_consistent:
  assumes "distinct (concat (map op_lease ops))"
  shows "debug_check_invariants (sub_run ops)"
  using sub_run_inv [OF assms] sub_inv_checks by blast

text \<open>An answer settles a message: in every session, any lease id the subscriber may answer with resolves to the
  lease that is current for its message, after which none of the message's lease ids is known any
  more; and a message acknowledged until some time is not pushed again before it.\<close>

lemma resolve_settles:
  assumes "distinct (concat (map op_lease ops))" and "bget (lease_to_offset (sub_run ops)) lid = Some offset"
    and "resolve lid (Some until) (sub_run ops) = (t', res)"
  shows "\<exists>track. bget (by_offset (sub_run ops)) offset = Some track \<and> lid \<in> set (leases track) \<and>
    res = Some (last (leases track)) \<and> (\<forall>lid' \<in> set (leases track). \<forall>u. snd (resolve lid' u t') = None) \<and>
    (\<forall>lid' deadline now_ms. now_ms < until \<longrightarrow> deliver offset lid' deadline now_ms t' = (t', AlreadyAcked))"
proof -
  have inv: "sub_inv (sub_run ops)" using sub_run_inv [OF assms(1)] by blast
  obtain track where t: "bget (by_offset (sub_run ops)) offset = Some track" using sub_inv_lease [OF inv assms(2)] by blast
  note ok = sub_inv_track [OF inv t, unfolded track_ok_def]
  have t': "res = Some (last (leases track))" "lease_to_offset t' = remove_all (leases track) (lease_to_offset (sub_run ops))"
      "acked_recently t' = binsert offset until (acked_recently (sub_run ops))"
    using assms(2,3) t ok by (auto simp: resolve_def)
  then have "\<forall>lid' \<in> set (leases track). \<forall>u. snd (resolve lid' u t') = None" by (simp add: resolve_def)
  moreover have "\<forall>lid' deadline now_ms. now_ms < until \<longrightarrow> deliver offset lid' deadline now_ms t' = (t', AlreadyAcked)"
    by (simp add: deliver_def t'(3))
  moreover have "lid \<in> set (leases track)" using ok assms(2) by blast
  ultimately show ?thesis using t t'(1) by blast
qed

text \<open>(C32) Redeliveries are not swallowed for ever: of any three deliveries of a message in a row that is not marked
  acknowledged, at least one is pushed to the subscriber.\<close>

theorem redelivery_pushed:
  assumes "distinct (concat (map op_lease ops))" and "bget (acked_recently (sub_run ops)) offset = None"
    and "deliver offset lid1 d1 now1 (sub_run ops) = (t1, r1)" and "deliver offset lid2 d2 now2 t1 = (t2, r2)"
    and "deliver offset lid3 d3 now3 t2 = (t3, r3)"
  shows "Push \<in> {r1, r2, r3}"
proof -
  have step: "acked_recently t' = bremove offset (acked_recently t) \<and>
      (case bget (by_offset t) offset of None \<Rightarrow> r = Push
       | Some track \<Rightarrow> (if refreshes track < SUBSCRIBE_MAX_LEASE_REFRESHES
           then \<exists>track'. bget (by_offset t') offset = Some track' \<and> refreshes track' = refreshes track + 1 else r = Push))"
    if "bget (acked_recently t) offset = None" "deliver offset lid d now t = (t', r)" for t lid d now t' r
    using that by (auto simp: deliver_def track_refresh_def Let_def split: option.splits if_splits)
  have a1: "bget (acked_recently t1) offset = None" using step [OF assms(2,3)] by simp
  have a2: "bget (acked_recently t2) offset = None" using step [OF a1 assms(4)] by simp
  show ?thesis
  proof (rule ccontr)
    assume no: "Push \<notin> {r1, r2, r3}"
    obtain tr0 where "bget (by_offset (sub_run ops)) offset = Some tr0" "refreshes tr0 < 2"
      and "\<exists>tr1. bget (by_offset t1) offset = Some tr1 \<and> refreshes tr1 = refreshes tr0 + 1"
      using step [OF assms(2,3)] no by (auto simp: SUBSCRIBE_MAX_LEASE_REFRESHES_def split: option.splits if_splits)
    then obtain tr1 where tr1: "bget (by_offset t1) offset = Some tr1" "refreshes tr1 = refreshes tr0 + 1" and "unat (refreshes tr0) < 2"
      by (auto simp: word_less_nat_alt)
    then have lower: "1 \<le> unat (refreshes tr1)" by (simp add: unat_word_ariths)
    from step [OF a1 assms(4)] tr1 no obtain tr2 where tr2: "bget (by_offset t2) offset = Some tr2" "refreshes tr2 = refreshes tr1 + 1"
        "unat (refreshes tr1) < 2"
      by (auto simp: SUBSCRIBE_MAX_LEASE_REFRESHES_def word_less_nat_alt split: if_splits)
    then have "unat (refreshes tr2) = 2" using lower by (simp add: unat_word_ariths)
    with step [OF a2 assms(5)] tr2 no show False
      by (auto simp: SUBSCRIBE_MAX_LEASE_REFRESHES_def word_less_nat_alt split: if_splits)
  qed
qed

theorem redelivery_pushed_witness:
  "Push \<in> {snd (deliver 5 7 0 0 (sub_run [])), snd (deliver 5 8 0 0 (fst (deliver 5 7 0 0 (sub_run [])))),
     snd (deliver 5 9 0 0 (fst (deliver 5 8 0 0 (fst (deliver 5 7 0 0 (sub_run []))))))}"
  using redelivery_pushed [of "[]" 5 7 0 0 _ _ 8 0 0 _ _ 9 0 0, OF _ _ prod.collapse [symmetric] prod.collapse [symmetric] prod.collapse [symmetric]]
  by (simp add: sub_run_def sub_default_def)

end
