(* ===== verification/Client_Sessions.thy ===== *)
theory Client_Sessions
  imports Client_Handlers Sub_Tracking Secrets
begin

text \<open>
  Client connections of \<^verbatim>\<open>client.rs\<close>: the loop of \<^verbatim>\<open>handle_client\<close> with its authentication gate
  and its ordered writer, and the push session of \<^verbatim>\<open>handle_subscribe\<close> as a step relation between the
  reader task, the session task and the rest of the node. Decoding and encoding of protobuf messages
  are parameters. The loop of \<^verbatim>\<open>handle_client\<close> also ends when its writer is gone; it then has run on
  a prefix of the frames.
\<close>

section \<open>The connection loop\<close>

datatype ClientAction = Reply Response | Serve "Request option"

type_synonym request_decoder = "bytes \<Rightarrow> string + Request option"

text \<open>One frame: what is done for it, and either the end of the loop, with the subscription it asks for if any,
  or the new authentication state.\<close>

definition client_frame :: "request_decoder \<Rightarrow> string option \<Rightarrow> bool \<Rightarrow> bytes \<Rightarrow> ClientAction list \<times> (SubscribeMsg option + bool)" where
  "client_frame decoder token authed frame = (case decoder frame of
     Inl e \<Rightarrow> ([Reply (resp_error ''bad_request'' e)], Inr authed)
   | Inr req \<Rightarrow>
       if \<not> authed
       then (let offered = (case req of Some (AuthReq t) \<Rightarrow> Some t | _ \<Rightarrow> None);
                 ok = (case offered of None \<Rightarrow> False | Some text \<Rightarrow>
                         (case token of None \<Rightarrow> False | Some expected \<Rightarrow> secret_eq (as_bytes text) (as_bytes expected)))
             in if ok then ([Reply OkResp], Inr True)
                else ([Reply (resp_error ''unauthorized'' ''authenticate first'')], Inl None))
       else (case req of
               Some (SubscribeReq sub) \<Rightarrow> ([], Inl (Some sub))
             | _ \<Rightarrow> ([Serve req], Inr authed)))"

fun client_loop :: "request_decoder \<Rightarrow> string option \<Rightarrow> bool \<Rightarrow> bytes list \<Rightarrow> ClientAction list \<times> (SubscribeMsg \<times> bytes list) option" where
  "client_loop decoder token authed [] = ([], None)"
| "client_loop decoder token authed (frame # frames) = (case client_frame decoder token authed frame of
     (acts, Inl sub) \<Rightarrow> (acts, map_option (\<lambda>sub. (sub, frames)) sub)
   | (acts, Inr authed) \<Rightarrow> apfst ((@) acts) (client_loop decoder token authed frames))"

definition handle_client :: "request_decoder \<Rightarrow> (nat \<Rightarrow> bool) \<Rightarrow> string option \<Rightarrow> bytes \<Rightarrow> ClientAction list \<times> (SubscribeMsg \<times> bytes list) option" where
  "handle_client decoder late_body token s = client_loop decoder token (token = None) (read_frames MAX_CLIENT_FRAME late_body 0 s)"

text \<open>The writer task: responses leave in the order of the requests; it stops at the first request whose
  handler went away (\<open>None\<close>) and at the first write that fails.\<close>

fun client_writer :: "(Response \<Rightarrow> bytes) \<Rightarrow> (nat \<Rightarrow> bool) \<Rightarrow> nat \<Rightarrow> Response option list \<Rightarrow> bytes" where
  "client_writer encoder sent i [] = []"
| "client_writer encoder sent i (None # pending) = []"
| "client_writer encoder sent i (Some resp # pending) =
     (if sent i then write_frame (encoder resp) @ client_writer encoder sent (Suc i) pending else [])"

section \<open>Push subscriptions\<close>

definition ACK_GRACE_MS :: u64 where "ACK_GRACE_MS = 5000"

record SubConf =
  sc_topic :: string
  sc_group :: string
  sc_prefetch :: nat
  sc_auto :: bool
  sc_visibility :: u64

definition sub_conf :: "SubscribeMsg \<Rightarrow> SubConf" where
  "sub_conf sub = \<lparr>sc_topic = su_topic sub, sc_group = su_group sub,
     sc_prefetch = unat (min (max (su_prefetch sub) 1) MAX_POLL_MAX), sc_auto = (su_ack_mode sub = ''auto''),
     sc_visibility = poll_visibility (su_visibility_ms sub)\<rparr>"

definition sub_job :: "SubConf \<Rightarrow> LeaseId \<Rightarrow> bool \<Rightarrow> AckJob" where
  "sub_job conf lid is_nack = \<lparr>aj_topic = sc_topic conf, aj_group = sc_group conf, aj_lease = lid, aj_nack = is_nack, aj_reply = None\<rparr>"

text \<open>
  The state of a session: the items of the current poll that are still to be pushed, the responses
  written, the ack jobs sent, the job the reader is sending, the handle on the topic's notifier, and
  the flags of both tasks. \<open>se_received\<close>, \<open>se_expired\<close> and \<open>se_dropped\<close> only record what happened:
  the leases obtained, the leases forgotten as stale and the job lost when the reader is aborted.
\<close>

record 'w Session =
  se_ctx :: "'w Ctx"
  se_track :: SubTracking
  se_items :: "Delivered list"
  se_written :: "Response list"
  se_jobs :: "AckJob list"
  se_outbox :: "AckJob option"
  se_undelivered :: "LeaseId list"
  se_handle :: bool
  se_closed :: bool
  se_ended :: bool
  se_finished :: bool
  se_received :: "(Offset \<times> LeaseId) list"
  se_expired :: "LeaseId list"
  se_dropped :: "AckJob option"

definition session_new :: "'w Ctx \<Rightarrow> 'w Session" where
  "session_new ctx = \<lparr>se_ctx = ctx, se_track = sub_default, se_items = [], se_written = [], se_jobs = [], se_outbox = None,
     se_undelivered = [], se_handle = False, se_closed = False, se_ended = False, se_finished = False,
     se_received = [], se_expired = [], se_dropped = None\<rparr>"

text \<open>The checks before a session starts: the answer that ends the connection, or the session.\<close>

definition subscribe_start :: "'w raft_node \<Rightarrow> SubscribeMsg \<Rightarrow> 'w Ctx \<Rightarrow> Response + 'w Session" where
  "subscribe_start R sub ctx =
     (if \<not> is_leader (raft_metrics R (world ctx)) then Inl (resp_not_leader (leader_addr (raft_metrics R (world ctx))))
      else case check_names (su_topic sub) (su_group sub) of Some resp \<Rightarrow> Inl resp | None \<Rightarrow> Inr (session_new ctx))"

subsection \<open>The reader task\<close>

definition answer_lease :: "SubConf \<Rightarrow> LeaseId \<Rightarrow> bool \<Rightarrow> u64 option \<Rightarrow> 'w Session \<Rightarrow> 'w Session" where
  "answer_lease conf lid is_nack acked_until s = (case resolve lid acked_until (se_track s) of
     (t, resolved) \<Rightarrow> s\<lparr>se_track := t,
       se_outbox := Some (sub_job conf (case resolved of Some current \<Rightarrow> current | None \<Rightarrow> lid) is_nack)\<rparr>)"

definition reader_frame :: "request_decoder \<Rightarrow> SubConf \<Rightarrow> u64 \<Rightarrow> bytes \<Rightarrow> 'w Session \<Rightarrow> 'w Session" where
  "reader_frame decoder conf now_ms frame s =
     (if sc_auto conf then s
      else case decoder frame of
             Inr (Some (AckReq topic grp lid)) \<Rightarrow> answer_lease conf lid False (Some (saturating_add now_ms ACK_GRACE_MS)) s
           | Inr (Some (NackReq topic grp lid)) \<Rightarrow> answer_lease conf lid True None s
           | _ \<Rightarrow> s)"

definition reader_send :: "'w Session \<Rightarrow> 'w Session" where
  "reader_send s = (case se_outbox s of None \<Rightarrow> s | Some job \<Rightarrow> s\<lparr>se_jobs := se_jobs s @ [job], se_outbox := None\<rparr>)"

subsection \<open>The session task\<close>

definition release_handle :: "SubConf \<Rightarrow> 'w Session \<Rightarrow> 'w Session" where
  "release_handle conf s = (if se_handle s then s\<lparr>se_ctx := drop_notifier (sc_topic conf) (se_ctx s), se_handle := False\<rparr> else s)"

definition end_session :: "SubConf \<Rightarrow> 'w Session \<Rightarrow> 'w Session" where
  "end_session conf s = (release_handle conf s)\<lparr>se_ended := True\<rparr>"

record SubRound =
  heartbeat_due :: bool
  heartbeat_sent :: bool
  live_ms :: u64
  sub_check_ms :: u64
  sub_take_ns :: nat
  sub_write_ms :: u64

definition stale_leases :: "SubTracking \<Rightarrow> SubTracking \<Rightarrow> LeaseId list" where
  "stale_leases t t' = map (track_lease \<circ> snd) (filter (\<lambda>(offset, _). bget (by_offset t') offset = None) (entries (by_offset t)))"

text \<open>The poll of a turn, with \<open>cur\<close> deliveries still live.\<close>

definition session_poll :: "'w raft_node \<Rightarrow> SubConf \<Rightarrow> SubRound \<Rightarrow> nat \<Rightarrow> 'w Session \<Rightarrow> 'w Session" where
  "session_poll R conf r cur s =
     (let ctx = se_ctx s; q = local_queue R (world ctx) in
      if cur < sc_prefetch conf \<and> has_deliverable q (sc_topic conf) (sc_group conf) (sub_check_ms r)
      then (let rate_cfg = rate_config q (sc_topic conf) in
            case take_grant rate_cfg (sc_topic conf) (of_nat (sc_prefetch conf - cur)) (sub_take_ns r) ctx of
              (ctx, Inl _) \<Rightarrow> s\<lparr>se_ctx := ctx\<rparr>
            | (ctx, Inr granted) \<Rightarrow>
                (case client_write R (poll_app (sc_auto conf) (sc_topic conf) (sc_group conf) granted (sc_visibility conf) (sub_write_ms r)) (world ctx) of
                   (w, Inl _) \<Rightarrow> end_session conf (s\<lparr>se_ctx := ctx\<lparr>world := w\<rparr>\<rparr>)
                 | (w, Inr (Polled items)) \<Rightarrow>
                     s\<lparr>se_ctx := return_grant rate_cfg (sc_topic conf) granted items (ctx\<lparr>world := w\<rparr>), se_items := items,
                       se_received := se_received s @ map (\<lambda>d. (d_offset d, d_lease_id d)) items\<rparr>
                 | (w, Inr _) \<Rightarrow> s\<lparr>se_ctx := ctx\<lparr>world := w\<rparr>\<rparr>))
      else s)"

definition session_turn :: "'w raft_node \<Rightarrow> SubConf \<Rightarrow> SubRound \<Rightarrow> 'w Session \<Rightarrow> 'w Session" where
  "session_turn R conf r s =
     (let s = release_handle conf s in
      if se_closed s \<or> \<not> is_leader (raft_metrics R (world (se_ctx s))) \<or> (heartbeat_due r \<and> \<not> heartbeat_sent r) then end_session conf s
      else let s = (if heartbeat_due r then s\<lparr>se_written := se_written s @ [resp_polled []]\<rparr> else s);
               s = s\<lparr>se_ctx := notifier (sc_topic conf) (se_ctx s), se_handle := True\<rparr>;
               (t, cur) = live_count (live_ms r) (sc_visibility conf) (se_track s);
               s = s\<lparr>se_track := t, se_expired := se_expired s @ stale_leases (se_track s) t\<rparr>
           in session_poll R conf r cur s)"

definition write_item :: "SubConf \<Rightarrow> bool \<Rightarrow> Delivered \<Rightarrow> 'w Session \<Rightarrow> 'w Session" where
  "write_item conf sent d s =
     (if sent then s\<lparr>se_written := se_written s @ [resp_polled [d]]\<rparr>
      else end_session conf (s\<lparr>se_items := [],
             se_undelivered := (if sc_auto conf then se_undelivered s else se_undelivered s @ map d_lease_id (se_items s))\<rparr>))"

definition session_push :: "SubConf \<Rightarrow> u64 \<Rightarrow> bool \<Rightarrow> 'w Session \<Rightarrow> 'w Session" where
  "session_push conf now_ms sent s = (case se_items s of
     [] \<Rightarrow> s
   | d # ds \<Rightarrow>
       if sc_auto conf then write_item conf sent d (s\<lparr>se_items := ds\<rparr>)
       else (case deliver (d_offset d) (d_lease_id d) (saturating_add now_ms (sc_visibility conf)) now_ms (se_track s) of
               (t, Refreshed) \<Rightarrow> s\<lparr>se_items := ds, se_track := t\<rparr>
             | (t, AlreadyAcked) \<Rightarrow> s\<lparr>se_items := ds, se_track := t, se_jobs := se_jobs s @ [sub_job conf (d_lease_id d) False]\<rparr>
             | (t, Push) \<Rightarrow> write_item conf sent d (s\<lparr>se_items := ds, se_track := t\<rparr>)))"

text \<open>After the loop the reader is aborted, and every lease the subscriber did not answer is given back.\<close>

definition session_finish :: "SubConf \<Rightarrow> 'w Session \<Rightarrow> 'w Session" where
  "session_finish conf s =
     (let s = s\<lparr>se_dropped := se_outbox s, se_outbox := None, se_finished := True\<rparr> in
      if sc_auto conf then s
      else case drain_leases (se_track s) of (t, drained) \<Rightarrow>
             s\<lparr>se_track := t, se_undelivered := [],
               se_jobs := se_jobs s @ map (\<lambda>lid. sub_job conf lid True) (se_undelivered s @ drained)\<rparr>)"

inductive session_step :: "'w raft_node \<Rightarrow> request_decoder \<Rightarrow> SubConf \<Rightarrow> 'w Session \<Rightarrow> 'w Session \<Rightarrow> bool" for R decoder conf where
  reads: "\<not> se_finished s \<Longrightarrow> \<not> se_closed s \<Longrightarrow> se_outbox s = None \<Longrightarrow> session_step R decoder conf s (reader_frame decoder conf now_ms frame s)"
| sends: "se_outbox s \<noteq> None \<Longrightarrow> session_step R decoder conf s (reader_send s)"
| closes: "\<not> se_finished s \<Longrightarrow> se_outbox s = None \<Longrightarrow> session_step R decoder conf s (s\<lparr>se_closed := True\<rparr>)"
| turns: "\<not> se_ended s \<Longrightarrow> se_items s = [] \<Longrightarrow> session_step R decoder conf s (session_turn R conf r s)"
| pushes: "\<not> se_ended s \<Longrightarrow> se_items s \<noteq> [] \<Longrightarrow> session_step R decoder conf s (session_push conf now_ms sent s)"
| finishes: "se_ended s \<Longrightarrow> \<not> se_finished s \<Longrightarrow> session_step R decoder conf s (session_finish conf s)"
| outside: "session_step R decoder conf s (s\<lparr>se_ctx := ctx\<rparr>)"

end
