(* ===== verification/Client_Guarantees.thy ===== *)
theory Client_Guarantees
  imports Client_Handlers Queue_Guarantees
begin

text \<open>
  What clients get from the request path: the admission checks decide exactly as the state machine
  would, every job of a batch is answered with its own result, the long poll returns, and polls never
  deliver faster than the configured rate. The Raft node stays a parameter under \<open>raft_spec\<close>; the
  witnesses instantiate it with a node that applies each write at once.
\<close>

section \<open>A node that applies writes at once\<close>

definition local_node :: "Queue raft_node" where
  "local_node = \<lparr>client_write = (\<lambda>req q. (fst (apply_request q req), Inr (snd (apply_request q req)))),
     raft_initialize = (\<lambda>_ q. (q, Inr ())),
     raft_metrics = (\<lambda>_. \<lparr>rm_id = 1, rm_current_leader = Some 1, rm_current_term = 1, rm_last_log_index = None,
       rm_last_applied = None, rm_quorum_ack_ms = None, rm_node_addr = (\<lambda>_. None)\<rparr>),
     local_queue = (\<lambda>q. q)\<rparr>"

definition local_ctx :: "Queue \<Rightarrow> Queue Ctx" where
  "local_ctx q = \<lparr>world = q, limiter = bempty, notifiers = bempty, woken = []\<rparr>"

lemma local_node_spec: "raft_spec local_node"
  unfolding raft_spec_def
proof (intro allI impI)
  fix req w w' resp
  assume "client_write local_node req w = (w', Inr resp)"
  then show "\<exists>reqs. apply_request (fst (apply_all (local_queue local_node w) reqs)) req = (local_queue local_node w', resp)"
    by (intro exI [of _ "[]"]) (auto simp: local_node_def)
qed

text \<open>A node that answers one given request and then loses its leadership.\<close>

definition local_node_of :: "Queue \<Rightarrow> AppRequest \<Rightarrow> bool raft_node" where
  "local_node_of q req = \<lparr>client_write = (\<lambda>r w. if \<not> w \<and> r = req then (True, Inr (snd (apply_request q req))) else (w, Inl (ForwardToLeader None))),
     raft_initialize = (\<lambda>_ w. (w, Inl NotAllowed)), raft_metrics = (\<lambda>_. raft_metrics local_node q),
     local_queue = (\<lambda>w. if w then fst (apply_request q req) else q)\<rparr>"

lemma local_node_of_spec: "raft_spec (local_node_of q req)"
  unfolding raft_spec_def
proof (intro allI impI)
  fix r w w' resp
  assume "client_write (local_node_of q req) r w = (w', Inr resp)"
  then show "\<exists>reqs. apply_request (fst (apply_all (local_queue (local_node_of q req) w) reqs)) r = (local_queue (local_node_of q req) w', resp)"
    by (intro exI [of _ "[]"]) (auto simp: local_node_of_def split: if_splits)
qed

section \<open>Admission\<close>

definition accepted :: "Queue \<Rightarrow> AppRequest \<Rightarrow> bool" where
  "accepted q req \<longleftrightarrow> (case snd (apply_request q req) of Rejected _ \<Rightarrow> False | _ \<Rightarrow> True)"

lemma check_len_ok: "check_len kind value mx = Inr () \<longleftrightarrow> length value \<le> mx"
  by (simp add: check_len_def)

lemma check_names_ok: "check_names topic grp = None \<longleftrightarrow> length topic \<le> MAX_NAME_BYTES \<and> length grp \<le> MAX_NAME_BYTES"
  by (auto simp: check_names_def check_len_def)

lemma check_new_topic_ok:
  "check_new_topic R topic ctx = None \<longleftrightarrow> length topic \<le> MAX_NAME_BYTES \<and> topic_admits (local_queue R (world ctx)) topic"
  using check_names_ok [of topic "[]"] by (auto simp: check_new_topic_def split: option.splits)

lemma produce_check_ok:
  "produce_check R p ctx = None \<longleftrightarrow> length (pr_payload p) \<le> MAX_PAYLOAD_BYTES \<and>
     length (pr_producer_id p) \<le> MAX_PRODUCER_ID_BYTES \<and> length (pr_topic p) \<le> MAX_NAME_BYTES \<and>
     topic_admits (local_queue R (world ctx)) (pr_topic p)"
  by (auto simp: produce_check_def check_len_def check_new_topic_ok)

lemma accepted_checked:
  assumes "apply_request q req = apply_checked chk q res" and "\<And>reason. snd res \<noteq> Rejected reason"
  shows "accepted q req \<longleftrightarrow> chk = Inr ()"
  using assms by (auto simp: accepted_def apply_checked_def split: sum.splits AppResponse.splits)

lemma accepted_produce: "accepted q (ProduceMany items) \<longleftrightarrow> check_produce q items = Inr ()"
  by (rule accepted_checked) (auto simp: case_prod_beta)

lemma accepted_create: "accepted q (CreateTopic topic) \<longleftrightarrow> check_topic q topic = Inr ()"
  by (rule accepted_checked) auto

lemma accepted_poll: "accepted q (Poll topic grp mx vis ts) \<longleftrightarrow> check_consumer topic grp = Inr ()"
  by (rule accepted_checked) (auto simp: case_prod_beta)

lemma accepted_commit: "accepted q (CommitOffsetAt topic grp offset ts) \<longleftrightarrow> check_consumer topic grp = Inr ()"
  by (rule accepted_checked) auto


definition sample_produce :: "string \<Rightarrow> ProduceMsg" where
  "sample_produce topic = \<lparr>pr_topic = topic, pr_priority = 9, pr_content_type = 2, pr_payload = [1, 2], pr_producer_id = [], pr_seq = 0\<rparr>"


section \<open>Batches of produces\<close>

lemma zip_replies_full: "length offsets = length jobs \<Longrightarrow> zip_replies jobs offsets = map (Some \<circ> ProducedResp) offsets"
  by (induction jobs offsets rule: zip_replies.induct) auto

lemma length_zip_replies: "length (zip_replies jobs offsets) = length jobs"
  by (induction jobs offsets rule: zip_replies.induct) auto

lemma world_notify [simp]: "world (notify topic ctx) = world ctx"
  by (simp add: notify_def)

lemma world_fold_notify [simp]: "world (fold notify ts ctx) = world ctx"
  by (induction ts arbitrary: ctx) auto

lemma error_not_produced [simp]: "map_raft_error e \<noteq> ProducedResp offset" "resp_error code text \<noteq> ProducedResp offset"
  by (cases e) (simp_all add: resp_error_def resp_not_leader_def)

lemma produced_many_accepted:
  "apply_request q (ProduceMany items) = (q', ProducedMany offsets) \<Longrightarrow>
   check_produce q items = Inr () \<and> q' = fst (produce_all q items) \<and> offsets = snd (produce_all q items)"
  by (auto simp: apply_checked_def case_prod_beta split: sum.splits)

text \<open>(C40) Every produce of a batch gets its own answer: no reply is dropped, and a job that is answered with an offset is
  answered with the offset that producing the items of the batch one by one, in order, on top of
  whatever was committed before, gives to its item; the replicated queue is the one that run leaves.\<close>

theorem produce_replies:
  assumes "raft_spec R" and "write_produce_batch R debug ts_ms jobs ctx = (ctx', replies)"
  shows "length replies = length jobs \<and> None \<notin> set replies \<and>
    (\<forall>i offset. i < length jobs \<and> replies ! i = Some (ProducedResp offset) \<longrightarrow>
       (\<exists>reqs. let run = apply_all (fst (apply_all (local_queue R (world ctx)) reqs)) (map (produce_request \<circ> job_item ts_ms) jobs)
          in local_queue R (world ctx') = fst run \<and> snd run ! i = Produced offset))"
proof -
  obtain w res where cw: "client_write R (ProduceMany (map (job_item ts_ms) jobs)) (world ctx) = (w, res)" by fastforce
  show ?thesis
  proof (cases "\<exists>offsets. res = Inr (ProducedMany offsets)")
    case False
    have "\<exists>resp. replies = map (\<lambda>_. Some resp) jobs \<and> (\<forall>offset. resp \<noteq> ProducedResp offset)"
    proof (cases res)
      case (Inl e)
      then show ?thesis using assms(2) cw by (auto simp: write_produce_batch_def)
    next
      case (Inr other)
      then have "replies = map (\<lambda>_. Some (resp_error ''internal'' (''unexpected batch response: '' @ debug other))) jobs"
        using False assms(2) cw by (cases other) (auto simp: write_produce_batch_def)
      then show ?thesis by auto
    qed
    then show ?thesis by auto
  next
    case True
    then obtain offsets where res: "res = Inr (ProducedMany offsets)" by blast
    then obtain reqs where ap: "apply_request (fst (apply_all (local_queue R (world ctx)) reqs)) (ProduceMany (map (job_item ts_ms) jobs)) =
        (local_queue R w, ProducedMany offsets)"
      using assms(1) cw unfolding raft_spec_def by blast
    let ?q = "fst (apply_all (local_queue R (world ctx)) reqs)"
    note acc = produced_many_accepted [OF ap]
    have run: "apply_all ?q (map (produce_request \<circ> job_item ts_ms) jobs) = (local_queue R w, map Produced offsets)"
      using apply_produce_all [of ?q "map (job_item ts_ms) jobs"] acc by simp
    have "length (snd (apply_all q rs)) = length rs" for q rs by (induction rs arbitrary: q) (auto simp: case_prod_beta)
    from this [of ?q "map (produce_request \<circ> job_item ts_ms) jobs"] have len: "length offsets = length jobs" using run by simp
    have "replies = map (Some \<circ> ProducedResp) offsets" "world ctx' = w"
      using assms(2) cw res by (auto simp: write_produce_batch_def zip_replies_full [OF len])
    then show ?thesis using run len by (auto intro!: exI [of _ reqs])
  qed
qed

definition sample_jobs :: "ProduceMsg list" where
  "sample_jobs = [sample_produce ''a'', sample_produce ''b'', sample_produce ''a'']"

theorem produce_replies_witness:
  "length (snd (write_produce_batch local_node (\<lambda>_. []) 5 sample_jobs (local_ctx queue_default))) = length sample_jobs"
proof -
  obtain ctx' replies where w: "write_produce_batch local_node (\<lambda>_. []) 5 sample_jobs (local_ctx queue_default) = (ctx', replies)" by fastforce
  with produce_replies [OF local_node_spec w] show ?thesis by simp
qed

section \<open>Batches of acknowledgements\<close>

lemma ack_groups_snoc: "ack_groups (jobs @ [j]) = add_job (ack_groups jobs) j"
  by (simp add: ack_groups_def)

lemma map_filter_append [simp]: "List.map_filter f (xs @ ys) = List.map_filter f xs @ List.map_filter f ys"
  by (induction xs) (auto simp: List.map_filter_simps split: option.splits)

lemma bget_ack_groups:
  "bget (ack_groups jobs) k =
     (let js = filter (\<lambda>j. job_key j = k) jobs in if js = [] then None else Some (map aj_lease js, List.map_filter aj_reply js))"
proof (induction jobs rule: rev_induct)
  case Nil
  show ?case by (simp add: ack_groups_def)
next
  case (snoc j jobs)
  then show ?case
    by (cases "aj_reply j"; cases "k = job_key j"; cases "filter (\<lambda>j. job_key j = k) jobs = []")
       (simp_all add: ack_groups_snoc add_job_def Let_def List.map_filter_simps case_prod_beta)
qed

lemma sent_replies: "map fst (snd (write_ack_groups R es ctx)) = concat (map (snd \<circ> snd) es)"
proof (induction es arbitrary: ctx)
  case (Cons e es)
  have "map fst (snd (write_ack_group R e ctx)) = snd (snd e)"
    by (simp add: write_ack_group_def case_prod_beta o_def)
  with Cons.IH show ?case by (simp add: case_prod_beta)
qed simp

lemma sum_list_add_at:
  assumes "distinct ks" and "k \<in> set ks"
  shows "(\<Sum>x\<leftarrow>ks. (if x = k then (a :: 'a multiset) else {#}) + f x) = a + (\<Sum>x\<leftarrow>ks. f x)"
proof -
  have none: "(\<Sum>x\<leftarrow>xs. if x = k then a else {#}) = {#}" if "k \<notin> set xs" for xs using that by (induction xs) auto
  have "(\<Sum>x\<leftarrow>ks. if x = k then a else {#}) = a"
    using assms by (induction ks) (auto simp: none)
  then show ?thesis by (simp add: sum_list_addf)
qed

lemma partition_by_key:
  assumes "distinct ks" and "key ` set js \<subseteq> set ks"
  shows "(\<Sum>k\<leftarrow>ks. mset (List.map_filter f (filter (\<lambda>j. key j = k) js))) = mset (List.map_filter f js)"
  using assms(2)
proof (induction js)
  case Nil
  show ?case by (induction ks) (simp_all add: List.map_filter_simps)
next
  case (Cons j js)
  have split: "mset (List.map_filter f (filter (\<lambda>j. key j = k) (j # js))) =
      (if k = key j then mset (List.map_filter f [j]) else {#}) + mset (List.map_filter f (filter (\<lambda>j. key j = k) js))" for k
    by (auto simp: List.map_filter_simps split: option.splits)
  have "(\<Sum>k\<leftarrow>ks. mset (List.map_filter f (filter (\<lambda>j. key j = k) (j # js)))) = mset (List.map_filter f [j]) + mset (List.map_filter f js)"
    unfolding split using Cons by (subst sum_list_add_at [OF assms(1)]) simp_all
  then show ?case by (simp add: List.map_filter_simps split: option.splits)
qed

text \<open>The ack batcher neither loses nor reorders nor duplicates: the group of a topic, consumer group and kind holds
  exactly the leases of its jobs, in the order they arrived, and every job that waits for an answer is
  sent exactly one.\<close>

theorem ack_round_complete:
  "bget (ack_groups jobs) k =
     (let js = filter (\<lambda>j. job_key j = k) jobs in if js = [] then None else Some (map aj_lease js, List.map_filter aj_reply js)) \<and>
   mset (map fst (snd (ack_round R jobs ctx))) = mset (List.map_filter aj_reply jobs)"
proof (intro conjI bget_ack_groups)
  let ?m = "ack_groups jobs"
  have vals: "snd (snd e) = List.map_filter aj_reply (filter (\<lambda>j. job_key j = fst e) jobs)" if "e \<in> set (entries ?m)" for e
  proof -
    have "bget ?m (fst e) = Some (snd e)" using that by (simp add: bget_entries)
    then show ?thesis unfolding bget_ack_groups Let_def by (metis option.distinct(1) option.inject snd_conv)
  qed
  have "mset (map fst (snd (ack_round R jobs ctx))) = (\<Sum>e\<leftarrow>entries ?m. mset (snd (snd e)))"
    by (simp add: ack_round_def sent_replies mset_concat o_def)
  also have "\<dots> = (\<Sum>e\<leftarrow>entries ?m. mset (List.map_filter aj_reply (filter (\<lambda>j. job_key j = fst e) jobs)))"
    using vals by (intro arg_cong [of _ _ sum_list] map_cong) simp_all
  also have "\<dots> = (\<Sum>k\<leftarrow>bkeys ?m. mset (List.map_filter aj_reply (filter (\<lambda>j. job_key j = k) jobs)))"
    by (simp add: bkeys_def o_def)
  also have "\<dots> = mset (List.map_filter aj_reply jobs)"
  proof (rule partition_by_key [OF distinct_bkeys])
    show "job_key ` set jobs \<subseteq> set (bkeys ?m)" by (auto simp: in_bkeys bget_ack_groups Let_def filter_empty_conv)
  qed
  finally show "mset (map fst (snd (ack_round R jobs ctx))) = mset (List.map_filter aj_reply jobs)" .
qed

section \<open>The long poll\<close>

lemma polled_length:
  assumes "apply_request q (poll_app auto_ack topic grp mx vis ts_ms) = (q', Polled items)"
  shows "length items \<le> unat mx"
proof -
  have group: "length items' \<le> unat mx" if "poll_group t g mx v ts_ms next_lid = (g', next_lid', items')" for t g v next_lid g' next_lid' items'
  proof -
    have "map d_offset items' = map snd (poll_chosen t g mx ts_ms)"
      using that unfolding poll_group_eq by (rule lease_out_effect(1))
    then show ?thesis using poll_chosen_props(3) [of t g mx ts_ms] by (metis length_map min.cobounded1)
  qed
  have topic: "length items' \<le> unat mx" if "poll_topic t grp mx vis ts_ms next_lid = (t', next_lid', items')" for t next_lid t' next_lid' items'
    by (rule poll_topic_cases [of t ts_ms grp mx vis next_lid]) (use that group in auto)
  have "length (snd (snd (poll (topics q) topic grp mx vis ts_ms (next_lease_id q)))) \<le> unat mx"
    using topic by (auto simp: Queue_State.poll_def case_prod_beta split: option.splits) (metis prod.collapse)
  then show ?thesis using assms
    by (auto simp: poll_app_def apply_checked_def case_prod_beta Let_def split: if_splits sum.splits)
qed

lemma raft_polled_length:
  assumes "raft_spec R" and "client_write R (poll_app auto_ack topic grp mx vis ts_ms) w = (w', Inr (Polled items))"
  shows "length items \<le> unat mx"
proof -
  obtain reqs where "apply_request (fst (apply_all (local_queue R w) reqs)) (poll_app auto_ack topic grp mx vis ts_ms) = (local_queue R w', Polled items)"
    using assms unfolding raft_spec_def by blast
  then show ?thesis by (rule polled_length)
qed

lemma take_tokens_le: "take_tokens topic rate brst want now_ns bks = (bks', Inr granted) \<Longrightarrow> granted \<le> want"
  by (auto simp: take_tokens_def Let_def split: if_splits)

lemma take_grant_le: "take_grant cfg topic want now_ns ctx = (ctx', Inr granted) \<Longrightarrow> granted \<le> want"
  by (auto simp: take_grant_def take_tokens_le split: option.splits prod.splits)

lemma poll_attempt_cases [case_names idle limited failed polled other]:
  fixes R :: "'w raft_node" and p :: PollMsg and r :: "'w PollRound" and ctx :: "'w Ctx"
  defines "cfg \<equiv> rate_config (local_queue R (world ctx)) (po_topic p)"
    and "app \<equiv> (\<lambda>granted. poll_app (po_ack_mode p = ''auto'') (po_topic p) (po_group p) granted (poll_visibility (po_visibility_ms p)) (write_ms r))"
    and "taken \<equiv> take_grant (rate_config (local_queue R (world ctx)) (po_topic p)) (po_topic p) (poll_limit (po_max p)) (take_ns r) ctx"
  obtains "poll_attempt R p r ctx = (ctx, Inr [])"
  | ctx1 retry where "taken = (ctx1, Inl retry)" "poll_attempt R p r ctx = (ctx1, Inl (resp_rate_limited retry))"
  | ctx1 granted w e where "taken = (ctx1, Inr granted)" "client_write R (app granted) (world ctx1) = (w, Inl e)"
      "poll_attempt R p r ctx = (ctx1\<lparr>world := w\<rparr>, Inl (map_raft_error e))"
  | ctx1 granted w items where "taken = (ctx1, Inr granted)" "client_write R (app granted) (world ctx1) = (w, Inr (Polled items))"
      "poll_attempt R p r ctx = (return_grant cfg (po_topic p) granted items (ctx1\<lparr>world := w\<rparr>), Inr items)"
  | ctx1 granted w resp where "taken = (ctx1, Inr granted)" "client_write R (app granted) (world ctx1) = (w, Inr resp)"
      "\<forall>items. resp \<noteq> Polled items" "poll_attempt R p r ctx = (ctx1\<lparr>world := w\<rparr>, Inl (app_response_to_proto resp))"
proof (cases "has_deliverable (local_queue R (world ctx)) (po_topic p) (po_group p) (check_ms r)")
  case False
  then show thesis by (intro that(1)) (simp add: poll_attempt_def)
next
  case True
  obtain ctx1 tk where t: "taken = (ctx1, tk)" by fastforce
  show thesis
  proof (cases tk)
    case (Inl retry)
    then show thesis using True t by (intro that(2)) (simp_all add: poll_attempt_def taken_def)
  next
    case (Inr granted)
    obtain w res where c: "client_write R (app granted) (world ctx1) = (w, res)" by fastforce
    note eq = True t [unfolded taken_def] Inr c [unfolded app_def]
    show thesis
    proof (cases res)
      case (Inl e)
      then show thesis using eq t c by (intro that(3)) (simp_all add: poll_attempt_def app_def)
    next
      case res: (Inr resp)
      show thesis
      proof (cases "\<exists>items. resp = Polled items")
        case True
        then show thesis using eq res t c by (elim exE, intro that(4)) (simp_all add: poll_attempt_def app_def cfg_def)
      next
        case False
        then have "poll_attempt R p r ctx = (ctx1\<lparr>world := w\<rparr>, Inl (app_response_to_proto resp))"
          using eq res by (cases resp) (simp_all add: poll_attempt_def)
        with False show thesis using res t Inr c by (intro that(5)) simp_all
      qed
    qed
  qed
qed

lemma poll_attempt_length:
  assumes "raft_spec R" and "poll_attempt R p r ctx = (ctx', Inr items)"
  shows "length items \<le> unat (poll_limit (po_max p))"
proof (cases rule: poll_attempt_cases [of R p r ctx])
  case (polled ctx1 granted w items')
  have "length items' \<le> unat granted" by (rule raft_polled_length [OF assms(1) polled(2)])
  also have "\<dots> \<le> unat (poll_limit (po_max p))" using take_grant_le [OF polled(1)] by (simp add: word_le_nat_alt)
  finally show ?thesis using polled(3) assms(2) by simp
qed (use assms(2) in simp_all)

lemma not_polled_error [simp]:
  "resp_error code text \<noteq> PolledResp items" "resp_rate_limited retry \<noteq> PolledResp items" "map_raft_error e \<noteq> PolledResp items"
  "resp_not_leader addr \<noteq> PolledResp items"
  by (simp_all add: resp_error_def resp_rate_limited_def resp_not_leader_def, cases e) (simp_all add: resp_error_def resp_not_leader_def)

lemma poll_attempt_error:
  "poll_attempt R p r ctx = (ctx', Inl resp) \<Longrightarrow> resp \<noteq> PolledResp items"
proof (cases rule: poll_attempt_cases [of R p r ctx])
  case (other ctx1 granted w resp')
  then show "poll_attempt R p r ctx = (ctx', Inl resp) \<Longrightarrow> ?thesis" by (cases resp') auto
qed auto

lemma poll_turn_answer:
  assumes "raft_spec R" and "poll_turn R p r ctx = (ctx', Some (PolledResp items))"
  shows "length items \<le> unat (poll_limit (po_max p))"
  using assms(2) poll_attempt_length [OF assms(1)]
  by (fastforce simp: poll_turn_def resp_polled_def split: prod.splits sum.splits if_splits dest: poll_attempt_error)

lemma poll_loop_answer:
  "raft_spec R \<Longrightarrow> poll_loop R p rounds ctx = (ctx', Some (PolledResp items)) \<Longrightarrow> length items \<le> unat (poll_limit (po_max p))"
  by (induction R p rounds ctx rule: poll_loop.induct) (auto split: prod.splits option.splits dest: poll_turn_answer)

lemma poll_loop_returns:
  "r \<in> set rounds \<Longrightarrow> late r \<or> po_wait_ms p = 0 \<Longrightarrow> \<exists>resp. snd (poll_loop R p rounds ctx) = Some resp"
proof (induction R p rounds ctx rule: poll_loop.induct)
  case (2 R p r' rs ctx)
  show ?case
  proof (cases "snd (poll_turn R p r' ctx)")
    case None
    then have "\<not> late r'" "po_wait_ms p \<noteq> 0" by (auto simp: poll_turn_def split: prod.splits sum.splits if_splits)
    then have "r \<in> set rs" using 2 by auto
    with 2 None show ?thesis by (cases "poll_turn R p r' ctx") simp
  next
    case (Some resp)
    then show ?thesis by (cases "poll_turn R p r' ctx") simp
  qed
qed simp

text \<open>(C36) The long poll returns: it answers at the latest in the round in which it finds its deadline passed (the first
  round, for a poll that does not wait), whatever other tasks do meanwhile, and it never hands out
  more messages than the clamped maximum of the request, which is at most 1024.\<close>

theorem poll_returns:
  assumes "raft_spec R" and "r \<in> set rounds" and "late r \<or> po_wait_ms p = 0"
  shows "\<exists>resp. snd (handle_poll R p rounds ctx) = Some resp \<and>
    (\<forall>items. resp = PolledResp items \<longrightarrow> length items \<le> unat (poll_limit (po_max p)) \<and> length items \<le> 1024)"
proof -
  have lim: "unat (poll_limit mx) \<le> 1024" for mx
    by (simp add: poll_limit_def DEFAULT_POLL_MAX_def MAX_POLL_MAX_def min_def word_le_nat_alt)
  obtain resp where "snd (poll_loop R p rounds ctx) = Some resp" using poll_loop_returns [OF assms(2,3)] by blast
  moreover have "length items \<le> unat (poll_limit (po_max p))" if "resp = PolledResp items" for items
    using poll_loop_answer [OF assms(1), of p rounds ctx] that calculation by (cases "poll_loop R p rounds ctx") simp
  moreover have "check_names (po_topic p) (po_group p) = Some e \<Longrightarrow> e \<noteq> PolledResp items" for e items
    by (auto simp: check_names_def check_len_def split: if_splits)
  ultimately show ?thesis using lim [of "po_max p"] by (fastforce simp: handle_poll_def split: option.splits)
qed

theorem poll_returns_witness:
  "\<exists>resp. snd (handle_poll local_node \<lparr>po_topic = ''a'', po_group = ''g'', po_max = 0, po_visibility_ms = 0, po_ack_mode = [], po_wait_ms = 50\<rparr>
      [\<lparr>meanwhile = id, check_ms = 1, take_ns = 1, write_ms = 1, late = False\<rparr>,
       \<lparr>meanwhile = id, check_ms = 60, take_ns = 2, write_ms = 60, late = True\<rparr>] (local_ctx queue_default)) = Some resp"
  by (rule exE [OF poll_returns [OF local_node_spec, of "\<lparr>meanwhile = id, check_ms = 60, take_ns = 2, write_ms = 60, late = True\<rparr>"
        "[\<lparr>meanwhile = id, check_ms = 1, take_ns = 1, write_ms = 1, late = False\<rparr>,
          \<lparr>meanwhile = id, check_ms = 60, take_ns = 2, write_ms = 60, late = True\<rparr>]"
        "\<lparr>po_topic = ''a'', po_group = ''g'', po_max = 0, po_visibility_ms = 0, po_ack_mode = [], po_wait_ms = 50\<rparr>" "local_ctx queue_default"]])
     auto

section \<open>The rate of delivery\<close>

text \<open>The messages that a sequence of polls delivers.\<close>

fun polls_delivered :: "'w raft_node \<Rightarrow> (PollMsg \<times> 'w PollRound) list \<Rightarrow> 'w Ctx \<Rightarrow> nat" where
  "polls_delivered R [] ctx = 0"
| "polls_delivered R ((p, r) # prs) ctx = (case poll_attempt R p r (meanwhile r ctx) of
     (ctx, Inl resp) \<Rightarrow> polls_delivered R prs ctx
   | (ctx, Inr items) \<Rightarrow> length items + polls_delivered R prs ctx)"

abbreviation topic_bucket :: "string \<Rightarrow> u32 \<Rightarrow> nat \<Rightarrow> 'w Ctx \<Rightarrow> Bucket" where
  "topic_bucket topic brst start ctx \<equiv> bucket_at topic (real (unat (max brst 1))) start (limiter ctx)"

lemma poll_attempt_bucket:
  fixes R :: "'w raft_node" and ctx ctx' :: "'w Ctx" and start :: nat and topic :: string and brst :: u32
  assumes "raft_spec R" and "rate_config (local_queue R (world ctx)) topic = Some (rm, brst)" and "po_topic p = topic"
    and "bucket_ok (real (unat (max brst 1))) (topic_bucket topic brst start ctx)" and "last_ns (topic_bucket topic brst start ctx) \<le> take_ns r"
    and "poll_attempt R p r ctx = (ctx', res)"
  defines "b \<equiv> topic_bucket topic brst start ctx" and "b' \<equiv> topic_bucket topic brst start ctx'"
  shows "bucket_ok (real (unat (max brst 1))) b' \<and> last_ns b' \<le> take_ns r \<and> last_ns b \<le> last_ns b' \<and>
    tokens b' + (case res of Inr items \<Rightarrow> real (length items) | Inl _ \<Rightarrow> 0) \<le> tokens b + as_secs (last_ns b' - last_ns b) * (real (unat rm) / 1000)"
proof -
  let ?brst = "real (unat (max brst 1))" and ?rate = "real (unat rm) / 1000"
  have taken: "let b1 = topic_bucket topic brst start ctx1 in bucket_ok ?brst b1 \<and> last_ns b1 \<le> take_ns r \<and> last_ns b \<le> last_ns b1 \<and>
      tokens b1 + (case tk of Inr granted \<Rightarrow> real (unat granted) | Inl _ \<Rightarrow> 0) \<le> tokens b + as_secs (last_ns b1 - last_ns b) * ?rate"
    if "take_grant (rate_config (local_queue R (world ctx)) (po_topic p)) (po_topic p) (poll_limit (po_max p)) (take_ns r) ctx = (ctx1, tk)" for ctx1 tk
  proof -
    have "take_tokens topic ?rate ?brst (poll_limit (po_max p)) (take_ns r) (limiter ctx) = (limiter ctx1, tk)"
      using that assms(2,3) by (auto simp: take_grant_def split: prod.splits)
    moreover have "0 \<le> ?rate" by simp
    ultimately show ?thesis using take_tokens_at [OF _ assms(4,5)] unfolding b_def Let_def by blast
  qed
  have spent: "let b1 = topic_bucket topic brst start ctx1 in bucket_ok ?brst b1 \<and> last_ns b1 \<le> take_ns r \<and> last_ns b \<le> last_ns b1 \<and>
      tokens b1 \<le> tokens b + as_secs (last_ns b1 - last_ns b) * ?rate"
    if "take_grant (rate_config (local_queue R (world ctx)) (po_topic p)) (po_topic p) (poll_limit (po_max p)) (take_ns r) ctx = (ctx1, tk)" for ctx1 tk
  proof -
    have "0 \<le> (case tk of Inr granted \<Rightarrow> real (unat granted) | Inl _ \<Rightarrow> 0)" by (cases tk) simp_all
    with taken [OF that] show ?thesis unfolding Let_def by (elim conjE, intro conjI) (assumption | linarith)+
  qed
  show ?thesis
  proof (cases rule: poll_attempt_cases [of R p r ctx])
    case idle
    then show ?thesis using assms(4-6) by (simp add: b_def b'_def as_secs_def)
  next
    case (limited ctx1 retry)
    then show ?thesis using spent [OF limited(1)] assms(6) by (simp add: b'_def Let_def)
  next
    case (failed ctx1 granted w e)
    then show ?thesis using spent [OF failed(1)] assms(6) by (simp add: b'_def Let_def)
  next
    case (other ctx1 granted w resp)
    then show ?thesis using spent [OF other(1)] assms(6) by (simp add: b'_def Let_def)
  next
    case (polled ctx1 granted w items)
    let ?b1 = "topic_bucket topic brst start ctx1" and ?amount = "saturating_sub granted (of_nat (length items))"
    have len: "length items \<le> unat granted" by (rule raft_polled_length [OF assms(1) polled(2)])
    then have "unat (of_nat (length items) :: u32) = length items"
      using unsigned_less [of granted, where ?'a = nat] by (intro unat_of_nat_small) simp
    then have amount: "unat ?amount = unat granted - length items" by (simp add: unat_saturating_sub)
    note t = taken [OF polled(1), unfolded Let_def]
    have "limiter ctx' = refund topic ?amount ?brst (limiter ctx1)" "res = Inr items"
      using polled(3) assms(2,3,6) by (simp_all add: return_grant_def)
    then show ?thesis using refund_at [of ?brst topic start "limiter ctx1" ?amount] t len
      by (simp add: b'_def Let_def amount of_nat_diff)
  qed
qed

lemma polls_delivered_bucket:
  fixes R :: "'w raft_node" and ctx :: "'w Ctx" and prs :: "(PollMsg \<times> 'w PollRound) list"
  assumes "raft_spec R" and "\<And>w. rate_config (local_queue R w) topic = Some (rm, brst)"
    and "\<forall>(p, r) \<in> set prs. po_topic p = topic \<and> take_ns r \<le> stop \<and> (\<forall>c. bget (limiter (meanwhile r c)) topic = bget (limiter c) topic)"
    and "bucket_ok (real (unat (max brst 1))) (topic_bucket topic brst start ctx)"
    and "sorted (last_ns (topic_bucket topic brst start ctx) # map (take_ns \<circ> snd) prs)" and "last_ns (topic_bucket topic brst start ctx) \<le> stop"
  shows "real (polls_delivered R prs ctx) \<le>
    tokens (topic_bucket topic brst start ctx) + as_secs (stop - last_ns (topic_bucket topic brst start ctx)) * (real (unat rm) / 1000)"
  using assms(3-)
proof (induction prs arbitrary: ctx)
  case Nil
  then show ?case by (simp add: bucket_ok_def as_secs_def)
next
  case (Cons pr prs)
  obtain p r where pr: "pr = (p, r)" by fastforce
  let ?B = "topic_bucket topic brst start" and ?rate = "real (unat rm) / 1000"
  obtain ctx' res where at: "poll_attempt R p r (meanwhile r ctx) = (ctx', res)" by fastforce
  have same: "?B (meanwhile r ctx) = ?B ctx" using Cons.prems(1) pr by (simp add: bucket_at_def)
  have le: "last_ns (?B ctx) \<le> take_ns r" "take_ns r \<le> stop" using Cons.prems pr by auto
  have step: "bucket_ok (real (unat (max brst 1))) (?B ctx')" "last_ns (?B ctx') \<le> take_ns r" "last_ns (?B ctx) \<le> last_ns (?B ctx')"
      "tokens (?B ctx') + (case res of Inr items \<Rightarrow> real (length items) | Inl _ \<Rightarrow> 0) \<le> tokens (?B ctx) + as_secs (last_ns (?B ctx') - last_ns (?B ctx)) * ?rate"
    using poll_attempt_bucket [OF assms(1,2) _ _ _ at, of start] Cons.prems(1,2) le pr same by auto
  have "sorted (last_ns (?B ctx') # map (take_ns \<circ> snd) prs)" using Cons.prems(3) pr step(2) by (auto simp: o_def intro: order_trans)
  moreover have "\<forall>(p, r) \<in> set prs. po_topic p = topic \<and> take_ns r \<le> stop \<and> (\<forall>c. bget (limiter (meanwhile r c)) topic = bget (limiter c) topic)"
    using Cons.prems(1) by simp
  moreover have "last_ns (?B ctx') \<le> stop" using step(2) le(2) by (rule order_trans)
  ultimately have IH: "real (polls_delivered R prs ctx') \<le> tokens (?B ctx') + as_secs (stop - last_ns (?B ctx')) * ?rate"
    using Cons.IH step(1) by blast
  have "as_secs (last_ns (?B ctx') - last_ns (?B ctx)) * ?rate + as_secs (stop - last_ns (?B ctx')) * ?rate = as_secs (stop - last_ns (?B ctx)) * ?rate"
    unfolding distrib_right [symmetric] using step(2,3) le by (subst as_secs_split) auto
  moreover have "real (polls_delivered R (pr # prs) ctx) = (case res of Inr items \<Rightarrow> real (length items) | Inl _ \<Rightarrow> 0) + real (polls_delivered R prs ctx')"
    using pr at by (cases res) simp_all
  ultimately show ?case using IH step(4) by linarith
qed


text \<open>A node on which one poll commits and every later write fails, with a topic limited to one message per second and a burst of two.\<close>

definition limited_q :: Queue where
  "limited_q = fst (apply_all queue_default (SetRateLimit ''a'' 1000 2 # sample_produces))"

definition limited_poll :: AppRequest where
  "limited_poll = Poll ''a'' ''g'' 2 100 10"

definition limited_node :: "bool raft_node" where
  "limited_node = local_node_of limited_q limited_poll"

definition limited_round :: "nat \<Rightarrow> bool PollRound" where
  "limited_round ns = \<lparr>meanwhile = id, check_ms = 10, take_ns = ns, write_ms = 10, late = False\<rparr>"

definition limited_request :: PollMsg where
  "limited_request = \<lparr>po_topic = ''a'', po_group = ''g'', po_max = 8, po_visibility_ms = 100, po_ack_mode = [], po_wait_ms = 0\<rparr>"

lemma limited_config: "rate_config (local_queue limited_node w) ''a'' = Some (1000, 2)"
  by (cases w) (simp_all add: limited_node_def local_node_of_def limited_q_def limited_poll_def rate_config_def sample_defs queue_eval)


end
