(* ===== verification/Session_Guarantees.thy ===== *)
theory Session_Guarantees
  imports Client_Sessions Client_Guarantees
begin

text \<open>
  Guarantees of client connections: nothing is served and no subscription is opened before the
  connection has presented the token, and a push session gives every lease back that it obtained and
  that the subscriber did not answer.
\<close>

section \<open>Authentication\<close>

lemma client_frame_unauthenticated:
  assumes "client_frame decoder (Some token) False frame = (acts, res)"
  shows "(\<forall>req. Serve req \<notin> set acts) \<and> (\<forall>sub. res \<noteq> Inl (Some sub)) \<and>
    (res = Inr True \<longrightarrow> decoder frame = Inr (Some (AuthReq token))) \<and> (res = Inr False \<longrightarrow> (\<exists>e. decoder frame = Inl e))"
  using assms by (auto simp: client_frame_def token_eq Let_def split: sum.splits option.splits Request.splits if_splits)

lemma client_loop_gate:
  assumes "client_loop decoder (Some token) False frames = (acts, sub)" and "(\<exists>req. Serve req \<in> set acts) \<or> sub \<noteq> None"
  shows "\<exists>bad good rest. frames = bad @ good # rest \<and> (\<forall>b \<in> set bad. \<exists>e. decoder b = Inl e) \<and> decoder good = Inr (Some (AuthReq token))"
  using assms
proof (induction frames arbitrary: acts)
  case (Cons frame frames)
  obtain acts1 res where f: "client_frame decoder (Some token) False frame = (acts1, res)" by fastforce
  note un = client_frame_unauthenticated [OF f]
  show ?case
  proof (cases res)
    case (Inl s)
    then have "s = None" using un by (cases s) auto
    then have "acts = acts1 \<and> sub = None" using Cons.prems(1) f Inl by simp
    then show ?thesis using Cons.prems(2) un by simp
  next
    case (Inr authed)
    show ?thesis
    proof (cases authed)
      case True
      then have "decoder frame = Inr (Some (AuthReq token))" using un Inr by simp
      then show ?thesis by (intro exI [of _ "[]"] exI [of _ frame] exI [of _ frames]) simp
    next
      case False
      obtain acts2 where l: "client_loop decoder (Some token) False frames = (acts2, sub)" and acts: "acts = acts1 @ acts2"
        using Cons.prems(1) f Inr False by (cases "client_loop decoder (Some token) False frames") auto
      have "(\<exists>req. Serve req \<in> set acts2) \<or> sub \<noteq> None" using Cons.prems(2) acts un by auto
      from Cons.IH [OF l this] obtain bad good rest where "frames = bad @ good # rest"
          "\<forall>b \<in> set bad. \<exists>e. decoder b = Inl e" "decoder good = Inr (Some (AuthReq token))" by blast
      moreover have "\<exists>e. decoder frame = Inl e" using un Inr False by simp
      ultimately show ?thesis by (intro exI [of _ "frame # bad"] exI [of _ good] exI [of _ rest]) simp
    qed
  qed
qed simp

text \<open>No service without the token: on a port with a token, a request is handed to a handler, or a subscription opened,
  only if the first decodable frame of the connection was an authentication with exactly that token.\<close>

theorem client_auth_gate:
  assumes "handle_client decoder late_body (Some token) s = (acts, sub)" and "(\<exists>req. Serve req \<in> set acts) \<or> sub \<noteq> None"
  shows "\<exists>bad good rest. read_frames MAX_CLIENT_FRAME late_body 0 s = bad @ good # rest \<and>
    (\<forall>b \<in> set bad. \<exists>e. decoder b = Inl e) \<and> decoder good = Inr (Some (AuthReq token))"
  using assms by (intro client_loop_gate) (simp_all add: handle_client_def)

text \<open>A decoder of one-byte messages.\<close>

definition sample_decoder :: request_decoder where
  "sample_decoder b = (if b = [1] then Inr (Some (AuthReq ''secret'')) else if b = [2] then Inr (Some StatsReq) else Inl ''invalid tag'')"

theorem client_auth_gate_witness:
  "\<exists>bad good rest. read_frames MAX_CLIENT_FRAME (\<lambda>_. False) 0 (concat (map write_frame [[9], [1], [2]])) = bad @ good # rest \<and>
    (\<forall>b \<in> set bad. \<exists>e. sample_decoder b = Inl e) \<and> sample_decoder good = Inr (Some (AuthReq ''secret''))"
proof -
  have "read_frames MAX_CLIENT_FRAME (\<lambda>_. False) 0 (concat (map write_frame [[9], [1], [2]])) = [[9], [1], [2]]"
    by (rule read_frames_stream) (auto simp: MAX_CLIENT_FRAME_def)
  then have "handle_client sample_decoder (\<lambda>_. False) (Some ''secret'') (concat (map write_frame [[9], [1], [2]])) =
      ([Reply (resp_error ''bad_request'' ''invalid tag''), Reply OkResp, Serve (Some StatsReq)], None)"
    by (simp add: handle_client_def client_frame_def sample_decoder_def token_eq)
  from client_auth_gate [OF this] show ?thesis by auto
qed

section \<open>Lease accounting of a push session\<close>

lemma by_offset_deliver:
  assumes "deliver offset lid deadline now_ms t = (t', res)"
  shows "offset' \<noteq> offset \<Longrightarrow> bget (by_offset t') offset' = bget (by_offset t) offset'"
    and "res = AlreadyAcked \<Longrightarrow> t' = t"
    and "res \<noteq> AlreadyAcked \<Longrightarrow> \<exists>track. bget (by_offset t') offset = Some track \<and> track_lease track = lid"
  using assms by (auto simp: deliver_def Let_def track_refresh_def split: option.splits if_splits)

lemma by_offset_resolve:
  assumes "resolve lid until t = (t', res)"
  shows "bget (by_offset t') offset = bget (by_offset t) offset \<or>
    (\<exists>track. bget (by_offset t) offset = Some track \<and> res = Some (track_lease track))"
  using assms by (auto simp: resolve_def split: option.splits)

lemma by_offset_live_count:
  assumes "live_count now_ms grace t = (t', cur)"
  shows "bget (by_offset t') offset = bget (by_offset t) offset \<or> bget (by_offset t') offset = None"
    and "bget (by_offset t) offset = Some track \<Longrightarrow> bget (by_offset t') offset = None \<Longrightarrow> saturating_add (track_deadline track) grace \<le> now_ms"
  using by_offset_live [of now_ms grace t offset] by (auto simp: assms split: option.splits if_splits)
lemma stale_leases_forgotten:
  "bget (by_offset t) offset = Some track \<Longrightarrow> bget (by_offset t') offset = None \<Longrightarrow> track_lease track \<in> set (stale_leases t t')"
  by (force simp: stale_leases_def bget_entries)

text \<open>Where a lease of a session can be: sent in a job, about to be sent, to be given back, forgotten as stale, or tracked.\<close>

definition covered :: "'w Session \<Rightarrow> Offset \<Rightarrow> LeaseId \<Rightarrow> bool" where
  "covered s offset lid \<longleftrightarrow> lid \<in> aj_lease ` set (se_jobs s) \<or> (\<exists>job. se_outbox s = Some job \<and> aj_lease job = lid) \<or>
     (\<exists>job. se_dropped s = Some job \<and> aj_lease job = lid) \<or> lid \<in> set (se_undelivered s) \<or> lid \<in> set (se_expired s) \<or>
     (\<exists>track. bget (by_offset (se_track s)) offset = Some track \<and> track_lease track = lid)"

definition item_leases :: "Delivered list \<Rightarrow> (Offset \<times> LeaseId) list" where
  "item_leases items = map (\<lambda>d. (d_offset d, d_lease_id d)) items"

definition accounted :: "'w Session \<Rightarrow> (Offset \<times> LeaseId) list \<Rightarrow> bool" where
  "accounted s processed \<longleftrightarrow> (\<forall>offset lid. map_of (rev processed) offset = Some lid \<longrightarrow> covered s offset lid)"

definition session_inv :: "'w Session \<Rightarrow> bool" where
  "session_inv s \<longleftrightarrow> (se_ended s \<longrightarrow> se_items s = []) \<and> (\<not> se_finished s \<longrightarrow> se_dropped s = None) \<and>
     (se_finished s \<longrightarrow> se_ended s \<and> se_outbox s = None \<and> se_undelivered s = [] \<and> bis_empty (by_offset (se_track s))) \<and>
     (\<exists>processed. se_received s = processed @ item_leases (se_items s) \<and> accounted s processed)"

definition ledger :: "'w Session \<Rightarrow> AckJob list \<times> AckJob option \<times> AckJob option \<times> LeaseId list \<times> LeaseId list \<times> SubTracking" where
  "ledger s = (se_jobs s, se_outbox s, se_dropped s, se_undelivered s, se_expired s, se_track s)"

lemma ledger_update [simp]:
  "ledger (s\<lparr>se_ctx := c\<rparr>) = ledger s" "ledger (s\<lparr>se_items := ds\<rparr>) = ledger s" "ledger (s\<lparr>se_received := l\<rparr>) = ledger s"
  "ledger (s\<lparr>se_written := rs\<rparr>) = ledger s" "ledger (s\<lparr>se_handle := b\<rparr>) = ledger s" "ledger (s\<lparr>se_ended := b\<rparr>) = ledger s"
  "ledger (s\<lparr>se_closed := b\<rparr>) = ledger s"
  by (simp_all add: ledger_def)

lemma accounted_mono: "accounted s processed \<Longrightarrow> (\<And>offset lid. covered s offset lid \<Longrightarrow> covered s' offset lid) \<Longrightarrow> accounted s' processed"
  by (auto simp: accounted_def)

lemma covered_cong: "ledger s' = ledger s \<Longrightarrow> covered s' = covered s"
  by (auto simp: ledger_def covered_def fun_eq_iff)

lemma release_handle_frame [simp]:
  "ledger (release_handle conf s) = ledger s" "se_items (release_handle conf s) = se_items s"
  "se_received (release_handle conf s) = se_received s" "se_ended (release_handle conf s) = se_ended s"
  "se_finished (release_handle conf s) = se_finished s"
  by (simp_all add: release_handle_def)

lemma end_session_frame [simp]:
  "ledger (end_session conf s) = ledger s" "se_items (end_session conf s) = se_items s"
  "se_received (end_session conf s) = se_received s" "se_ended (end_session conf s)"
  "se_finished (end_session conf s) = se_finished s"
  by (simp_all add: end_session_def)

lemma session_invI:
  assumes "se_ended s \<longrightarrow> se_items s = []" and "\<not> se_finished s" and "se_dropped s = None" and "se_received s = processed @ item_leases (se_items s)"
    and "accounted s processed"
  shows "session_inv s"
  using assms unfolding session_inv_def by blast

lemma session_invE:
  assumes "session_inv s"
  obtains processed where "se_received s = processed @ item_leases (se_items s)"
    and "accounted s processed"
    and "se_ended s \<Longrightarrow> se_items s = []"
  using assms unfolding session_inv_def by blast

lemma session_inv_dropped: "session_inv s \<Longrightarrow> \<not> se_finished s \<Longrightarrow> se_dropped s = None"
  unfolding session_inv_def by simp

lemma session_inv_finished: "session_inv s \<Longrightarrow> se_finished s \<Longrightarrow> se_ended s \<and> se_outbox s = None"
  unfolding session_inv_def by simp

lemma session_inv_same:
  assumes "session_inv s" and "ledger s' = ledger s" and "se_items s' = se_items s" and "se_received s' = se_received s"
    and "se_ended s' = se_ended s" and "se_finished s' = se_finished s"
  shows "session_inv s'"
  using assms covered_cong [OF assms(2)] unfolding session_inv_def accounted_def by (simp add: ledger_def)

lemma answer_lease_covers:
  assumes "covered s offset lid" and "se_outbox s = None"
  shows "covered (answer_lease conf lid' is_nack until s) offset lid"
proof -
  obtain t res where res: "resolve lid' until (se_track s) = (t, res)" by fastforce
  show ?thesis using assms by_offset_resolve [OF res, of offset]
    by (auto simp: covered_def answer_lease_def res sub_job_def)
qed

lemma session_inv_reads:
  assumes "session_inv s" and "\<not> se_finished s" and "se_outbox s = None"
  shows "session_inv (reader_frame decoder conf now_ms frame s)"
proof -
  have "session_inv (answer_lease conf lid is_nack until s)" for lid is_nack until
  proof -
    obtain processed where "se_received s = processed @ item_leases (se_items s)"
        "accounted s processed" "se_ended s \<Longrightarrow> se_items s = []"
      using session_invE [OF assms(1)] by blast
    moreover have "accounted (answer_lease conf lid is_nack until s) processed"
      using calculation(2) answer_lease_covers [OF _ assms(3)] by (rule accounted_mono)
    ultimately show ?thesis using assms(2) session_inv_dropped [OF assms(1,2)]
      by (intro session_invI [of _ processed]) (simp_all add: answer_lease_def case_prod_beta)
  qed
  then show ?thesis using assms(1) by (auto simp: reader_frame_def split: sum.splits option.splits Request.splits)
qed

lemma session_inv_sends:
  assumes "session_inv s" and "se_outbox s \<noteq> None"
  shows "session_inv (reader_send s)"
proof -
  obtain job where job: "se_outbox s = Some job" using assms(2) by blast
  obtain processed where "se_received s = processed @ item_leases (se_items s)"
      "accounted s processed" "se_ended s \<Longrightarrow> se_items s = []"
    using session_invE [OF assms(1)] by blast
  moreover have "\<not> se_finished s" using assms(2) session_inv_finished [OF assms(1)] by auto
  moreover have "accounted (reader_send s) processed"
    using calculation(2) by (rule accounted_mono) (use job in \<open>auto simp: covered_def reader_send_def\<close>)
  ultimately show ?thesis using job session_inv_dropped [OF assms(1)] by (intro session_invI [of _ processed]) (simp_all add: reader_send_def)
qed

lemma live_count_covers:
  assumes "covered s offset lid" and "live_count now_ms grace (se_track s) = (t, cur)"
  shows "covered (s\<lparr>se_track := t, se_expired := se_expired s @ stale_leases (se_track s) t\<rparr>) offset lid"
  using assms(1) by_offset_live_count(1) [OF assms(2), of offset] stale_leases_forgotten [of "se_track s" offset _ t]
  by (auto simp: covered_def)

lemma session_poll_cases:
  obtains c where "session_poll R conf r cur s = s\<lparr>se_ctx := c\<rparr>"
  | c where "session_poll R conf r cur s = end_session conf (s\<lparr>se_ctx := c\<rparr>)"
  | c items where "session_poll R conf r cur s = s\<lparr>se_ctx := c, se_items := items, se_received := se_received s @ item_leases items\<rparr>"
proof (cases "cur < sc_prefetch conf \<and> has_deliverable (local_queue R (world (se_ctx s))) (sc_topic conf) (sc_group conf) (sub_check_ms r)")
  case False
  then show thesis by (intro that(1) [of "se_ctx s"]) (auto simp: session_poll_def)
next
  case True
  obtain c tk where t: "take_grant (rate_config (local_queue R (world (se_ctx s))) (sc_topic conf)) (sc_topic conf)
      (of_nat (sc_prefetch conf - cur)) (sub_take_ns r) (se_ctx s) = (c, tk)" by fastforce
  show thesis
  proof (cases tk)
    case (Inl retry)
    then show thesis using True t by (intro that(1)) (simp add: session_poll_def)
  next
    case (Inr granted)
    obtain w res where c: "client_write R (poll_app (sc_auto conf) (sc_topic conf) (sc_group conf) granted (sc_visibility conf) (sub_write_ms r)) (world c) = (w, res)"
      by fastforce
    show thesis
    proof (cases res)
      case (Inl e)
      then show thesis using True t Inr c by (intro that(2)) (simp add: session_poll_def)
    next
      case res: (Inr resp)
      show thesis
      proof (cases "\<exists>items. resp = Polled items")
        case items: True
        then show thesis using True t Inr c res by (elim exE, intro that(3)) (simp add: session_poll_def item_leases_def)
      next
        case False
        then have "session_poll R conf r cur s = s\<lparr>se_ctx := c\<lparr>world := w\<rparr>\<rparr>"
          using True t Inr c res by (cases resp) (simp_all add: session_poll_def)
        then show thesis by (rule that(1))
      qed
    qed
  qed
qed

lemma session_poll_frame:
  assumes "se_items s = []"
  shows "ledger (session_poll R conf r cur s) = ledger s" and "se_finished (session_poll R conf r cur s) = se_finished s"
    and "se_received (session_poll R conf r cur s) = se_received s @ item_leases (se_items (session_poll R conf r cur s))"
    and "\<not> se_ended s \<Longrightarrow> se_ended (session_poll R conf r cur s) \<Longrightarrow> se_items (session_poll R conf r cur s) = []"
  by (rule session_poll_cases [of R conf r cur s]; simp add: assms item_leases_def)+

lemma session_inv_turns:
  assumes "session_inv s" and "\<not> se_ended s" and "se_items s = []"
  shows "session_inv (session_turn R conf r s)"
proof -
  define s1 where "s1 = release_handle conf s"
  obtain processed where rec: "se_received s = processed @ item_leases (se_items s)"
      and cov: "accounted s processed" and "se_ended s \<Longrightarrow> se_items s = []"
    using session_invE [OF assms(1)] by blast
  have fin: "\<not> se_finished s" using assms(2) session_inv_finished [OF assms(1)] by auto
  have drop: "se_dropped s' = None" if "ledger s' = ledger s" for s' :: "'a Session"
    using that session_inv_dropped [OF assms(1) fin] by (simp add: ledger_def)
  have s1: "ledger s1 = ledger s" "se_items s1 = []" "se_received s1 = processed" "\<not> se_ended s1" "\<not> se_finished s1"
    using assms(2,3) rec fin by (simp_all add: s1_def item_leases_def)
  show ?thesis
  proof (cases "se_closed s1 \<or> \<not> is_leader (raft_metrics R (world (se_ctx s1))) \<or> (heartbeat_due r \<and> \<not> heartbeat_sent r)")
    case True
    then have "session_turn R conf r s = end_session conf s1" by (simp add: session_turn_def s1_def)
    moreover have "covered (end_session conf s1) = covered s" using s1(1) by (intro covered_cong) simp
    then have "accounted (end_session conf s1) processed" using cov by (simp add: accounted_def)
    ultimately show ?thesis using s1 cov drop by (intro session_invI [of _ processed]) (simp_all add: item_leases_def)
  next
    case False
    define s2 where "s2 = (if heartbeat_due r then s1\<lparr>se_written := se_written s1 @ [resp_polled []]\<rparr> else s1)
        \<lparr>se_ctx := notifier (sc_topic conf) (se_ctx s1), se_handle := True\<rparr>"
    obtain t cur where lc: "live_count (live_ms r) (sc_visibility conf) (se_track s2) = (t, cur)" by fastforce
    define s3 where "s3 = s2\<lparr>se_track := t, se_expired := se_expired s2 @ stale_leases (se_track s2) t\<rparr>"
    have turn: "session_turn R conf r s = session_poll R conf r cur s3"
      using False lc by (cases "heartbeat_due r") (simp_all add: session_turn_def s1_def [symmetric] s2_def s3_def Let_def)
    have s2: "ledger s2 = ledger s" "se_items s2 = []" "se_received s2 = processed" "\<not> se_ended s2" "\<not> se_finished s2"
      using s1 by (simp_all add: s2_def)
    have s3: "se_items s3 = []" "se_received s3 = processed" "\<not> se_ended s3" "\<not> se_finished s3" using s2 by (simp_all add: s3_def)
    have "accounted s2 processed" using cov covered_cong [OF s2(1)] by (simp add: accounted_def)
    then have "accounted s3 processed" unfolding s3_def by (rule accounted_mono) (rule live_count_covers [OF _ lc])
    then have "accounted (session_poll R conf r cur s3) processed"
      using covered_cong [OF session_poll_frame(1) [OF s3(1), of R conf r cur]] by (simp add: accounted_def)
    moreover have "se_dropped (session_poll R conf r cur s3) = None"
      using session_poll_frame(1) [OF s3(1), of R conf r cur] drop [OF s2(1)] by (simp add: ledger_def s3_def)
    ultimately show ?thesis unfolding turn using session_poll_frame(2-4) [OF s3(1), of R conf r cur] s3(2-4)
      by (intro session_invI [of _ processed]) simp_all
  qed
qed

lemma accounted_snoc:
  assumes "accounted s processed" and "\<And>offset' lid'. offset' \<noteq> offset \<Longrightarrow> covered s offset' lid' \<Longrightarrow> covered s' offset' lid'"
    and "covered s' offset lid"
  shows "accounted s' (processed @ [(offset, lid)])"
  using assms by (auto simp: accounted_def)

lemma write_item_inv:
  assumes "\<not> sc_auto conf" and "accounted s processed" and "se_received s = processed @ item_leases (se_items s)"
    and "\<not> se_ended s" and "\<not> se_finished s" and "se_dropped s = None"
  shows "session_inv (write_item conf sent d s)"
proof (cases sent)
  case True
  have "accounted (s\<lparr>se_written := ws\<rparr>) processed" for ws
    using assms(2) covered_cong [of "s\<lparr>se_written := ws\<rparr>" s] by (simp add: accounted_def)
  then show ?thesis using True assms by (intro session_invI [of _ processed]) (simp_all add: write_item_def)
next
  case False
  define s1 where "s1 = s\<lparr>se_items := [], se_undelivered := se_undelivered s @ map d_lease_id (se_items s)\<rparr>"
  have w: "write_item conf sent d s = end_session conf s1" using False assms(1) by (simp add: write_item_def s1_def)
  have "covered s1 offset lid" if "map_of (rev (se_received s)) offset = Some lid" for offset lid
  proof (cases "map_of (rev (item_leases (se_items s))) offset")
    case None
    then have "covered s offset lid" using that assms(2,3) by (simp add: accounted_def map_add_def)
    then show ?thesis by (auto simp: covered_def s1_def)
  next
    case (Some lid')
    then have "lid' \<in> set (map d_lease_id (se_items s))" by (force simp: item_leases_def dest!: map_of_SomeD)
    moreover have "lid' = lid" using that Some assms(3) by (simp add: map_add_def)
    ultimately show ?thesis by (simp add: covered_def s1_def)
  qed
  then have "accounted (end_session conf s1) (se_received s)"
    using covered_cong [of "end_session conf s1" s1] by (simp add: accounted_def)
  moreover have "se_dropped (end_session conf s1) = None"
    using assms(6) end_session_frame(1) [of conf s1] by (simp add: ledger_def s1_def)
  ultimately show ?thesis unfolding w using assms(5)
    by (intro session_invI [of _ "se_received s"]) (simp_all add: s1_def item_leases_def)
qed

lemma session_inv_pushes:
  assumes "session_inv s" and "\<not> se_ended s" and "\<not> sc_auto conf"
  shows "session_inv (session_push conf now_ms sent s)"
proof (cases "se_items s")
  case Nil
  then show ?thesis using assms(1) by (simp add: session_push_def)
next
  case (Cons d ds)
  have fin: "\<not> se_finished s" using assms(2) session_inv_finished [OF assms(1)] by auto
  obtain processed where rec: "se_received s = processed @ item_leases (se_items s)" and acc: "accounted s processed"
    using session_invE [OF assms(1)] by blast
  obtain t res where dl: "deliver (d_offset d) (d_lease_id d) (saturating_add now_ms (sc_visibility conf)) now_ms (se_track s) = (t, res)" by fastforce
  let ?processed = "processed @ [(d_offset d, d_lease_id d)]"
  have rec': "se_received s = ?processed @ item_leases ds" using rec Cons by (simp add: item_leases_def)
  define s1 where "s1 = s\<lparr>se_items := ds, se_track := t\<rparr>"
  have tracked: "accounted s1 ?processed" if "res \<noteq> AlreadyAcked"
    using acc by (rule accounted_snoc) (use by_offset_deliver(1,3) [OF dl] that in \<open>auto simp: covered_def s1_def\<close>)
  have s1: "se_received s1 = ?processed @ item_leases (se_items s1)" "\<not> se_ended s1" "\<not> se_finished s1" "se_dropped s1 = None"
    using rec' assms(2) fin session_inv_dropped [OF assms(1) fin] by (simp_all add: s1_def)
  show ?thesis
  proof (cases res)
    case Refreshed
    then have "session_push conf now_ms sent s = s1" using Cons dl assms(3) by (simp add: session_push_def s1_def)
    then show ?thesis using tracked Refreshed s1 by (intro session_invI [of _ ?processed]) simp_all
  next
    case AlreadyAcked
    let ?s = "s1\<lparr>se_jobs := se_jobs s1 @ [sub_job conf (d_lease_id d) False]\<rparr>"
    have "session_push conf now_ms sent s = ?s" using AlreadyAcked Cons dl assms(3) by (simp add: session_push_def s1_def)
    moreover have "accounted ?s ?processed" using acc
      by (rule accounted_snoc) (use by_offset_deliver(2) [OF dl] AlreadyAcked in \<open>auto simp: covered_def s1_def sub_job_def\<close>)
    ultimately show ?thesis using s1 by (intro session_invI [of _ ?processed]) simp_all
  next
    case Push
    then have "session_push conf now_ms sent s = write_item conf sent d s1" using Cons dl assms(3) by (simp add: session_push_def s1_def)
    then show ?thesis using write_item_inv [OF assms(3) tracked s1] Push by simp
  qed
qed

lemma session_inv_finishes:
  assumes "session_inv s" and "se_ended s" and "\<not> se_finished s" and "\<not> sc_auto conf"
  shows "session_inv (session_finish conf s)"
proof -
  obtain processed where rec: "se_received s = processed @ item_leases (se_items s)" and acc: "accounted s processed" and "se_ended s \<Longrightarrow> se_items s = []"
    using session_invE [OF assms(1)] by blast
  have jobs: "aj_lease ` set (se_jobs (session_finish conf s)) =
      aj_lease ` set (se_jobs s) \<union> set (se_undelivered s) \<union> track_lease ` set (bvalues (by_offset (se_track s)))"
    using assms(4) by (auto simp: session_finish_def drain_leases_def sub_job_def image_Un image_image Let_def)
  have "covered s offset lid \<Longrightarrow> covered (session_finish conf s) offset lid" for offset lid
    unfolding covered_def jobs using session_inv_dropped [OF assms(1,3)] in_bvalues [of _ "by_offset (se_track s)"]
    by (auto simp: session_finish_def Let_def case_prod_beta)
  then have "accounted (session_finish conf s) processed" using acc by (auto intro: accounted_mono)
  then show ?thesis unfolding session_inv_def using assms(2,4) rec \<open>se_ended s \<Longrightarrow> se_items s = []\<close>
    by (auto simp: session_finish_def drain_leases_def sub_default_def Let_def bis_empty_iff)
qed

lemma session_step_inv:
  assumes "session_step R decoder conf s s'" and "\<not> sc_auto conf" and "session_inv s"
  shows "session_inv s'"
  using assms(1)
proof cases
  case (reads now_ms frame)
  then show ?thesis using session_inv_reads [OF assms(3)] by simp
next
  case sends
  then show ?thesis using session_inv_sends [OF assms(3)] by simp
next
  case (turns r)
  then show ?thesis using session_inv_turns [OF assms(3)] by simp
next
  case (pushes now_ms sent)
  then show ?thesis using session_inv_pushes [OF assms(3) _ assms(2)] by simp
next
  case finishes
  then show ?thesis using session_inv_finishes [OF assms(3) _ _ assms(2)] by simp
next
  case closes
  then show ?thesis by (auto intro: session_inv_same [OF assms(3)])
next
  case (outside ctx)
  then show ?thesis by (auto intro: session_inv_same [OF assms(3)])
qed

lemma session_new_inv: "session_inv (session_new ctx)"
  by (rule session_invI [of _ "[]"]) (simp_all add: session_new_def item_leases_def accounted_def)

lemma session_steps_inv:
  assumes "(session_step R decoder conf)\<^sup>*\<^sup>* (session_new ctx) s" and "\<not> sc_auto conf"
  shows "session_inv s"
  using assms(1) by (induction rule: rtranclp_induct) (auto intro: session_new_inv session_step_inv [OF _ assms(2)])


text \<open>A session whose one delivery cannot be written: it ends and gives the lease back.\<close>

definition sample_conf :: SubConf where
  "sample_conf = sub_conf \<lparr>su_topic = ''a'', su_group = ''g'', su_prefetch = 1, su_visibility_ms = 100, su_ack_mode = []\<rparr>"

definition sample_session_poll :: AppRequest where
  "sample_session_poll = Poll ''a'' ''g'' 1 100 10"

definition sample_session_node :: "bool raft_node" where
  "sample_session_node = local_node_of sample_q sample_session_poll"

definition sample_session_start :: "bool Session" where
  "sample_session_start = session_new \<lparr>world = False, limiter = bempty, notifiers = bempty, woken = []\<rparr>"

definition sample_session_round :: SubRound where
  "sample_session_round = \<lparr>heartbeat_due = False, heartbeat_sent = False, live_ms = 10, sub_check_ms = 10, sub_take_ns = 0, sub_write_ms = 10\<rparr>"

definition sample_session_end :: "bool Session" where
  "sample_session_end = session_finish sample_conf (session_push sample_conf 10 False
     (session_turn sample_session_node sample_conf sample_session_round sample_session_start))"

lemma sample_conf_eq: "sample_conf = \<lparr>sc_topic = ''a'', sc_group = ''g'', sc_prefetch = 1, sc_auto = False, sc_visibility = 100\<rparr>"
proof -
  have "unat (min (max (1 :: u32) 1) MAX_POLL_MAX) = 1" by (simp add: MAX_POLL_MAX_def min_def word_le_nat_alt)
  moreover have "poll_visibility 100 = 100" by (simp add: poll_visibility_def MAX_VISIBILITY_MS_def min_def word_le_nat_alt)
  ultimately show ?thesis by (simp add: sample_conf_def sub_conf_def)
qed

lemma sample_session_turned:
  "\<exists>c t d. session_turn sample_session_node sample_conf sample_session_round sample_session_start =
     sample_session_start\<lparr>se_ctx := c, se_track := t, se_handle := True, se_items := [d], se_received := [(0, 0)]\<rparr> \<and>
     by_offset t = bempty \<and> acked_recently t = bempty \<and> d_offset d = 0 \<and> d_lease_id d = 0"
proof -
  obtain q' d where p: "apply_request sample_q (Poll ''a'' ''g'' 1 100 10) = (q', Polled [d])" and d: "d_offset d = 0" "d_lease_id d = 0"
    using sample_q_polled by auto
  have "has_deliverable sample_q ''a'' ''g'' 10" "rate_config sample_q ''a'' = None"
    by (simp_all add: has_deliverable_def rate_config_def sample_defs queue_eval)
  moreover have "live_count 10 100 sub_default = (sub_default, 0)"
    by (simp add: live_count_def sub_default_def bempty_literal literal_eval bvalues_def entries_bliteral)
  moreover have "stale_leases sub_default sub_default = []" "by_offset sub_default = bempty" "acked_recently sub_default = bempty"
    by (simp_all add: stale_leases_def sub_default_def bempty_literal entries_bliteral)
  ultimately show ?thesis using p d
    by (auto simp del: apply_request.simps simp: session_turn_def session_poll_def release_handle_def sample_session_start_def session_new_def sample_session_round_def
        sample_conf_eq sample_session_node_def local_node_of_def local_node_def is_leader_def take_grant_def return_grant_def
        notifier_def poll_app_def sample_session_poll_def Let_def)
qed

lemma sample_session_steps: "(session_step sample_session_node sample_decoder sample_conf)\<^sup>*\<^sup>* sample_session_start sample_session_end"
  and sample_session_done: "se_finished sample_session_end" "se_received sample_session_end = [(0, 0)]"
    "se_expired sample_session_end = []" "se_dropped sample_session_end = None"
proof -
  let ?s1 = "session_turn sample_session_node sample_conf sample_session_round sample_session_start"
  let ?s2 = "session_push sample_conf 10 False ?s1"
  obtain c t d where s1: "?s1 = sample_session_start\<lparr>se_ctx := c, se_track := t, se_handle := True, se_items := [d], se_received := [(0, 0)]\<rparr>"
      and t: "by_offset t = bempty" "acked_recently t = bempty"
    using sample_session_turned by blast
  obtain t' where dl: "deliver (d_offset d) (d_lease_id d) (saturating_add 10 100) 10 t = (t', Push)"
    using t by (simp add: deliver_def Let_def)
  have s2: "?s2 = end_session sample_conf (sample_session_start\<lparr>se_ctx := c, se_track := t', se_handle := True, se_items := [], se_received := [(0, 0)]\<rparr>)"
    using dl unfolding s1 by (simp add: session_push_def write_item_def sample_conf_eq sample_session_start_def session_new_def)
  have "session_step sample_session_node sample_decoder sample_conf sample_session_start ?s1"
    by (rule session_step.turns) (simp_all add: sample_session_start_def session_new_def)
  moreover have "session_step sample_session_node sample_decoder sample_conf ?s1 ?s2"
    by (rule session_step.pushes) (simp_all add: s1, simp add: sample_session_start_def session_new_def)
  moreover have "session_step sample_session_node sample_decoder sample_conf ?s2 sample_session_end"
    unfolding sample_session_end_def by (rule session_step.finishes) (simp_all add: s2, simp add: sample_session_start_def session_new_def)
  ultimately show "(session_step sample_session_node sample_decoder sample_conf)\<^sup>*\<^sup>* sample_session_start sample_session_end"
    by (meson rtranclp.rtrancl_into_rtrancl rtranclp.rtrancl_refl)
  show "se_finished sample_session_end" "se_received sample_session_end = [(0, 0)]"
      "se_expired sample_session_end = []" "se_dropped sample_session_end = None"
    unfolding sample_session_end_def s2
    by (simp_all add: session_finish_def end_session_def release_handle_def drain_leases_def sample_conf_eq sample_session_start_def session_new_def)
qed


end
