(* ===== verification/Peer_Network.thy ===== *)
theory Peer_Network
  imports Secrets Engine_Types
begin

text \<open>
  The peer port of \<^verbatim>\<open>engine/network.rs\<close>: the server loop \<^verbatim>\<open>handle_conn\<close> with its authentication gate,
  and the connection a node keeps to a peer. The Raft engine is the parameter \<open>peer_raft\<close>, postcard
  the parameter \<open>peer_codec\<close>, the sockets of the calling side the parameter \<open>net\<close>. The payloads of the
  three remote procedure calls are one type \<open>'rq\<close>, their results one type \<open>'rp\<close>.
\<close>

section \<open>Messages\<close>

datatype 'rq PeerRequest = PeerAppendEntries 'rq | PeerVote 'rq | PeerInstallSnapshot 'rq | PeerAuth string

datatype 'e RaftErr = Fatal string | APIError 'e

datatype ('rp, 'e) PeerResponse =
    AppendEntriesResp "'e RaftErr + 'rp"
  | VoteResp "'e RaftErr + 'rp"
  | InstallSnapshotResp "'e RaftErr + 'rp"
  | AuthResp bool

record ('rq, 'rp, 'e) peer_codec =
  enc_req :: "'rq PeerRequest \<Rightarrow> string + bytes"
  dec_req :: "bytes \<Rightarrow> string + 'rq PeerRequest"
  enc_resp :: "('rp, 'e) PeerResponse \<Rightarrow> string + bytes"
  dec_resp :: "bytes \<Rightarrow> string + ('rp, 'e) PeerResponse"

record ('w, 'rq, 'rp, 'e) peer_raft =
  raft_append_entries :: "'rq \<Rightarrow> 'w \<Rightarrow> 'w \<times> ('e RaftErr + 'rp)"
  raft_vote :: "'rq \<Rightarrow> 'w \<Rightarrow> 'w \<times> ('e RaftErr + 'rp)"
  raft_install_snapshot :: "'rq \<Rightarrow> 'w \<Rightarrow> 'w \<times> ('e RaftErr + 'rp)"

definition fuzz_decode_peer_request :: "('rq, 'rp, 'e) peer_codec \<Rightarrow> bytes \<Rightarrow> bool" where
  "fuzz_decode_peer_request C b = (case dec_req C b of Inr _ \<Rightarrow> True | Inl _ \<Rightarrow> False)"

definition fuzz_decode_peer_response :: "('rq, 'rp, 'e) peer_codec \<Rightarrow> bytes \<Rightarrow> bool" where
  "fuzz_decode_peer_response C b = (case dec_resp C b of Inr _ \<Rightarrow> True | Inl _ \<Rightarrow> False)"

section \<open>The serving side\<close>

text \<open>\<open>peer_late i\<close> tells whether the body of frame \<open>i\<close> misses its deadline, \<open>peer_write i\<close> whether writing its answer fails.\<close>

record peer_env =
  peer_late :: "nat \<Rightarrow> bool"
  peer_write :: "nat \<Rightarrow> io_error option"

text \<open>The authentication variant is answered before and never reaches the dispatch, where the source has \<^verbatim>\<open>unreachable!\<close>.\<close>

fun serve_rpc :: "('w, 'rq, 'rp, 'e) peer_raft \<Rightarrow> 'rq PeerRequest \<Rightarrow> 'w \<Rightarrow> 'w \<times> ('rp, 'e) PeerResponse" where
  "serve_rpc P (PeerAppendEntries r) w = apsnd AppendEntriesResp (raft_append_entries P r w)"
| "serve_rpc P (PeerVote r) w = apsnd VoteResp (raft_vote P r w)"
| "serve_rpc P (PeerInstallSnapshot r) w = apsnd InstallSnapshotResp (raft_install_snapshot P r w)"

fun stopped :: "('rp, 'e) PeerResponse \<Rightarrow> bool" where
  "stopped (AppendEntriesResp (Inl (Fatal _))) = True"
| "stopped (VoteResp (Inl (Fatal _))) = True"
| "stopped (InstallSnapshotResp (Inl (Fatal _))) = True"
| "stopped _ = False"

definition send_resp :: "('rq, 'rp, 'e) peer_codec \<Rightarrow> io_error option \<Rightarrow> ('rp, 'e) PeerResponse \<Rightarrow> io_error + bytes" where
  "send_resp C failure resp = (case enc_resp C resp of
     Inl e \<Rightarrow> Inl (OtherIo e)
   | Inr b \<Rightarrow> (case failure of Some e \<Rightarrow> Inl e | None \<Rightarrow> Inr (write_frame b)))"

text \<open>
  One frame: the new world, the remote call that was served if any, the bytes written, and either the
  result the connection ends with or the new authentication state.
\<close>

type_synonym ('w, 'rq) conn_result = "'w \<times> 'rq PeerRequest list \<times> bytes \<times> ((io_error + unit) + bool)"

definition auth_frame :: "('rq, 'rp, 'e) peer_codec \<Rightarrow> string option \<Rightarrow> io_error option \<Rightarrow> string \<Rightarrow> 'w \<Rightarrow> ('w, 'rq) conn_result" where
  "auth_frame C token failure offered w =
     (let authed = (case token of Some expected \<Rightarrow> secret_eq (as_bytes offered) (as_bytes expected) | None \<Rightarrow> True)
      in case send_resp C failure (AuthResp authed) of
           Inl e \<Rightarrow> (w, [], [], Inl (Inl e))
         | Inr b \<Rightarrow> (w, [], b, if authed then Inr True else Inl (Inl (OtherIo ''peer offered the wrong token''))))"

definition rpc_frame :: "('w, 'rq, 'rp, 'e) peer_raft \<Rightarrow> ('rq, 'rp, 'e) peer_codec \<Rightarrow> io_error option \<Rightarrow> 'rq PeerRequest \<Rightarrow> 'w \<Rightarrow> ('w, 'rq) conn_result" where
  "rpc_frame P C failure req w = (case serve_rpc P req w of (w, resp) \<Rightarrow> (case send_resp C failure resp of
     Inl e \<Rightarrow> (w, [req], [], Inl (Inl e))
   | Inr b \<Rightarrow> (w, [req], b, if stopped resp then Inl (Inr ()) else Inr True)))"

definition conn_frame :: "('w, 'rq, 'rp, 'e) peer_raft \<Rightarrow> ('rq, 'rp, 'e) peer_codec \<Rightarrow> string option \<Rightarrow> io_error option \<Rightarrow> bool \<Rightarrow> bytes \<Rightarrow> 'w \<Rightarrow> ('w, 'rq) conn_result" where
  "conn_frame P C token failure authed body w = (case dec_req C body of
     Inl e \<Rightarrow> (w, [], [], Inl (Inl (OtherIo e)))
   | Inr (PeerAuth offered) \<Rightarrow> auth_frame C token failure offered w
   | Inr req \<Rightarrow> if \<not> authed then (w, [], [], Inl (Inl (OtherIo ''peer sent an RPC before authenticating'')))
                else rpc_frame P C failure req w)"

function conn_loop :: "('w, 'rq, 'rp, 'e) peer_raft \<Rightarrow> ('rq, 'rp, 'e) peer_codec \<Rightarrow> string option \<Rightarrow> peer_env \<Rightarrow> nat \<Rightarrow> bool \<Rightarrow> bytes \<Rightarrow> 'w \<Rightarrow>
    'w \<times> 'rq PeerRequest list \<times> bytes \<times> (io_error + unit)" where
  "conn_loop P C token env i authed s w = (case read_frame_deadline MAX_PEER_FRAME (peer_late env i) s of
     Inl e \<Rightarrow> (w, [], [], Inl e)
   | Inr (body, rest) \<Rightarrow> (case conn_frame P C token (peer_write env i) authed body w of
       (w, served, written, Inl result) \<Rightarrow> (w, served, written, result)
     | (w, served, written, Inr authed) \<Rightarrow> (case conn_loop P C token env (Suc i) authed rest w of
         (w, served', written', result) \<Rightarrow> (w, served @ served', written @ written', result))))"
  by auto
termination
  by (relation "measure (\<lambda>(P, C, token, env, i, authed, s, w). length s)") (auto dest: read_frame_deadline_shorter)

declare conn_loop.simps [simp del]

definition handle_conn :: "('w, 'rq, 'rp, 'e) peer_raft \<Rightarrow> ('rq, 'rp, 'e) peer_codec \<Rightarrow> string option \<Rightarrow> peer_env \<Rightarrow> bytes \<Rightarrow> 'w \<Rightarrow>
    'w \<times> 'rq PeerRequest list \<times> bytes \<times> (io_error + unit)" where
  "handle_conn P C token env s w = conn_loop P C token env 0 (token = None) s w"

section \<open>The calling side\<close>

record ('n, 's) net =
  net_connect :: "string \<Rightarrow> 'n \<Rightarrow> 'n \<times> (io_error + 's)"
  net_set_nodelay :: "'s \<Rightarrow> 'n \<Rightarrow> 'n \<times> (io_error + unit)"
  net_write :: "'s \<Rightarrow> bytes \<Rightarrow> 'n \<Rightarrow> 'n \<times> (io_error + unit)"
  net_read_frame :: "'s \<Rightarrow> nat \<Rightarrow> 'n \<Rightarrow> 'n \<times> (io_error + bytes)"
  net_late :: "'s \<Rightarrow> 'n \<Rightarrow> bool"

text \<open>Operations on the network that may fail, in sequence.\<close>

definition net_bind :: "'n \<times> (io_error + 'a) \<Rightarrow> ('a \<Rightarrow> 'n \<Rightarrow> 'n \<times> (io_error + 'b)) \<Rightarrow> 'n \<times> (io_error + 'b)" where
  "net_bind m f = (case m of (n, Inl e) \<Rightarrow> (n, Inl e) | (n, Inr x) \<Rightarrow> f x n)"

definition variant_mismatch :: io_error where
  "variant_mismatch = OtherIo ''peer returned a response for a different RPC''"

definition token_answer :: "('rq, 'rp, 'e) peer_codec \<Rightarrow> bytes \<Rightarrow> io_error + unit" where
  "token_answer C b = (case dec_resp C b of
     Inr (AuthResp ok) \<Rightarrow> if ok then Inr () else Inl (OtherIo ''peer rejected our token'')
   | Inr _ \<Rightarrow> Inl variant_mismatch
   | Inl e \<Rightarrow> Inl (OtherIo e))"

definition exchange_token :: "('n, 's) net \<Rightarrow> ('rq, 'rp, 'e) peer_codec \<Rightarrow> 's \<Rightarrow> string \<Rightarrow> 'n \<Rightarrow> 'n \<times> (io_error + unit)" where
  "exchange_token N C stream token n = (case enc_req C (PeerAuth token) of
     Inl e \<Rightarrow> (n, Inl (OtherIo e))
   | Inr b \<Rightarrow> net_bind (net_write N stream (write_frame b) n) (\<lambda>_ n.
       net_bind (net_read_frame N stream MAX_PEER_FRAME n) (\<lambda>resp n. (n, token_answer C resp))))"

definition authenticate :: "('n, 's) net \<Rightarrow> ('rq, 'rp, 'e) peer_codec \<Rightarrow> 's \<Rightarrow> string \<Rightarrow> 'n \<Rightarrow> 'n \<times> (io_error + unit)" where
  "authenticate N C stream token n = (case exchange_token N C stream token n of (n', res) \<Rightarrow>
     (n', if net_late N stream n then Inl (OtherIo ''peer did not answer the handshake'') else res))"

record 's PeerConnection =
  pc_target :: NodeId
  pc_addr :: string
  pc_token :: "string option"
  pc_stream :: "'s option"

record PeerNetwork =
  pn_blocked :: "NodeId set"
  pn_token :: "string option"

definition with_token :: "string option \<Rightarrow> PeerNetwork" where
  "with_token token = \<lparr>pn_blocked = {}, pn_token = token\<rparr>"

definition new_client :: "PeerNetwork \<Rightarrow> NodeId \<Rightarrow> string \<Rightarrow> 's PeerConnection" where
  "new_client net target addr = \<lparr>pc_target = target, pc_addr = addr, pc_token = pn_token net, pc_stream = None\<rparr>"

definition open_stream :: "('n, 's) net \<Rightarrow> ('rq, 'rp, 'e) peer_codec \<Rightarrow> 's PeerConnection \<Rightarrow> 'n \<Rightarrow> 'n \<times> (io_error + 's)" where
  "open_stream N C c n = net_bind (net_connect N (pc_addr c) n) (\<lambda>stream n.
     net_bind (net_set_nodelay N stream n) (\<lambda>_ n.
       case pc_token c of
         None \<Rightarrow> (n, Inr stream)
       | Some token \<Rightarrow> net_bind (authenticate N C stream token n) (\<lambda>_ n. (n, Inr stream))))"

text \<open>\<open>blocked\<close> is the set of partitioned peers, shared by all connections. The stream is taken out of the
  connection and put back only after a complete exchange.\<close>

definition call :: "('n, 's) net \<Rightarrow> ('rq, 'rp, 'e) peer_codec \<Rightarrow> NodeId set \<Rightarrow> 'rq PeerRequest \<Rightarrow> 's PeerConnection \<Rightarrow> 'n \<Rightarrow>
    's PeerConnection \<times> 'n \<times> (io_error + ('rp, 'e) PeerResponse)" where
  "call N C blocked req c n =
     (if pc_target c \<in> blocked then (c\<lparr>pc_stream := None\<rparr>, n, Inl (OtherIo ''peer is partitioned''))
      else case enc_req C req of
             Inl e \<Rightarrow> (c, n, Inl (OtherIo e))
           | Inr b \<Rightarrow>
               (case net_bind (case pc_stream c of Some stream \<Rightarrow> (n, Inr stream) | None \<Rightarrow> open_stream N C c n) (\<lambda>stream n.
                  net_bind (net_write N stream (write_frame b) n) (\<lambda>_ n.
                    net_bind (net_read_frame N stream MAX_PEER_FRAME n) (\<lambda>resp_bytes n.
                      (n, case dec_resp C resp_bytes of Inl e \<Rightarrow> Inl (OtherIo e) | Inr resp \<Rightarrow> Inr (stream, resp))))) of
                  (n, Inl e) \<Rightarrow> (c\<lparr>pc_stream := None\<rparr>, n, Inl e)
                | (n, Inr (stream, resp)) \<Rightarrow> (c\<lparr>pc_stream := Some stream\<rparr>, n, Inr resp)))"

datatype 'e RPCError = UnreachableErr io_error | RemoteError NodeId "'e RaftErr" | NetworkErr io_error

text \<open>The three remote calls differ in the request they send and the response variant they accept.\<close>

definition remote_call :: "(('rp, 'e) PeerResponse \<Rightarrow> ('e RaftErr + 'rp) option) \<Rightarrow> NodeId \<Rightarrow>
    's PeerConnection \<times> 'n \<times> (io_error + ('rp, 'e) PeerResponse) \<Rightarrow> 's PeerConnection \<times> 'n \<times> ('e RPCError + 'rp)" where
  "remote_call variant target called = (case called of
     (c, n, Inl e) \<Rightarrow> (c, n, Inl (UnreachableErr e))
   | (c, n, Inr resp) \<Rightarrow> (c, n, case variant resp of
       Some (Inr r) \<Rightarrow> Inr r
     | Some (Inl e) \<Rightarrow> Inl (RemoteError target e)
     | None \<Rightarrow> Inl (NetworkErr variant_mismatch)))"

definition append_entries :: "('n, 's) net \<Rightarrow> ('rq, 'rp, 'e) peer_codec \<Rightarrow> NodeId set \<Rightarrow> 'rq \<Rightarrow> 's PeerConnection \<Rightarrow> 'n \<Rightarrow> 's PeerConnection \<times> 'n \<times> ('e RPCError + 'rp)" where
  "append_entries N C blocked rpc c n = remote_call (\<lambda>resp. case resp of AppendEntriesResp r \<Rightarrow> Some r | _ \<Rightarrow> None) (pc_target c)
     (call N C blocked (PeerAppendEntries rpc) c n)"

definition peer_vote :: "('n, 's) net \<Rightarrow> ('rq, 'rp, 'e) peer_codec \<Rightarrow> NodeId set \<Rightarrow> 'rq \<Rightarrow> 's PeerConnection \<Rightarrow> 'n \<Rightarrow> 's PeerConnection \<times> 'n \<times> ('e RPCError + 'rp)" where
  "peer_vote N C blocked rpc c n = remote_call (\<lambda>resp. case resp of VoteResp r \<Rightarrow> Some r | _ \<Rightarrow> None) (pc_target c)
     (call N C blocked (PeerVote rpc) c n)"

definition peer_install_snapshot :: "('n, 's) net \<Rightarrow> ('rq, 'rp, 'e) peer_codec \<Rightarrow> NodeId set \<Rightarrow> 'rq \<Rightarrow> 's PeerConnection \<Rightarrow> 'n \<Rightarrow> 's PeerConnection \<times> 'n \<times> ('e RPCError + 'rp)" where
  "peer_install_snapshot N C blocked rpc c n = remote_call (\<lambda>resp. case resp of InstallSnapshotResp r \<Rightarrow> Some r | _ \<Rightarrow> None) (pc_target c)
     (call N C blocked (PeerInstallSnapshot rpc) c n)"

section \<open>Properties\<close>

lemma conn_frame_unauthenticated:
  assumes "conn_frame P C (Some token) failure False body w = (w', served, written, res)"
  shows "w' = w \<and> served = [] \<and> (\<forall>authed. res = Inr authed \<longrightarrow> dec_req C body = Inr (PeerAuth token) \<and> authed)"
  using assms by (auto simp: conn_frame_def auth_frame_def token_eq Let_def split: sum.splits PeerRequest.splits if_splits)

text \<open>No peer without the token: on a peer port with a token, a connection has a remote call served, or changes anything
  at the node, only if its very first frame was an authentication with exactly that token.\<close>

theorem peer_auth_gate:
  assumes "handle_conn P C (Some token) env s w = (w', served, written, res)" and "served \<noteq> [] \<or> w' \<noteq> w"
  shows "\<exists>body rest. read_frame_deadline MAX_PEER_FRAME (peer_late env 0) s = Inr (body, rest) \<and> dec_req C body = Inr (PeerAuth token)"
proof (cases "read_frame_deadline MAX_PEER_FRAME (peer_late env 0) s")
  case (Inl e)
  then show ?thesis using assms by (simp add: handle_conn_def conn_loop.simps [of P C _ env 0])
next
  case (Inr br)
  obtain body rest where br: "br = (body, rest)" by fastforce
  obtain w1 served1 written1 res1 where f: "conn_frame P C (Some token) (peer_write env 0) False body w = (w1, served1, written1, res1)"
    by (metis prod_cases4)
  note un = conn_frame_unauthenticated [OF f]
  have "\<exists>authed. res1 = Inr authed"
  proof (rule ccontr)
    assume "\<not> ?thesis"
    then obtain result where "res1 = Inl result" by (cases res1) auto
    then show False using assms Inr br f un by (simp add: handle_conn_def conn_loop.simps [of P C _ env 0])
  qed
  then show ?thesis using Inr br un by auto
qed

definition echo_raft :: "(nat, unit, unit, unit) peer_raft" where
  "echo_raft = \<lparr>raft_append_entries = (\<lambda>_ n. (Suc n, Inr ())), raft_vote = (\<lambda>_ n. (n, Inr ())), raft_install_snapshot = (\<lambda>_ n. (n, Inl (Fatal [])))\<rparr>"

definition sample_peer_codec :: "(unit, unit, unit) peer_codec" where
  "sample_peer_codec = \<lparr>
     enc_req = (\<lambda>r. case r of PeerAuth t \<Rightarrow> Inr (1 # as_bytes t) | PeerAppendEntries _ \<Rightarrow> Inr [2] | PeerVote _ \<Rightarrow> Inr [3] | PeerInstallSnapshot _ \<Rightarrow> Inr [4]),
     dec_req = (\<lambda>b. if b = 1 # as_bytes ''s'' then Inr (PeerAuth ''s'') else if b = [2] then Inr (PeerAppendEntries ()) else Inl ''bad tag''),
     enc_resp = (\<lambda>r. case r of AuthResp ok \<Rightarrow> Inr [if ok then 1 else 0] | _ \<Rightarrow> Inr [2]),
     dec_resp = (\<lambda>b. if b = [1] then Inr (AuthResp True) else if b = [0] then Inr (AuthResp False) else Inl ''bad tag'')\<rparr>"

definition calm_env :: peer_env where
  "calm_env = \<lparr>peer_late = (\<lambda>_. False), peer_write = (\<lambda>_. None)\<rparr>"

lemma read_deadline_frame:
  "length b \<le> MAX_PEER_FRAME \<Longrightarrow> read_frame_deadline MAX_PEER_FRAME False (write_frame b @ rest) = Inr (b, rest)"
  using read_len_frame [of b MAX_PEER_FRAME rest] by (simp add: read_frame_deadline_def read_body_eq read_exact_def MAX_PEER_FRAME_def)

theorem peer_auth_gate_witness:
  "\<exists>body rest. read_frame_deadline MAX_PEER_FRAME False (write_frame (1 # as_bytes ''s'') @ write_frame [2] @ []) = Inr (body, rest) \<and>
     dec_req sample_peer_codec body = Inr (PeerAuth ''s'')"
proof -
  let ?s = "write_frame (1 # as_bytes ''s'') @ write_frame [2] @ []"
  have a: "length (1 # as_bytes ''s'') \<le> MAX_PEER_FRAME" and b: "length [2 :: u8] \<le> MAX_PEER_FRAME"
    by (simp_all add: as_bytes_def MAX_PEER_FRAME_def)
  obtain w' served written res where h: "handle_conn echo_raft sample_peer_codec (Some ''s'') calm_env ?s 0 = (w', served, written, res)"
    by (metis prod_cases4)
  have "served \<noteq> []"
  proof -
    have f: "conn_frame echo_raft sample_peer_codec (Some ''s'') None False (1 # as_bytes ''s'') 0 = (0, [], write_frame [1], Inr True)"
      by (simp add: conn_frame_def auth_frame_def send_resp_def sample_peer_codec_def token_eq Let_def)
    have g: "conn_frame echo_raft sample_peer_codec (Some ''s'') None True [2] 0 = (1, [PeerAppendEntries ()], write_frame [2], Inr True)"
      by (simp add: conn_frame_def rpc_frame_def send_resp_def sample_peer_codec_def echo_raft_def as_bytes_def)
    have "fst (snd (handle_conn echo_raft sample_peer_codec (Some ''s'') calm_env ?s 0)) \<noteq> []"
      unfolding handle_conn_def
      by (subst conn_loop.simps, subst conn_loop.simps)
         (simp add: calm_env_def read_deadline_frame [OF a] read_deadline_frame [OF b, of "[]", simplified] f g case_prod_beta)
    with h show ?thesis by simp
  qed
  with peer_auth_gate [OF h] show ?thesis by (simp add: calm_env_def)
qed

text \<open>Both ends of a handshake agree: the caller goes on precisely when the server has let the connection in.\<close>

lemma handshake_agrees:
  assumes "enc_req C (PeerAuth token) = Inr b" and "dec_req C b = Inr (PeerAuth token)"
    and "\<And>ok. \<exists>rb. enc_resp C (AuthResp ok) = Inr rb \<and> dec_resp C rb = Inr (AuthResp ok)"
  shows "\<exists>frame res. conn_frame P C (Some expected) None False b w = (w, [], write_frame frame, res) \<and>
    (token_answer C frame = Inr () \<longleftrightarrow> token = expected) \<and> (res = Inr True \<longleftrightarrow> token = expected)"
proof -
  obtain rb where rb: "enc_resp C (AuthResp (token = expected)) = Inr rb" "dec_resp C rb = Inr (AuthResp (token = expected))"
    using assms(3) by blast
  then show ?thesis using assms(2)
    by (auto simp: conn_frame_def auth_frame_def send_resp_def token_answer_def token_eq Let_def)
qed

text \<open>The connection of a caller with a token only ever keeps a stream on which the handshake has succeeded, and
  a call that fails on the wire leaves it without one, so that the next call starts with a handshake.\<close>

definition trusted :: "('n, 's) net \<Rightarrow> ('rq, 'rp, 'e) peer_codec \<Rightarrow> 's PeerConnection \<Rightarrow> bool" where
  "trusted N C c \<longleftrightarrow> (\<forall>stream token. pc_stream c = Some stream \<and> pc_token c = Some token \<longrightarrow>
     (\<exists>n n'. authenticate N C stream token n = (n', Inr ())))"

lemma net_bind_Inr: "net_bind m f = (n', Inr y) \<longleftrightarrow> (\<exists>n x. m = (n, Inr x) \<and> f x n = (n', Inr y))"
  by (auto simp: net_bind_def split: prod.splits sum.splits)

lemma case_sum_Inr: "(case x of Inl e \<Rightarrow> Inl (f e) | Inr y \<Rightarrow> Inr (g y)) = Inr z \<longleftrightarrow> (\<exists>y. x = Inr y \<and> z = g y)"
  by (cases x) auto

lemma trusted_new: "trusted N C (new_client pn target addr)"
  by (simp add: trusted_def new_client_def)

lemma open_stream_trusted:
  "open_stream N C c n = (n', Inr stream) \<Longrightarrow> pc_token c = Some token \<Longrightarrow> \<exists>n n'. authenticate N C stream token n = (n', Inr ())"
  by (auto simp: open_stream_def net_bind_Inr)

lemma call_trusted:
  assumes "trusted N C c" and "call N C blocked req c n = (c', n', res)"
  shows "trusted N C c'"
proof (cases "pc_stream c' = None \<or> c' = c")
  case True
  then show ?thesis using assms(1) by (auto simp: trusted_def)
next
  case False
  then obtain b stream n1 where "c' = c\<lparr>pc_stream := Some stream\<rparr>"
      and "(case pc_stream c of Some stream \<Rightarrow> (n, Inr stream) | None \<Rightarrow> open_stream N C c n) = (n1, Inr stream)"
    using assms(2) by (auto simp: call_def net_bind_Inr case_sum_Inr split: if_splits sum.splits prod.splits)
  then show ?thesis using assms(1) open_stream_trusted [of N C c n n1 stream] by (auto simp: trusted_def split: option.splits)
qed

lemma call_failure: "call N C blocked req c n = (c', n', Inl e) \<Longrightarrow> pc_stream c' = None \<or> (c' = c \<and> n' = n)"
  by (auto simp: call_def split: if_splits sum.splits prod.splits)

end
