(* ===== verification/Http.thy ===== *)
theory Http
  imports Client_Protocol
begin

text \<open>
  The HTTP port of \<^verbatim>\<open>http.rs\<close>: reading the head of a request, pulling out its path, and the routes for
  health, readiness and metrics. A path is a list of Unicode code points, decoded as
  \<^verbatim>\<open>String::from_utf8_lossy\<close> does; the reads of the stream that return before the deadline are a list.
\<close>

section \<open>Strings\<close>

type_synonym code_point = nat

definition REPLACEMENT :: code_point where "REPLACEMENT = 0xFFFD"

definition is_cont :: "u8 \<Rightarrow> bool" where
  "is_cont b \<longleftrightarrow> 0x80 \<le> b \<and> b \<le> 0xBF"

definition cont_bits :: "u8 \<Rightarrow> nat" where
  "cont_bits b = unat b mod 64"

text \<open>The bytes that may follow the first byte of a sequence of three or four bytes.\<close>

definition second_ok :: "u8 \<Rightarrow> u8 \<Rightarrow> bool" where
  "second_ok b c \<longleftrightarrow>
     (if b = 0xE0 then 0xA0 \<le> c \<and> c \<le> 0xBF
      else if b = 0xED then 0x80 \<le> c \<and> c \<le> 0x9F
      else if b = 0xF0 then 0x90 \<le> c \<and> c \<le> 0xBF
      else if b = 0xF4 then 0x80 \<le> c \<and> c \<le> 0x8F
      else is_cont c)"

text \<open>The first character of a nonempty string and the number of bytes it takes; a sequence that breaks off is
  one replacement character for its longest valid prefix.\<close>

definition next_char :: "bytes \<Rightarrow> code_point \<times> nat" where
  "next_char s =
     (let b = s ! 0; byte = (\<lambda>i. if i < length s then s ! i else 0) in
      if b < 0x80 then (unat b, 1)
      else if 0xC2 \<le> b \<and> b \<le> 0xDF
      then (if is_cont (byte 1) then (unat b mod 32 * 64 + cont_bits (byte 1), 2) else (REPLACEMENT, 1))
      else if 0xE0 \<le> b \<and> b \<le> 0xEF
      then (if \<not> second_ok b (byte 1) then (REPLACEMENT, 1)
            else if \<not> is_cont (byte 2) then (REPLACEMENT, 2)
            else (unat b mod 16 * 4096 + cont_bits (byte 1) * 64 + cont_bits (byte 2), 3))
      else if 0xF0 \<le> b \<and> b \<le> 0xF4
      then (if \<not> second_ok b (byte 1) then (REPLACEMENT, 1)
            else if \<not> is_cont (byte 2) then (REPLACEMENT, 2)
            else if \<not> is_cont (byte 3) then (REPLACEMENT, 3)
            else (unat b mod 8 * 262144 + cont_bits (byte 1) * 4096 + cont_bits (byte 2) * 64 + cont_bits (byte 3), 4))
      else (REPLACEMENT, 1))"

lemma next_char_consumes: "snd (next_char s) > 0"
  by (simp add: next_char_def Let_def)

function from_utf8_lossy :: "bytes \<Rightarrow> code_point list" where
  "from_utf8_lossy s = (if s = [] then [] else case next_char s of (c, n) \<Rightarrow> c # from_utf8_lossy (drop n s))"
  by auto

termination
proof (relation "measure length", goal_cases)
  case (2 s c n)
  then have "n > 0" using next_char_consumes [of s] by (metis snd_conv)
  then show ?case using 2 by simp
qed simp

declare from_utf8_lossy.simps [simp del]

definition is_whitespace :: "code_point \<Rightarrow> bool" where
  "is_whitespace c \<longleftrightarrow> (9 \<le> c \<and> c \<le> 13) \<or> (0x2000 \<le> c \<and> c \<le> 0x200A) \<or>
     c \<in> {0x20, 0x85, 0xA0, 0x1680, 0x2028, 0x2029, 0x202F, 0x205F, 0x3000}"

text \<open>\<^verbatim>\<open>lines().next().unwrap_or("")\<close>: a final carriage return belongs to the line end only before a line feed.\<close>

definition first_line :: "code_point list \<Rightarrow> code_point list" where
  "first_line s = (let line = takeWhile (\<lambda>c. c \<noteq> 10) s
     in if length line < length s \<and> line \<noteq> [] \<and> last line = 13 then butlast line else line)"

function split_whitespace :: "code_point list \<Rightarrow> code_point list list" where
  "split_whitespace s = (let s = dropWhile is_whitespace s in
     if s = [] then [] else takeWhile (\<lambda>c. \<not> is_whitespace c) s # split_whitespace (dropWhile (\<lambda>c. \<not> is_whitespace c) s))"
  by auto

termination
proof (relation "measure length", goal_cases)
  case (2 s x)
  then have hd: "\<not> is_whitespace (hd x)" using hd_dropWhile [of is_whitespace s] by simp
  obtain a x' where x: "x = a # x'" using 2(2) by (meson neq_Nil_conv)
  have "length (dropWhile (\<lambda>c. \<not> is_whitespace c) x) < length x"
    using hd length_dropWhile_le [of "\<lambda>c. \<not> is_whitespace c" x'] by (simp add: x)
  moreover have "length x \<le> length s" using 2 length_dropWhile_le [of is_whitespace s] by simp
  ultimately show ?case by simp
qed simp

declare split_whitespace.simps [simp del]

definition code_points :: "string \<Rightarrow> code_point list" where
  "code_points s = map of_char s"

section \<open>The request\<close>

definition parse_path :: "bytes \<Rightarrow> code_point list" where
  "parse_path head =
     (let request_line = first_line (from_utf8_lossy head);
          field = (case split_whitespace request_line of _ # target # _ \<Rightarrow> target | _ \<Rightarrow> code_points ''/'')
      in takeWhile (\<lambda>c. c \<noteq> of_char (CHR ''?'')) field)"

fun has_crlf :: "bytes \<Rightarrow> bool" where
  "has_crlf (a # b # s) \<longleftrightarrow> (a = 13 \<and> b = 10) \<or> has_crlf (b # s)"
| "has_crlf _ \<longleftrightarrow> False"

text \<open>\<open>None\<close> while no more reads return.\<close>

fun read_head :: "bytes \<Rightarrow> (io_error + bytes) list \<Rightarrow> (io_error + bytes) option" where
  "read_head buf [] = None"
| "read_head buf (Inl e # reads) = Some (Inl e)"
| "read_head buf (Inr chunk # reads) =
     (if chunk = [] then Some (Inr buf)
      else let buf = buf @ chunk in
           if has_crlf buf \<or> length buf \<ge> 8192 then Some (Inr buf) else read_head buf reads)"

section \<open>The routes\<close>

definition newline :: string where "newline = [CHR 0x0A]"
definition crlf :: string where "crlf = [CHR 0x0D, CHR 0x0A]"

text \<open>One gauge in the text format of the metrics: its help and type lines and its value.\<close>

definition gauge :: "u64 \<Rightarrow> string \<Rightarrow> string \<Rightarrow> u64 \<Rightarrow> string" where
  "gauge node name help v =
     ''# HELP '' @ name @ '' '' @ help @ newline @
     ''# TYPE '' @ name @ '' gauge'' @ newline @
     name @ ''{node='' @ [CHR 0x22] @ decimal (unat node) @ [CHR 0x22] @ ''} '' @ decimal (unat v) @ newline"

definition metrics_text :: "RaftMetrics \<Rightarrow> Queue \<Rightarrow> string" where
  "metrics_text m q =
     (let last_applied = (case rm_last_applied m of Some l \<Rightarrow> log_index l | None \<Rightarrow> 0);
          last_log_index = (case rm_last_log_index m of Some i \<Rightarrow> i | None \<Rightarrow> 0);
          current_leader = (case rm_current_leader m of Some l \<Rightarrow> l | None \<Rightarrow> 0);
          is_leader = (if rm_current_leader m = Some (rm_id m) then 1 else 0);
          quorum_ack_ms = (case rm_quorum_ack_ms m of Some ms \<Rightarrow> ms | None \<Rightarrow> 0);
          g = gauge (rm_id m)
      in g ''hermesmq_raft_term'' ''Current Raft term'' (rm_current_term m) @
         g ''hermesmq_raft_is_leader'' ''1 if this node is the leader'' is_leader @
         g ''hermesmq_raft_current_leader'' ''Current leader node id (0 if none)'' current_leader @
         g ''hermesmq_raft_last_log_index'' ''Last log index appended'' last_log_index @
         g ''hermesmq_raft_last_applied'' ''Last log index applied to the state machine'' last_applied @
         g ''hermesmq_raft_millis_since_quorum_ack'' ''Replication lag: ms since last quorum ack (leader only)'' quorum_ack_ms @
         g ''hermesmq_topics'' ''Number of topics'' (qm_topics (metrics q)) @
         g ''hermesmq_messages'' ''Number of retained messages across topics'' (qm_messages (metrics q)) @
         g ''hermesmq_in_flight'' ''Number of leased (in-flight) messages'' (qm_in_flight (metrics q)))"

definition route :: "RaftMetrics \<Rightarrow> Queue \<Rightarrow> code_point list \<Rightarrow> bool \<Rightarrow> string \<times> string \<times> string" where
  "route m q path metrics_enabled =
     (if path = code_points ''/health'' then (''200 OK'', ''text/plain'', ''ok'' @ newline)
      else if path = code_points ''/ready''
      then (if rm_current_leader m \<noteq> None then (''200 OK'', ''text/plain'', ''ready'' @ newline)
            else (''503 Service Unavailable'', ''text/plain'', ''not ready'' @ newline))
      else if path = code_points ''/metrics''
      then (if \<not> metrics_enabled then (''404 Not Found'', ''text/plain'', ''metrics disabled'' @ newline)
            else (''200 OK'', ''text/plain; version=0.0.4'', metrics_text m q))
      else (''404 Not Found'', ''text/plain'', ''not found'' @ newline))"

fun http_response :: "string \<times> string \<times> string \<Rightarrow> string" where
  "http_response (status, content_type, body) =
     ''HTTP/1.1 '' @ status @ crlf @ ''content-type: '' @ content_type @ crlf @
     ''content-length: '' @ decimal (length body) @ crlf @ ''connection: close'' @ crlf @ crlf @ body"

definition http_handle :: "RaftMetrics \<Rightarrow> Queue \<Rightarrow> bool \<Rightarrow> (io_error + bytes) list \<Rightarrow> io_error + string" where
  "http_handle m q metrics_enabled reads = (case read_head [] reads of
     None \<Rightarrow> Inl (TimedOut ''request head did not arrive before the deadline'')
   | Some (Inl e) \<Rightarrow> Inl e
   | Some (Inr buf) \<Rightarrow> Inr (http_response (route m q (parse_path buf) metrics_enabled)))"

section \<open>Paths\<close>

lemma split_whitespace_fields: "w \<in> set (split_whitespace s) \<Longrightarrow> c \<in> set w \<Longrightarrow> \<not> is_whitespace c"
proof (induction s rule: split_whitespace.induct)
  case (1 s)
  then show ?case by (subst (asm) split_whitespace.simps) (auto simp: Let_def split: if_splits dest: set_takeWhileD)
qed

text \<open>What the fuzz target for the port asserts: a parsed path carries no line break, no whitespace and no query.\<close>

lemma parse_path_clean:
  assumes "c \<in> set (parse_path head)"
  shows "\<not> is_whitespace c \<and> c \<noteq> 13 \<and> c \<noteq> 10 \<and> c \<noteq> of_char (CHR ''?'')"
proof -
  have "\<not> is_whitespace c"
    using assms split_whitespace_fields [of _ "first_line (from_utf8_lossy head)" c]
    by (auto simp: parse_path_def Let_def code_points_def is_whitespace_def dest!: set_takeWhileD split: list.splits)
  then show ?thesis using assms by (auto simp: parse_path_def Let_def is_whitespace_def dest: set_takeWhileD)
qed

lemma from_utf8_lossy_ascii: "list_all (\<lambda>b. b < 0x80) a \<Longrightarrow> from_utf8_lossy (a @ s) = map unat a @ from_utf8_lossy s"
  by (induction a) (simp_all add: from_utf8_lossy.simps [of "_ # _"] next_char_def Let_def)

lemma split_whitespace_skip: "is_whitespace c \<Longrightarrow> split_whitespace (c # s) = split_whitespace s"
  by (subst (1 2) split_whitespace.simps) simp

lemma split_whitespace_field:
  assumes "w \<noteq> []" and "list_all (\<lambda>c. \<not> is_whitespace c) w" and "is_whitespace c"
  shows "split_whitespace (w @ c # s) = w # split_whitespace s"
proof -
  have "dropWhile is_whitespace (w @ c # s) = w @ c # s" using assms(1,2) by (cases w) auto
  moreover have "takeWhile (\<lambda>c. \<not> is_whitespace c) (w @ c # s) = w" "dropWhile (\<lambda>c. \<not> is_whitespace c) (w @ c # s) = c # s"
    using assms(2,3) by (simp_all add: list_all_iff takeWhile_append dropWhile_append)
  ultimately show ?thesis using assms(1) split_whitespace_skip [OF assms(3)] by (subst split_whitespace.simps) simp
qed

text \<open>The bytes of a method, a target and a version: printable ASCII.\<close>

definition graphic :: "bytes \<Rightarrow> bool" where
  "graphic w \<longleftrightarrow> w \<noteq> [] \<and> list_all (\<lambda>b. 33 \<le> b \<and> b \<le> 126) w"

lemma graphic_bytes: "graphic w \<Longrightarrow> b \<in> set w \<Longrightarrow> 33 \<le> unat b \<and> unat b \<le> 126"
  by (auto simp: graphic_def list_all_iff word_le_nat_alt)

lemma graphic_not_whitespace: "33 \<le> c \<Longrightarrow> c \<le> 126 \<Longrightarrow> \<not> is_whitespace c"
  by (auto simp: is_whitespace_def)

lemma graphic_words:
  assumes "graphic w"
  shows "map unat w \<noteq> []" and "list_all (\<lambda>c. \<not> is_whitespace c) (map unat w)" and "list_all (\<lambda>b. b < 0x80) w"
    and "10 \<notin> unat ` set w" and "10 \<notin> set w"
proof -
  show "10 \<notin> unat ` set w" using graphic_bytes [OF assms] by fastforce
  then show "10 \<notin> set w" by force
  show "list_all (\<lambda>c. \<not> is_whitespace c) (map unat w)"
    using graphic_bytes [OF assms] graphic_not_whitespace by (auto simp: list_all_iff)
  show "list_all (\<lambda>b. b < 0x80) w" using graphic_bytes [OF assms] by (fastforce simp: list_all_iff word_less_nat_alt)
qed (use assms in \<open>simp add: graphic_def\<close>)

definition request_line :: "bytes \<Rightarrow> bytes \<Rightarrow> bytes \<Rightarrow> bytes" where
  "request_line verb target version = verb @ 32 # target @ 32 # version"

lemma parse_path_request:
  assumes "graphic verb" and "graphic target" and "graphic version"
  shows "parse_path (request_line verb target version @ [13, 10] @ rest) = takeWhile (\<lambda>c. c \<noteq> of_char (CHR ''?'')) (map unat target)"
proof -
  let ?line = "map unat verb @ 32 # map unat target @ 32 # map unat version"
  have "list_all (\<lambda>b. b < 0x80) (request_line verb target version @ [13, 10])"
    using assms [THEN graphic_words(3)] by (simp add: request_line_def)
  from from_utf8_lossy_ascii [OF this, of rest]
  have "from_utf8_lossy (request_line verb target version @ [13, 10] @ rest) = (?line @ [13]) @ 10 # from_utf8_lossy rest"
    by (simp add: request_line_def)
  moreover have "10 \<notin> set (?line @ [13])" using assms [THEN graphic_words(4)] by auto
  then have "takeWhile (\<lambda>c. c \<noteq> 10) ((?line @ [13]) @ 10 # from_utf8_lossy rest) = ?line @ [13]"
    by (subst takeWhile_append2) auto
  ultimately have "first_line (from_utf8_lossy (request_line verb target version @ [13, 10] @ rest)) = ?line"
    by (simp only: first_line_def Let_def) (simp add: butlast_append)
  moreover have "is_whitespace 32" by (simp add: is_whitespace_def)
  ultimately show ?thesis
    using split_whitespace_field [OF graphic_words(1,2), OF assms(1,1)] split_whitespace_field [OF graphic_words(1,2), OF assms(2,2)]
    by (simp add: parse_path_def)
qed

section \<open>Requests\<close>

lemma has_crlf_append: "has_crlf (a @ 13 # 10 # s)"
  by (induction a rule: has_crlf.induct) auto

lemma has_crlf_lf: "has_crlf s \<Longrightarrow> 10 \<in> set s"
  by (induction s rule: has_crlf.induct) auto

lemma read_head_line:
  assumes "buf @ concat chunks = line @ [13, 10] @ rest" and "length buf < length line + 2" and "[] \<notin> set chunks"
    and "10 \<notin> set line" and "length line + 2 \<le> 8192"
  shows "\<exists>rest'. read_head buf (map Inr chunks) = Some (Inr (line @ [13, 10] @ rest'))"
  using assms(1-3)
proof (induction chunks arbitrary: buf)
  case Nil
  then show ?case using arg_cong [OF Nil(1), of length] by simp
next
  case (Cons chunk chunks)
  show ?case
  proof (cases "length (buf @ chunk) < length line + 2")
    case True
    have "(buf @ chunk) @ concat chunks = line @ [13, 10] @ rest" using Cons.prems(1) by simp
    then have "buf @ chunk = take (length (buf @ chunk)) (line @ [13, 10] @ rest)" by (metis append_eq_conv_conj)
    also have "\<dots> = take (length (buf @ chunk)) line @ take (length (buf @ chunk) - length line) [13]"
      using True by (auto simp: take_Cons split: nat.splits)
    finally have eq: "buf @ chunk = take (length (buf @ chunk)) line @ take (length (buf @ chunk) - length line) [13]" .
    have "set (buf @ chunk) \<subseteq> set line \<union> {13}"
      by (subst eq) (use set_take_subset [of _ line] set_take_subset [of _ "[13]"] in fastforce)
    moreover have "10 \<notin> set line \<union> {13}" using assms(4) by simp
    ultimately have "\<not> has_crlf (buf @ chunk)" using has_crlf_lf [of "buf @ chunk"] by blast
    then show ?thesis using Cons True assms(5) by auto
  next
    case False
    have "(buf @ chunk) @ concat chunks = (line @ [13, 10]) @ rest" using Cons.prems(1) by simp
    moreover have "length (line @ [13, 10]) \<le> length (buf @ chunk)" using False by simp
    ultimately have "take (length (line @ [13, 10])) (buf @ chunk) = line @ [13, 10]"
      unfolding append_eq_append_conv_if [of "buf @ chunk"] by (metis order_antisym_conv take_all_iff)
    then obtain rest' where "buf @ chunk = (line @ [13, 10]) @ rest'" by (metis append_take_drop_id)
    then show ?thesis using Cons.prems(3) has_crlf_append [of line rest'] by auto
  qed
qed

text \<open>(C38) Every well-formed request is answered by its route: a request line of printable words, however it is cut into
  packets and whatever follows it, gets exactly the response of the route its path names, the query
  left out - so metrics are never served while they are disabled.\<close>

theorem http_request_served:
  assumes "graphic verb" and "graphic target" and "graphic version"
    and "concat chunks = request_line verb target version @ [13, 10] @ rest" and "[] \<notin> set chunks"
    and "length (request_line verb target version) + 2 \<le> 8192"
  shows "http_handle m q metrics_enabled (map Inr chunks) =
    Inr (http_response (route m q (takeWhile (\<lambda>c. c \<noteq> of_char (CHR ''?'')) (map unat target)) metrics_enabled))"
proof -
  have "10 \<notin> set (request_line verb target version)" using assms(1-3) [THEN graphic_words(5)] by (simp add: request_line_def)
  with read_head_line [of "[]" chunks "request_line verb target version" rest] assms(4-6)
  obtain rest' where "read_head [] (map Inr chunks) = Some (Inr (request_line verb target version @ [13, 10] @ rest'))" by auto
  then show ?thesis unfolding http_handle_def by (simp only: option.case sum.case parse_path_request [OF assms(1-3)])
qed

theorem http_request_served_witness:
  "http_handle \<lparr>rm_id = 1, rm_current_leader = None, rm_current_term = 0, rm_last_log_index = None, rm_last_applied = None,
      rm_quorum_ack_ms = None, rm_node_addr = (\<lambda>_. None)\<rparr> queue_default False
      (map Inr [[71, 69, 84, 32, 47, 114], [101, 97, 100, 121, 63, 120, 32, 72, 13], [10, 65]]) =
    Inr (http_response (''503 Service Unavailable'', ''text/plain'', ''not ready'' @ newline))"
  by (subst http_request_served [where verb = "[71, 69, 84]" and target = "[47, 114, 101, 97, 100, 121, 63, 120]" and version = "[72]" and rest = "[65]"])
    (simp_all add: graphic_def request_line_def route_def code_points_def)

end
