(* ===== verification/Accept_Loops.thy ===== *)
theory Accept_Loops
  imports Session_Guarantees Peer_Network Http
begin

text \<open>
  The accept loops of the three ports: \<^verbatim>\<open>serve_clients_authenticated\<close> of \<^verbatim>\<open>client.rs\<close>,
  \<^verbatim>\<open>serve_peer_authenticated\<close> of \<^verbatim>\<open>engine/network.rs\<close> and \<^verbatim>\<open>serve_http\<close> of \<^verbatim>\<open>http.rs\<close>, each with the
  connections it has spawned. A port is run by a sequence of events: a connection comes in, accepting
  one fails, or the task of an open connection takes one turn; any interleaving of the tasks is
  such a sequence. A turn of a peer or client connection is one iteration of its loop. The counting
  semaphore of tokio is the parameter \<open>semaphore\<close>. The batchers the client port starts are modelled
  with the client handlers.
\<close>

section \<open>Connection permits\<close>

record 'p semaphore =
  sem_new :: "nat \<Rightarrow> 'p"
  try_acquire_owned :: "'p \<Rightarrow> 'p option"
  drop_permit :: "'p \<Rightarrow> 'p"

text \<open>What tokio documents of a semaphore: it starts with the given number of permits, acquiring takes
  one and fails exactly when none is left, and dropping a permit gives it back.\<close>

definition semaphore_spec :: "'p semaphore \<Rightarrow> ('p \<Rightarrow> nat) \<Rightarrow> bool" where
  "semaphore_spec M available \<longleftrightarrow> (\<forall>n. available (sem_new M n) = n) \<and>
     (\<forall>p. case try_acquire_owned M p of None \<Rightarrow> available p = 0 | Some p' \<Rightarrow> available p = Suc (available p')) \<and>
     (\<forall>p. available (drop_permit M p) = Suc (available p))"

text \<open>The open connections of a port by the number of their task.\<close>

record ('p, 'c) Port =
  po_permits :: 'p
  po_open :: "(nat \<times> 'c) list"
  po_spawned :: nat

datatype ('i, 't) PortEvent = Incoming 'i | AcceptError | Turn nat 't

definition port_new :: "'p semaphore \<Rightarrow> nat \<Rightarrow> ('p, 'c) Port" where
  "port_new M n = \<lparr>po_permits = sem_new M n, po_open = [], po_spawned = 0\<rparr>"

definition accept_conn :: "'p semaphore \<Rightarrow> 'c \<Rightarrow> ('p, 'c) Port \<Rightarrow> ('p, 'c) Port" where
  "accept_conn M c port = (case try_acquire_owned M (po_permits port) of
     None \<Rightarrow> port
   | Some permits \<Rightarrow> \<lparr>po_permits = permits, po_open = po_open port @ [(po_spawned port, c)], po_spawned = Suc (po_spawned port)\<rparr>)"

definition set_conn :: "nat \<Rightarrow> 'c \<Rightarrow> ('p, 'c) Port \<Rightarrow> ('p, 'c) Port" where
  "set_conn i c port = port\<lparr>po_open := map (\<lambda>(j, d). (j, if j = i then c else d)) (po_open port)\<rparr>"

definition end_conn :: "'p semaphore \<Rightarrow> nat \<Rightarrow> ('p, 'c) Port \<Rightarrow> ('p, 'c) Port" where
  "end_conn M i port = port\<lparr>po_permits := drop_permit M (po_permits port), po_open := filter (\<lambda>(j, _). j \<noteq> i) (po_open port)\<rparr>"

section \<open>The peer port\<close>

definition MAX_PEER_CONNS :: nat where "MAX_PEER_CONNS = 256"

text \<open>A peer connection: its authentication state, the number of its next frame, what is left of its
  input, and what it began with.\<close>

type_synonym peer_input = "bytes \<times> peer_env"

record PeerConn =
  co_authed :: bool
  co_frame :: nat
  co_rest :: bytes
  co_origin :: peer_input

definition peer_conn :: "string option \<Rightarrow> peer_input \<Rightarrow> PeerConn" where
  "peer_conn token input = \<lparr>co_authed = (token = None), co_frame = 0, co_rest = fst input, co_origin = input\<rparr>"

definition peer_turn :: "('w, 'rq, 'rp, 'e) peer_raft \<Rightarrow> ('rq, 'rp, 'e) peer_codec \<Rightarrow> string option \<Rightarrow> PeerConn \<Rightarrow> 'w \<Rightarrow>
    'w \<times> 'rq PeerRequest list \<times> bytes \<times> ((io_error + unit) + PeerConn)" where
  "peer_turn P C token c w = (case read_frame_deadline MAX_PEER_FRAME (peer_late (snd (co_origin c)) (co_frame c)) (co_rest c) of
     Inl e \<Rightarrow> (w, [], [], Inl (Inl e))
   | Inr (body, rest) \<Rightarrow> (case conn_frame P C token (peer_write (snd (co_origin c)) (co_frame c)) (co_authed c) body w of
       (w, served, written, Inl result) \<Rightarrow> (w, served, written, Inl result)
     | (w, served, written, Inr authed) \<Rightarrow>
         (w, served, written, Inr (c\<lparr>co_authed := authed, co_frame := Suc (co_frame c), co_rest := rest\<rparr>))))"

text \<open>The port with the node it serves and the remote calls served so far, each with the input of its connection.\<close>

record ('p, 'w, 'rq) PeerPort =
  pp_port :: "('p, PeerConn) Port"
  pp_world :: 'w
  pp_served :: "(peer_input \<times> 'rq PeerRequest) list"

fun peer_event :: "'p semaphore \<Rightarrow> ('w, 'rq, 'rp, 'e) peer_raft \<Rightarrow> ('rq, 'rp, 'e) peer_codec \<Rightarrow> string option \<Rightarrow>
    (peer_input, unit) PortEvent \<Rightarrow> ('p, 'w, 'rq) PeerPort \<Rightarrow> ('p, 'w, 'rq) PeerPort" where
  "peer_event M P C token (Incoming input) s = s\<lparr>pp_port := accept_conn M (peer_conn token input) (pp_port s)\<rparr>"
| "peer_event M P C token AcceptError s = s"
| "peer_event M P C token (Turn i _) s = (case map_of (po_open (pp_port s)) i of
     None \<Rightarrow> s
   | Some c \<Rightarrow> (case peer_turn P C token c (pp_world s) of
       (w, served, written, res) \<Rightarrow>
         \<lparr>pp_port = (case res of Inl _ \<Rightarrow> end_conn M i (pp_port s) | Inr c \<Rightarrow> set_conn i c (pp_port s)),
          pp_world = w, pp_served = pp_served s @ map (Pair (co_origin c)) served\<rparr>))"

definition serve_peer_authenticated :: "'p semaphore \<Rightarrow> ('w, 'rq, 'rp, 'e) peer_raft \<Rightarrow> ('rq, 'rp, 'e) peer_codec \<Rightarrow> string option \<Rightarrow>
    (peer_input, unit) PortEvent list \<Rightarrow> 'w \<Rightarrow> ('p, 'w, 'rq) PeerPort" where
  "serve_peer_authenticated M P C token events w =
     fold (peer_event M P C token) events \<lparr>pp_port = port_new M MAX_PEER_CONNS, pp_world = w, pp_served = []\<rparr>"

definition serve_peer :: "'p semaphore \<Rightarrow> ('w, 'rq, 'rp, 'e) peer_raft \<Rightarrow> ('rq, 'rp, 'e) peer_codec \<Rightarrow>
    (peer_input, unit) PortEvent list \<Rightarrow> 'w \<Rightarrow> ('p, 'w, 'rq) PeerPort" where
  "serve_peer M P C events w = serve_peer_authenticated M P C None events w"

section \<open>The client port\<close>

definition MAX_CLIENT_CONNS :: nat where "MAX_CLIENT_CONNS = 4096"

text \<open>
  A client connection reads frames until its loop ends; then its task is finishing: the writer drains,
  and the push session runs if the loop ended with a subscription. It keeps its permit until the
  turn in which that is over.
\<close>

type_synonym client_input = "bytes \<times> (nat \<Rightarrow> bool)"

datatype client_phase = Reading bool nat bytes | Finishing "SubscribeMsg option"

type_synonym client_conn = "client_input \<times> client_phase"

definition client_conn_new :: "string option \<Rightarrow> client_input \<Rightarrow> client_conn" where
  "client_conn_new token input = (input, Reading (token = None) 0 (fst input))"

text \<open>\<open>writer_gone\<close> tells whether handing a response to the writer fails. After an authentication the
  source ignores that.\<close>

definition client_turn :: "request_decoder \<Rightarrow> string option \<Rightarrow> client_input \<Rightarrow> bool \<Rightarrow> nat \<Rightarrow> bytes \<Rightarrow> bool \<Rightarrow> ClientAction list \<times> client_phase" where
  "client_turn decoder token input authed i s writer_gone = (case read_frame_deadline MAX_CLIENT_FRAME (snd input i) s of
     Inl _ \<Rightarrow> ([], Finishing None)
   | Inr (frame, rest) \<Rightarrow> (case client_frame decoder token authed frame of
       (acts, Inl sub) \<Rightarrow> (acts, Finishing sub)
     | (acts, Inr authed') \<Rightarrow>
         (acts, if writer_gone \<and> authed' = authed then Finishing None else Reading authed' (Suc i) rest)))"

record 'p ClientPort =
  cp_port :: "('p, client_conn) Port"
  cp_actions :: "(client_input \<times> ClientAction) list"
  cp_sessions :: "(client_input \<times> SubscribeMsg) list"

fun client_event :: "'p semaphore \<Rightarrow> request_decoder \<Rightarrow> string option \<Rightarrow> (client_input, bool) PortEvent \<Rightarrow> 'p ClientPort \<Rightarrow> 'p ClientPort" where
  "client_event M decoder token (Incoming input) s = s\<lparr>cp_port := accept_conn M (client_conn_new token input) (cp_port s)\<rparr>"
| "client_event M decoder token AcceptError s = s"
| "client_event M decoder token (Turn i writer_gone) s = (case map_of (po_open (cp_port s)) i of
     None \<Rightarrow> s
   | Some (input, Finishing _) \<Rightarrow> s\<lparr>cp_port := end_conn M i (cp_port s)\<rparr>
   | Some (input, Reading authed n rest) \<Rightarrow> (case client_turn decoder token input authed n rest writer_gone of
       (acts, phase) \<Rightarrow>
         \<lparr>cp_port = set_conn i (input, phase) (cp_port s), cp_actions = cp_actions s @ map (Pair input) acts,
          cp_sessions = cp_sessions s @ (case phase of Finishing (Some sub) \<Rightarrow> [(input, sub)] | _ \<Rightarrow> [])\<rparr>))"

definition serve_clients_authenticated :: "'p semaphore \<Rightarrow> request_decoder \<Rightarrow> string option \<Rightarrow> (client_input, bool) PortEvent list \<Rightarrow> 'p ClientPort" where
  "serve_clients_authenticated M decoder token events =
     fold (client_event M decoder token) events \<lparr>cp_port = port_new M MAX_CLIENT_CONNS, cp_actions = [], cp_sessions = []\<rparr>"

definition serve_clients :: "'p semaphore \<Rightarrow> request_decoder \<Rightarrow> (client_input, bool) PortEvent list \<Rightarrow> 'p ClientPort" where
  "serve_clients M decoder events = serve_clients_authenticated M decoder None events"

section \<open>The HTTP port\<close>

definition MAX_HTTP_CONNS :: nat where "MAX_HTTP_CONNS = 256"

text \<open>A connection is what its reads return; the turn of its task sees the node's metrics and queue of that moment.\<close>

type_synonym http_input = "(io_error + bytes) list"

record 'p HttpPort =
  hp_port :: "('p, http_input) Port"
  hp_answers :: "(io_error + string) list"

fun http_event :: "'p semaphore \<Rightarrow> bool \<Rightarrow> (http_input, RaftMetrics \<times> Queue) PortEvent \<Rightarrow> 'p HttpPort \<Rightarrow> 'p HttpPort" where
  "http_event M metrics_enabled (Incoming input) s = s\<lparr>hp_port := accept_conn M input (hp_port s)\<rparr>"
| "http_event M metrics_enabled AcceptError s = s"
| "http_event M metrics_enabled (Turn i (m, q)) s = (case map_of (po_open (hp_port s)) i of
     None \<Rightarrow> s
   | Some input \<Rightarrow> \<lparr>hp_port = end_conn M i (hp_port s), hp_answers = hp_answers s @ [http_handle m q metrics_enabled input]\<rparr>)"

definition serve_http :: "'p semaphore \<Rightarrow> bool \<Rightarrow> (http_input, RaftMetrics \<times> Queue) PortEvent list \<Rightarrow> 'p HttpPort" where
  "serve_http M metrics_enabled events = fold (http_event M metrics_enabled) events \<lparr>hp_port = port_new M MAX_HTTP_CONNS, hp_answers = []\<rparr>"

section \<open>Permits\<close>

text \<open>What one event may do to a port: nothing, accept a connection, move one on, or end one that is open.\<close>

definition port_moves :: "'p semaphore \<Rightarrow> ('p, 'c) Port \<Rightarrow> ('p, 'c) Port \<Rightarrow> bool" where
  "port_moves M p p' \<longleftrightarrow> p' = p \<or> (\<exists>c. p' = accept_conn M c p) \<or> (\<exists>i c. p' = set_conn i c p) \<or>
     (\<exists>i c. map_of (po_open p) i = Some c \<and> p' = end_conn M i p)"

definition permits_ok :: "('p \<Rightarrow> nat) \<Rightarrow> nat \<Rightarrow> ('p, 'c) Port \<Rightarrow> bool" where
  "permits_ok available cap p \<longleftrightarrow> available (po_permits p) + length (po_open p) = cap \<and> distinct (map fst (po_open p)) \<and>
     (\<forall>i \<in> fst ` set (po_open p). i < po_spawned p)"

lemma permits_new: "semaphore_spec M available \<Longrightarrow> permits_ok available cap (port_new M cap)"
  by (simp add: permits_ok_def port_new_def semaphore_spec_def)

lemma accept_conn_cases:
  assumes "semaphore_spec M available"
  obtains (refused) "available (po_permits p) = 0" "accept_conn M c p = p"
  | (accepted) permits where "available (po_permits p) = Suc (available permits)"
      "accept_conn M c p = \<lparr>po_permits = permits, po_open = po_open p @ [(po_spawned p, c)], po_spawned = Suc (po_spawned p)\<rparr>"
proof (cases "try_acquire_owned M (po_permits p)")
  case None
  moreover have "case try_acquire_owned M (po_permits p) of None \<Rightarrow> available (po_permits p) = 0 | Some q \<Rightarrow> available (po_permits p) = Suc (available q)"
    using assms by (simp add: semaphore_spec_def)
  ultimately show thesis by (intro refused) (simp_all add: accept_conn_def)
next
  case (Some permits)
  moreover have "case try_acquire_owned M (po_permits p) of None \<Rightarrow> available (po_permits p) = 0 | Some q \<Rightarrow> available (po_permits p) = Suc (available q)"
    using assms by (simp add: semaphore_spec_def)
  ultimately show thesis by (intro accepted [of permits]) (simp_all add: accept_conn_def)
qed

lemma permits_accept:
  assumes "semaphore_spec M available" and "permits_ok available cap p"
  shows "permits_ok available cap (accept_conn M c p)"
    and "length (po_open (accept_conn M c p)) = min cap (Suc (length (po_open p)))"
proof -
  show "permits_ok available cap (accept_conn M c p)" using assms(2)
    by (cases rule: accept_conn_cases [OF assms(1), of p c]) (auto simp: permits_ok_def less_Suc_eq)
  show "length (po_open (accept_conn M c p)) = min cap (Suc (length (po_open p)))" using assms(2)
    by (cases rule: accept_conn_cases [OF assms(1), of p c]) (auto simp: permits_ok_def)
qed

lemma keys_set_conn: "map fst (po_open (set_conn i c p)) = map fst (po_open p)"
  by (auto simp: set_conn_def)

lemma permits_set:
  assumes "permits_ok available cap p"
  shows "permits_ok available cap (set_conn i c p)"
proof -
  have "fst ` set (po_open (set_conn i c p)) = fst ` set (po_open p)" by (metis keys_set_conn list.set_map)
  moreover have "length (po_open (set_conn i c p)) = length (po_open p)" by (metis keys_set_conn length_map)
  moreover have "po_permits (set_conn i c p) = po_permits p" "po_spawned (set_conn i c p) = po_spawned p" by (simp_all add: set_conn_def)
  ultimately show ?thesis using assms by (simp add: permits_ok_def keys_set_conn)
qed

lemma length_without_key:
  "distinct (map fst xs) \<Longrightarrow> map_of xs i = Some c \<Longrightarrow> Suc (length (filter (\<lambda>(j, _). j \<noteq> i) xs)) = length xs"
proof (induction xs)
  case (Cons x xs)
  show ?case
  proof (cases "fst x = i")
    case True
    then have "i \<notin> fst ` set xs" using Cons.prems(1) by simp
    then have "filter (\<lambda>(j, _). j \<noteq> i) xs = xs" by (auto simp: filter_id_conv image_iff)
    with True show ?thesis by (cases x) simp
  qed (use Cons in \<open>auto simp: case_prod_beta\<close>)
qed simp

lemma permits_end:
  assumes "semaphore_spec M available" and "permits_ok available cap p" and "map_of (po_open p) i = Some c"
  shows "permits_ok available cap (end_conn M i p)"
proof -
  have "Suc (length (filter (\<lambda>(j, _). j \<noteq> i) (po_open p))) = length (po_open p)"
    using assms(2,3) by (intro length_without_key) (simp_all add: permits_ok_def)
  moreover have "distinct (map fst (filter (\<lambda>(j, _). j \<noteq> i) (po_open p)))"
    using assms(2) by (auto simp: permits_ok_def distinct_map inj_on_def)
  ultimately show ?thesis using assms(1,2) by (auto simp: permits_ok_def end_conn_def semaphore_spec_def)
qed

lemma permits_moves:
  "semaphore_spec M available \<Longrightarrow> permits_ok available cap p \<Longrightarrow> port_moves M p p' \<Longrightarrow> permits_ok available cap p'"
  by (auto simp: port_moves_def permits_accept(1) permits_set permits_end)

text \<open>The contract of the accept loops, and what every loop with it guarantees.\<close>

locale connection_port =
  fixes sem :: "'p semaphore" and event :: "'e \<Rightarrow> 's \<Rightarrow> 's" and port_of :: "'s \<Rightarrow> ('p, 'c) Port"
  assumes event_moves: "port_moves sem (port_of s) (port_of (event e s))"
begin

lemma run_permits:
  "semaphore_spec sem available \<Longrightarrow> permits_ok available cap (port_of s) \<Longrightarrow> permits_ok available cap (port_of (fold event es s))"
  by (induction es arbitrary: s) (auto intro: permits_moves [OF _ _ event_moves])

lemma run_bounded:
  assumes "semaphore_spec sem available" and "port_of s = port_new sem cap"
  shows "permits_ok available cap (port_of (fold event es s)) \<and> length (po_open (port_of (fold event es s))) \<le> cap"
proof -
  have "permits_ok available cap (port_of (fold event es s))"
    using assms by (intro run_permits) (simp_all add: permits_new)
  then show ?thesis by (auto simp: permits_ok_def)
qed

end

lemma port_moves_cases:
  "port_moves M p p" "port_moves M p (accept_conn M c p)" "port_moves M p (set_conn i c p)"
  "map_of (po_open p) i = Some c \<Longrightarrow> port_moves M p (end_conn M i p)"
  by (auto simp: port_moves_def)

interpretation peers: connection_port M "peer_event M P C token" pp_port for M P C token
proof
  show "port_moves M (pp_port s) (pp_port (peer_event M P C token e s))" for e s
    by (cases e) (auto simp: port_moves_cases split: option.splits prod.splits sum.splits)
qed

interpretation clients: connection_port M "client_event M decoder token" cp_port for M decoder token
proof
  show "port_moves M (cp_port s) (cp_port (client_event M decoder token e s))" for e s
    by (cases e) (auto simp: port_moves_cases split: option.splits prod.splits client_phase.splits)
qed

interpretation scrapes: connection_port M "http_event M metrics_enabled" hp_port for M metrics_enabled
proof
  show "port_moves M (hp_port s) (hp_port (http_event M metrics_enabled e s))" for e s
    by (cases "(M, metrics_enabled, e, s)" rule: http_event.cases) (auto simp: port_moves_cases split: option.splits)
qed

section \<open>Authentication across interleaved connections\<close>

text \<open>A connection alone on its port takes the turns of \<^verbatim>\<open>handle_conn\<close>.\<close>

lemma conn_loop_turn:
  "conn_loop P C token (snd (co_origin c)) (co_frame c) (co_authed c) (co_rest c) w =
     (case peer_turn P C token c w of
        (w, served, written, Inl result) \<Rightarrow> (w, served, written, result)
      | (w, served, written, Inr c) \<Rightarrow> (case conn_loop P C token (snd (co_origin c)) (co_frame c) (co_authed c) (co_rest c) w of
          (w, served', written', result) \<Rightarrow> (w, served @ served', written @ written', result)))"
  by (subst conn_loop.simps) (simp add: peer_turn_def split: sum.splits prod.splits)

definition peer_presents :: "('rq, 'rp, 'e) peer_codec \<Rightarrow> string \<Rightarrow> peer_input \<Rightarrow> bool" where
  "peer_presents C token input \<longleftrightarrow> (\<exists>body rest.
     read_frame_deadline MAX_PEER_FRAME (peer_late (snd input) 0) (fst input) = Inr (body, rest) \<and> dec_req C body = Inr (PeerAuth token))"

definition peer_conn_ok :: "('rq, 'rp, 'e) peer_codec \<Rightarrow> string \<Rightarrow> PeerConn \<Rightarrow> bool" where
  "peer_conn_ok C token c \<longleftrightarrow>
     (if co_authed c then peer_presents C token (co_origin c) else co_frame c = 0 \<and> co_rest c = fst (co_origin c))"

lemma conn_frame_stays: "conn_frame P C token failure True body w = (w', served, written, Inr authed) \<Longrightarrow> authed"
  by (auto simp: conn_frame_def auth_frame_def rpc_frame_def Let_def split: sum.splits PeerRequest.splits prod.splits if_splits)

lemma peer_turn_gate:
  assumes "peer_turn P C (Some token) c w = (w', served, written, res)" and "peer_conn_ok C token c"
  shows "(served \<noteq> [] \<or> w' \<noteq> w \<longrightarrow> peer_presents C token (co_origin c)) \<and>
    (\<forall>c'. res = Inr c' \<longrightarrow> co_origin c' = co_origin c \<and> peer_conn_ok C token c')"
proof (cases "read_frame_deadline MAX_PEER_FRAME (peer_late (snd (co_origin c)) (co_frame c)) (co_rest c)")
  case (Inl e)
  then show ?thesis using assms(1) by (auto simp: peer_turn_def)
next
  case (Inr br)
  obtain body rest where br: "br = (body, rest)" by fastforce
  obtain res1 where f: "conn_frame P C (Some token) (peer_write (snd (co_origin c)) (co_frame c)) (co_authed c) body w = (w', served, written, res1)"
      and res: "res = (case res1 of Inl result \<Rightarrow> Inl result | Inr authed \<Rightarrow> Inr (c\<lparr>co_authed := authed, co_frame := Suc (co_frame c), co_rest := rest\<rparr>))"
    using assms(1) Inr br by (auto simp: peer_turn_def split: prod.splits sum.splits)
  show ?thesis
  proof (cases "co_authed c")
    case True
    then show ?thesis using assms(2) f res
      by (auto simp: peer_conn_ok_def split: sum.splits dest: conn_frame_stays)
  next
    case False
    then have False_eq: "co_authed c = False" by simp
    note un = conn_frame_unauthenticated [OF f [unfolded False_eq]]
    have "dec_req C body = Inr (PeerAuth token) \<Longrightarrow> peer_presents C token (co_origin c)"
      using assms(2) False Inr br by (auto simp: peer_conn_ok_def peer_presents_def)
    with un res show ?thesis by (auto simp: peer_conn_ok_def split: sum.splits)
  qed
qed

definition peer_port_ok :: "('rq, 'rp, 'e) peer_codec \<Rightarrow> string \<Rightarrow> peer_input set \<Rightarrow> 'w \<Rightarrow> ('p, 'w, 'rq) PeerPort \<Rightarrow> bool" where
  "peer_port_ok C token inputs w s \<longleftrightarrow>
     (\<forall>(i, c) \<in> set (po_open (pp_port s)). co_origin c \<in> inputs \<and> peer_conn_ok C token c) \<and>
     (\<forall>(input, req) \<in> set (pp_served s). input \<in> inputs \<and> peer_presents C token input) \<and>
     (pp_world s \<noteq> w \<longrightarrow> (\<exists>input \<in> inputs. peer_presents C token input))"

lemma open_accept: "set (po_open (accept_conn M c p)) \<subseteq> insert (po_spawned p, c) (set (po_open p))"
  by (auto simp: accept_conn_def split: option.splits)

lemma open_set: "set (po_open (set_conn i c p)) \<subseteq> insert (i, c) (set (po_open p))"
  by (auto simp: set_conn_def split: if_splits)

lemma open_end: "set (po_open (end_conn M i p)) \<subseteq> set (po_open p)"
  by (auto simp: end_conn_def)

lemma peer_event_ok:
  assumes "peer_port_ok C token inputs w s" and "\<And>input. e = Incoming input \<Longrightarrow> input \<in> inputs"
  shows "peer_port_ok C token inputs w (peer_event M P C (Some token) e s)"
proof (cases e)
  case (Incoming input)
  moreover have "peer_conn_ok C token (peer_conn (Some token) input)" "co_origin (peer_conn (Some token) input) = input"
    by (simp_all add: peer_conn_ok_def peer_conn_def)
  ultimately show ?thesis using assms open_accept [of M "peer_conn (Some token) input" "pp_port s"]
    by (fastforce simp: peer_port_ok_def)
next
  case AcceptError
  then show ?thesis using assms(1) by simp
next
  case (Turn i u)
  show ?thesis
  proof (cases "map_of (po_open (pp_port s)) i")
    case None
    then show ?thesis using assms(1) Turn by simp
  next
    case (Some c)
    then have c: "co_origin c \<in> inputs" "peer_conn_ok C token c"
      using assms(1) map_of_SomeD [OF Some] by (auto simp: peer_port_ok_def)
    obtain w' served written res where t: "peer_turn P C (Some token) c (pp_world s) = (w', served, written, res)" by (metis prod_cases4)
    note gate = peer_turn_gate [OF t c(2)]
    define port where "port = (case res of Inl _ \<Rightarrow> end_conn M i (pp_port s) | Inr c \<Rightarrow> set_conn i c (pp_port s))"
    have "co_origin d \<in> inputs \<and> peer_conn_ok C token d" if "(j, d) \<in> set (po_open port)" for j d
    proof -
      have "(j, d) \<in> set (po_open (pp_port s)) \<or> res = Inr d"
        using that open_end [of M i "pp_port s"] open_set [of i _ "pp_port s"] by (cases res) (fastforce simp: port_def)+
      then show ?thesis using assms(1) gate c(1) by (auto simp: peer_port_ok_def)
    qed
    moreover have "peer_event M P C (Some token) e s = \<lparr>pp_port = port, pp_world = w', pp_served = pp_served s @ map (Pair (co_origin c)) served\<rparr>"
      using Turn Some t by (simp add: port_def)
    ultimately show ?thesis using assms(1) gate c(1) by (cases "w' = pp_world s") (auto simp: peer_port_ok_def)
  qed
qed

lemma peer_run_ok:
  "peer_port_ok C token inputs w s \<Longrightarrow> (\<forall>input. Incoming input \<in> set events \<longrightarrow> input \<in> inputs) \<Longrightarrow>
   peer_port_ok C token inputs w (fold (peer_event M P C (Some token)) events s)"
proof (induction events arbitrary: s)
  case (Cons e events)
  have "peer_port_ok C token inputs w (peer_event M P C (Some token) e s)"
    using Cons.prems by (intro peer_event_ok) auto
  then show ?case using Cons.IH Cons.prems(2) by simp
qed simp

lemma peer_served_ok:
  "peer_port_ok C token {input. Incoming input \<in> set events} w (serve_peer_authenticated M P C (Some token) events w)"
  unfolding serve_peer_authenticated_def by (rule peer_run_ok) (simp_all add: peer_port_ok_def port_new_def)

text \<open>(C35) The peer port under any interleaving of its connections: at most 256 are open, a new one is refused
  exactly when 256 are; and with a token, every remote call that was served came from a connection whose own first
  frame was an authentication with exactly that token, and without such a connection the node is unchanged.\<close>

theorem peer_port_guarded:
  assumes "semaphore_spec M available" and "s = serve_peer_authenticated M P C (Some token) events w"
  shows "length (po_open (pp_port s)) \<le> MAX_PEER_CONNS \<and>
    length (po_open (pp_port (peer_event M P C (Some token) (Incoming input) s))) = min MAX_PEER_CONNS (Suc (length (po_open (pp_port s)))) \<and>
    (\<forall>(input, req) \<in> set (pp_served s). Incoming input \<in> set events \<and> peer_presents C token input) \<and>
    (pp_world s \<noteq> w \<longrightarrow> (\<exists>input. Incoming input \<in> set events \<and> peer_presents C token input))"
proof -
  have s: "s = fold (peer_event M P C (Some token)) events \<lparr>pp_port = port_new M MAX_PEER_CONNS, pp_world = w, pp_served = []\<rparr>"
    by (simp add: assms(2) serve_peer_authenticated_def)
  have b: "permits_ok available MAX_PEER_CONNS (pp_port s) \<and> length (po_open (pp_port s)) \<le> MAX_PEER_CONNS"
    unfolding s by (rule peers.run_bounded [OF assms(1)]) simp
  have "peer_port_ok C token {input. Incoming input \<in> set events} w s"
    unfolding assms(2) by (rule peer_served_ok)
  then show ?thesis using b permits_accept(2) [OF assms(1), of MAX_PEER_CONNS "pp_port s"]
    by (simp add: peer_port_ok_def)
qed

text \<open>A semaphore that is its number of free permits.\<close>

definition count_semaphore :: "nat semaphore" where
  "count_semaphore = \<lparr>sem_new = (\<lambda>n. n), try_acquire_owned = (\<lambda>n. case n of 0 \<Rightarrow> None | Suc k \<Rightarrow> Some k), drop_permit = Suc\<rparr>"

lemma count_semaphore_ok: "semaphore_spec count_semaphore (\<lambda>n. n)"
  by (auto simp: semaphore_spec_def count_semaphore_def split: nat.splits)

definition sample_peer_input :: peer_input where
  "sample_peer_input = (write_frame (1 # as_bytes ''s'') @ write_frame [2], calm_env)"

lemma sample_peer_frames:
  "conn_frame echo_raft sample_peer_codec (Some ''s'') None False (1 # as_bytes ''s'') 0 = (0, [], write_frame [1], Inr True)"
  "conn_frame echo_raft sample_peer_codec (Some ''s'') None True [2] 0 = (1, [PeerAppendEntries ()], write_frame [2], Inr True)"
  by (simp_all add: conn_frame_def auth_frame_def rpc_frame_def send_resp_def sample_peer_codec_def echo_raft_def as_bytes_def secret_eq_def Let_def)

lemma sample_peer_run:
  "pp_served (serve_peer_authenticated count_semaphore echo_raft sample_peer_codec (Some ''s'')
     [Incoming sample_peer_input, AcceptError, Turn 0 (), Turn 0 ()] 0) = [(sample_peer_input, PeerAppendEntries ())]"
proof -
  have a: "length (1 # as_bytes ''s'') \<le> MAX_PEER_FRAME" and b: "length [2 :: u8] \<le> MAX_PEER_FRAME"
    by (simp_all add: as_bytes_def MAX_PEER_FRAME_def)
  note read = read_deadline_frame [OF a] read_deadline_frame [OF b, of "[]", simplified]
  show ?thesis
    by (simp add: serve_peer_authenticated_def port_new_def accept_conn_def count_semaphore_def MAX_PEER_CONNS_def peer_conn_def
        peer_turn_def set_conn_def sample_peer_input_def calm_env_def read sample_peer_frames)
qed

theorem peer_port_guarded_witness: "peer_presents sample_peer_codec ''s'' sample_peer_input"
  using peer_port_guarded [OF count_semaphore_ok refl, of echo_raft sample_peer_codec "''s''"
      "[Incoming sample_peer_input, AcceptError, Turn 0 (), Turn 0 ()]" 0 sample_peer_input]
  by (simp only: sample_peer_run) simp

definition client_presents :: "request_decoder \<Rightarrow> string \<Rightarrow> client_input \<Rightarrow> bool" where
  "client_presents decoder token input \<longleftrightarrow> (\<exists>bad good rest. read_frames MAX_CLIENT_FRAME (snd input) 0 (fst input) = bad @ good # rest \<and>
     (\<forall>b \<in> set bad. \<exists>e. decoder b = Inl e) \<and> decoder good = Inr (Some (AuthReq token)))"

fun client_conn_ok :: "request_decoder \<Rightarrow> string \<Rightarrow> client_conn \<Rightarrow> bool" where
  "client_conn_ok decoder token (input, Reading True n rest) = client_presents decoder token input"
| "client_conn_ok decoder token (input, Reading False n rest) = (\<exists>bad. (\<forall>b \<in> set bad. \<exists>e. decoder b = Inl e) \<and>
     read_frames MAX_CLIENT_FRAME (snd input) 0 (fst input) = bad @ read_frames MAX_CLIENT_FRAME (snd input) n rest)"
| "client_conn_ok decoder token (input, Finishing sub) = (sub \<noteq> None \<longrightarrow> client_presents decoder token input)"

lemma client_frame_stays: "client_frame decoder token True frame = (acts, Inr authed) \<Longrightarrow> authed"
  by (auto simp: client_frame_def split: sum.splits option.splits Request.splits)

lemma client_turn_gate:
  assumes "client_turn decoder (Some token) input authed n rest gone = (acts, phase)"
    and "client_conn_ok decoder token (input, Reading authed n rest)"
  shows "((\<exists>req. Serve req \<in> set acts) \<longrightarrow> client_presents decoder token input) \<and> client_conn_ok decoder token (input, phase)"
proof (cases "read_frame_deadline MAX_CLIENT_FRAME (snd input n) rest")
  case (Inl e)
  then show ?thesis using assms(1) by (auto simp: client_turn_def)
next
  case (Inr br)
  obtain frame rest' where br: "br = (frame, rest')" by fastforce
  obtain res where f: "client_frame decoder (Some token) authed frame = (acts, res)"
      and phase: "phase = (case res of Inl sub \<Rightarrow> Finishing sub
        | Inr authed' \<Rightarrow> if gone \<and> authed' = authed then Finishing None else Reading authed' (Suc n) rest')"
    using assms(1) Inr br by (auto simp: client_turn_def split: prod.splits sum.splits)
  have frames: "read_frames MAX_CLIENT_FRAME (snd input) n rest = frame # read_frames MAX_CLIENT_FRAME (snd input) (Suc n) rest'"
    by (subst read_frames.simps) (simp add: Inr br)
  show ?thesis
  proof (cases authed)
    case True
    then have "client_presents decoder token input" using assms(2) by simp
    with True f phase show ?thesis by (auto split: sum.splits dest: client_frame_stays)
  next
    case False
    then obtain bad where bad: "\<forall>b \<in> set bad. \<exists>e. decoder b = Inl e"
        "read_frames MAX_CLIENT_FRAME (snd input) 0 (fst input) = bad @ frame # read_frames MAX_CLIENT_FRAME (snd input) (Suc n) rest'"
      using assms(2) frames by auto
    have "client_frame decoder (Some token) False frame = (acts, res)" using f False by simp
    note un = client_frame_unauthenticated [OF this]
    show ?thesis
    proof (cases res)
      case (Inl sub)
      then have "sub = None" using un by (cases sub) simp_all
      with Inl un phase show ?thesis by simp
    next
      case res: (Inr authed')
      show ?thesis
      proof (cases authed')
        case True
        then have "client_presents decoder token input" using un res bad unfolding client_presents_def by blast
        with True res un phase \<open>\<not> authed\<close> show ?thesis by simp
      next
        case False
        then obtain e where "decoder frame = Inl e" using un res by blast
        with bad have "\<exists>bad. (\<forall>b \<in> set bad. \<exists>e. decoder b = Inl e) \<and>
            read_frames MAX_CLIENT_FRAME (snd input) 0 (fst input) = bad @ read_frames MAX_CLIENT_FRAME (snd input) (Suc n) rest'"
          by (intro exI [of _ "bad @ [frame]"]) auto
        with False res un phase \<open>\<not> authed\<close> show ?thesis by simp
      qed
    qed
  qed
qed

definition client_port_ok :: "request_decoder \<Rightarrow> string \<Rightarrow> client_input set \<Rightarrow> 'p ClientPort \<Rightarrow> bool" where
  "client_port_ok decoder token inputs s \<longleftrightarrow>
     (\<forall>(i, c) \<in> set (po_open (cp_port s)). fst c \<in> inputs \<and> client_conn_ok decoder token c) \<and>
     (\<forall>(input, act) \<in> set (cp_actions s). \<forall>req. act = Serve req \<longrightarrow> input \<in> inputs \<and> client_presents decoder token input) \<and>
     (\<forall>(input, sub) \<in> set (cp_sessions s). input \<in> inputs \<and> client_presents decoder token input)"

lemma client_event_ok:
  assumes "client_port_ok decoder token inputs s" and "\<And>input. e = Incoming input \<Longrightarrow> input \<in> inputs"
  shows "client_port_ok decoder token inputs (client_event M decoder (Some token) e s)"
proof (cases e)
  case (Incoming input)
  have fresh: "client_conn_ok decoder token (client_conn_new (Some token) input)"
    by (auto simp: client_conn_new_def intro: exI [of _ "[]"])
  have "fst d \<in> inputs \<and> client_conn_ok decoder token d"
    if "(j, d) \<in> set (po_open (accept_conn M (client_conn_new (Some token) input) (cp_port s)))" for j d
  proof -
    have "d = client_conn_new (Some token) input \<or> (j, d) \<in> set (po_open (cp_port s))" using subsetD [OF open_accept that] by blast
    then show ?thesis
    proof
      assume "d = client_conn_new (Some token) input"
      then show ?thesis using fresh assms(2) [OF Incoming]
        by (simp add: client_conn_new_def)
    qed (use assms(1) in \<open>auto simp: client_port_ok_def simp del: client_conn_ok.simps\<close>)
  qed
  then show ?thesis using assms(1) Incoming by (auto simp: client_port_ok_def simp del: client_conn_ok.simps)
next
  case AcceptError
  then show ?thesis using assms(1) by simp
next
  case (Turn i gone)
  show ?thesis
  proof (cases "map_of (po_open (cp_port s)) i")
    case None
    then show ?thesis using assms(1) Turn by simp
  next
    case (Some c)
    then have c: "fst c \<in> inputs" "client_conn_ok decoder token c"
      using assms(1) map_of_SomeD [OF Some] by (auto simp: client_port_ok_def)
    obtain input where fin: "c = (input, snd c)" by (cases c) simp
    show ?thesis
    proof (cases "snd c")
      case (Finishing sub)
      then show ?thesis using assms(1) Turn Some fin open_end [of M i "cp_port s"]
        by (cases c) (auto simp: client_port_ok_def simp del: client_conn_ok.simps)
    next
      case (Reading authed n rest)
      obtain acts phase where t: "client_turn decoder (Some token) input authed n rest gone = (acts, phase)" by fastforce
      have "client_conn_ok decoder token (input, Reading authed n rest)" using c(2) fin Reading by simp
      note gate = client_turn_gate [OF t this]
      have "client_event M decoder (Some token) e s =
          \<lparr>cp_port = set_conn i (input, phase) (cp_port s), cp_actions = cp_actions s @ map (Pair input) acts,
           cp_sessions = cp_sessions s @ (case phase of Finishing (Some sub) \<Rightarrow> [(input, sub)] | _ \<Rightarrow> [])\<rparr>"
        using Turn Some fin Reading t by (cases c) simp
      moreover have "input \<in> inputs" using c(1) fin by (cases c) simp
      moreover have "fst d \<in> inputs \<and> client_conn_ok decoder token d" if "(j, d) \<in> set (po_open (set_conn i (input, phase) (cp_port s)))" for j d
      proof -
        have "d = (input, phase) \<or> (j, d) \<in> set (po_open (cp_port s))" using subsetD [OF open_set that] by blast
        then show ?thesis using assms(1) gate \<open>input \<in> inputs\<close> by (auto simp: client_port_ok_def simp del: client_conn_ok.simps)
      qed
      moreover have "client_presents decoder token input" if "phase = Finishing (Some sub)" for sub using gate that by simp
      ultimately show ?thesis using assms(1) gate
        by (auto simp: client_port_ok_def simp del: client_conn_ok.simps client_event.simps split: client_phase.splits option.splits)
    qed
  qed
qed

lemma client_run_ok:
  "client_port_ok decoder token inputs s \<Longrightarrow> (\<forall>input. Incoming input \<in> set events \<longrightarrow> input \<in> inputs) \<Longrightarrow>
   client_port_ok decoder token inputs (fold (client_event M decoder (Some token)) events s)"
proof (induction events arbitrary: s)
  case (Cons e events)
  have "client_port_ok decoder token inputs (client_event M decoder (Some token) e s)"
    using Cons.prems by (intro client_event_ok) auto
  then show ?case using Cons.IH Cons.prems(2) by simp
qed simp

lemma client_served_ok:
  "client_port_ok decoder token {input. Incoming input \<in> set events} (serve_clients_authenticated M decoder (Some token) events)"
  unfolding serve_clients_authenticated_def by (rule client_run_ok) (simp_all add: client_port_ok_def port_new_def)

text \<open>(C34) The client port under any interleaving of its connections: at most 4096 are open, a new one is refused
  exactly when 4096 are; and with a token, every request handed to a handler and every subscription opened came from a
  connection whose own first decodable frame was an authentication with exactly that token.\<close>

theorem client_port_guarded:
  assumes "semaphore_spec M available" and "s = serve_clients_authenticated M decoder (Some token) events"
  shows "length (po_open (cp_port s)) \<le> MAX_CLIENT_CONNS \<and>
    length (po_open (cp_port (client_event M decoder (Some token) (Incoming input) s))) = min MAX_CLIENT_CONNS (Suc (length (po_open (cp_port s)))) \<and>
    (\<forall>input req. (input, Serve req) \<in> set (cp_actions s) \<longrightarrow> Incoming input \<in> set events \<and> client_presents decoder token input) \<and>
    (\<forall>(input, sub) \<in> set (cp_sessions s). Incoming input \<in> set events \<and> client_presents decoder token input)"
proof -
  have s: "s = fold (client_event M decoder (Some token)) events \<lparr>cp_port = port_new M MAX_CLIENT_CONNS, cp_actions = [], cp_sessions = []\<rparr>"
    by (simp add: assms(2) serve_clients_authenticated_def)
  have b: "permits_ok available MAX_CLIENT_CONNS (cp_port s) \<and> length (po_open (cp_port s)) \<le> MAX_CLIENT_CONNS"
    unfolding s by (rule clients.run_bounded [OF assms(1)]) simp
  have "client_port_ok decoder token {input. Incoming input \<in> set events} s"
    unfolding assms(2) by (rule client_served_ok)
  then show ?thesis using b permits_accept(2) [OF assms(1), of MAX_CLIENT_CONNS "cp_port s"]
    by (auto simp: client_port_ok_def)
qed

definition sample_client_input :: client_input where
  "sample_client_input = (concat (map write_frame [[9], [1], [2]]), \<lambda>_. False)"

lemma read_client_frame:
  "length b \<le> MAX_CLIENT_FRAME \<Longrightarrow> read_frame_deadline MAX_CLIENT_FRAME False (write_frame b @ rest) = Inr (b, rest)"
  using read_len_frame [of b MAX_CLIENT_FRAME rest] by (simp add: read_frame_deadline_def read_body_eq read_exact_def MAX_CLIENT_FRAME_def)

lemma sample_client_run:
  "(sample_client_input, Serve (Some StatsReq)) \<in> set (cp_actions (serve_clients_authenticated count_semaphore sample_decoder (Some ''secret'')
     [Incoming sample_client_input, Turn 0 False, Turn 0 False, Turn 0 False, Turn 0 False]))"
proof -
  have len: "length [b :: u8] \<le> MAX_CLIENT_FRAME" for b by (simp add: MAX_CLIENT_FRAME_def)
  have frames: "client_frame sample_decoder (Some ''secret'') False [9] = ([Reply (resp_error ''bad_request'' ''invalid tag'')], Inr False)"
    "client_frame sample_decoder (Some ''secret'') False [1] = ([Reply OkResp], Inr True)"
    "client_frame sample_decoder (Some ''secret'') True [2] = ([Serve (Some StatsReq)], Inr True)"
    by (simp_all add: client_frame_def sample_decoder_def secret_eq_def as_bytes_def)
  have stop: "read_frame_deadline MAX_CLIENT_FRAME False [] = Inl UnexpectedEof"
    by (simp add: read_frame_deadline_def read_len_def read_exact_def)
  show ?thesis
    by (simp add: serve_clients_authenticated_def port_new_def accept_conn_def count_semaphore_def MAX_CLIENT_CONNS_def client_conn_new_def
        client_turn_def set_conn_def sample_client_input_def read_client_frame [OF len] read_client_frame [OF len, of _ "[]", simplified] frames stop)
qed

theorem client_port_guarded_witness: "client_presents sample_decoder ''secret'' sample_client_input"
  using client_port_guarded [OF count_semaphore_ok refl, of sample_decoder "''secret''"
      "[Incoming sample_client_input, Turn 0 False, Turn 0 False, Turn 0 False, Turn 0 False]" sample_client_input] sample_client_run
  by blast

text \<open>The HTTP port: at most 256 connections, and every answer is that of the handler to a connection that came in.\<close>

lemma http_port_bounded:
  assumes "semaphore_spec M available" and "s = serve_http M metrics_enabled events"
  shows "length (po_open (hp_port s)) \<le> MAX_HTTP_CONNS \<and>
    length (po_open (hp_port (http_event M metrics_enabled (Incoming input) s))) = min MAX_HTTP_CONNS (Suc (length (po_open (hp_port s))))"
proof -
  have s: "s = fold (http_event M metrics_enabled) events \<lparr>hp_port = port_new M MAX_HTTP_CONNS, hp_answers = []\<rparr>"
    by (simp add: assms(2) serve_http_def)
  have "permits_ok available MAX_HTTP_CONNS (hp_port s) \<and> length (po_open (hp_port s)) \<le> MAX_HTTP_CONNS"
    unfolding s by (rule scrapes.run_bounded [OF assms(1)]) simp
  then show ?thesis using permits_accept(2) [OF assms(1), of MAX_HTTP_CONNS "hp_port s"] by simp
qed

lemma http_answers_handled:
  assumes "\<forall>(i, input) \<in> set (po_open (hp_port s)). input \<in> inputs" and "\<forall>input. Incoming input \<in> set events \<longrightarrow> input \<in> inputs"
    and "a \<in> set (hp_answers (fold (http_event M metrics_enabled) events s))"
  shows "a \<in> set (hp_answers s) \<or> (\<exists>input \<in> inputs. \<exists>m q. a = http_handle m q metrics_enabled input)"
  using assms
proof (induction events arbitrary: s)
  case (Cons e events)
  let ?s = "http_event M metrics_enabled e s"
  have "\<forall>(i, input) \<in> set (po_open (hp_port ?s)). input \<in> inputs"
    using Cons.prems(1,2) open_accept [of M _ "hp_port s"] open_end [of M _ "hp_port s"]
    by (cases "(M, metrics_enabled, e, s)" rule: http_event.cases) (fastforce split: option.splits)+
  from Cons.IH [OF this] Cons.prems(2,3)
  have "a \<in> set (hp_answers ?s) \<or> (\<exists>input \<in> inputs. \<exists>m q. a = http_handle m q metrics_enabled input)" by simp
  moreover have "a \<in> set (hp_answers ?s) \<Longrightarrow> a \<in> set (hp_answers s) \<or> (\<exists>input \<in> inputs. \<exists>m q. a = http_handle m q metrics_enabled input)"
    using Cons.prems(1) by (cases "(M, metrics_enabled, e, s)" rule: http_event.cases) (fastforce split: option.splits dest!: map_of_SomeD)+
  ultimately show ?case by blast
qed simp

end
