(* ===== verification/Startup.thy ===== *)
theory Startup
  imports Recovery Accept_Loops
begin

text \<open>
  Building and starting a node: \<^verbatim>\<open>build_raft\<close> with its variants and the cluster helpers of
  \<^verbatim>\<open>engine/mod.rs\<close>, and \<^verbatim>\<open>main\<close> of \<^verbatim>\<open>hermesmqd\<close>, which opens the database, builds the node and starts
  the three ports. openraft is the parameter \<open>openraft\<close>; the file system, the sockets and the signal
  are the parameter \<open>os\<close>; the command line clap has parsed is the argument of \<open>main\<close>. Errors are their
  texts.
\<close>

section \<open>Building a Raft node\<close>

text \<open>The fields of openraft's configuration that the source sets; \<open>cf_rest\<close> stands for all others.\<close>

record ('pol, 'd) Config =
  heartbeat_interval :: u64
  election_timeout_min :: u64
  election_timeout_max :: u64
  max_payload_entries :: u64
  snapshot_policy :: 'pol
  max_in_snapshot_log_to_keep :: u64
  install_snapshot_timeout :: u64
  snapshot_max_chunk_size :: u64
  cf_rest :: 'd

text \<open>openraft: the default configuration, the policy that counts logs, the constructor and the calls of a handle.\<close>

record ('s, 'm, 'pol, 'd, 'r) openraft =
  config_default :: "('pol, 'd) Config"
  LogsSinceLast :: "u64 \<Rightarrow> 'pol"
  Raft_new :: "NodeId \<Rightarrow> ('pol, 'd) Config \<Rightarrow> PeerNetwork \<Rightarrow> 's LogStore \<Rightarrow> ('s, 'm) StateMachineStore \<Rightarrow> string + 'r"
  or_initialize :: "(NodeId, string) btree \<Rightarrow> 'r \<Rightarrow> 'r \<times> (string + unit)"
  or_add_learner :: "NodeId \<Rightarrow> string \<Rightarrow> bool \<Rightarrow> 'r \<Rightarrow> 'r \<times> (string + unit)"
  or_change_membership :: "NodeId set \<Rightarrow> bool \<Rightarrow> 'r \<Rightarrow> 'r \<times> (string + unit)"
  or_shutdown :: "'r \<Rightarrow> string + unit"

text \<open>What the stores need of postcard, of openraft's errors and of an empty membership.\<close>

record ('s, 'm) engine_params =
  ep_storage :: "'s Storage"
  ep_codecs :: "'m sm_codecs"
  ep_committed :: "LogId option codec"
  ep_show :: "StorageError \<Rightarrow> string"
  ep_members :: 'm

definition INSTALL_SNAPSHOT_TIMEOUT_MS :: u64 where "INSTALL_SNAPSHOT_TIMEOUT_MS = 30000"
definition SNAPSHOT_CHUNK_BYTES :: u64 where "SNAPSHOT_CHUNK_BYTES = 1024 * 1024"

definition peer_network_default :: PeerNetwork where
  "peer_network_default = \<lparr>pn_blocked = {}, pn_token = None\<rparr>"

definition blocked_handle :: "PeerNetwork \<Rightarrow> NodeId set" where
  "blocked_handle network = pn_blocked network"

text \<open>The part all variants share: the two stores are opened on the database and handed to openraft.\<close>

definition assemble :: "('s, 'm, 'pol, 'd, 'r) openraft \<Rightarrow> ('s, 'm) engine_params \<Rightarrow> NodeId \<Rightarrow> ('pol, 'd) Config \<Rightarrow> PeerNetwork \<Rightarrow> 's \<Rightarrow>
    string + 'r \<times> ('s, 'm) StateMachineStore" where
  "assemble R E node_id config network db =
     (let log = log_store_new db
      in case state_machine_new (ep_storage E) (ep_codecs E) (ep_members E) db of
           Inl e \<Rightarrow> Inl (ep_show E e)
         | Inr sm \<Rightarrow> map_ok (\<lambda>raft. (raft, sm)) (Raft_new R node_id config network log sm))"

text \<open>Repair first, then assemble on the repaired database.\<close>

definition repaired :: "('s, 'm) engine_params \<Rightarrow> ('s \<Rightarrow> string + 'a) \<Rightarrow> 's \<Rightarrow> 's \<times> (string + 'a)" where
  "repaired E build db = (case recover_consistency (ep_storage E) (ep_codecs E) (ep_committed E) (ep_show E) db of
     (db, Inl e) \<Rightarrow> (db, Inl (display_error e))
   | (db, Inr _) \<Rightarrow> (db, build db))"

definition node_config :: "('s, 'm, 'pol, 'd, 'r) openraft \<Rightarrow> ('pol, 'd) Config" where
  "node_config R = (config_default R)\<lparr>heartbeat_interval := 300, election_timeout_min := 1000, election_timeout_max := 2000,
     max_payload_entries := 32, max_in_snapshot_log_to_keep := 0, install_snapshot_timeout := INSTALL_SNAPSHOT_TIMEOUT_MS,
     snapshot_max_chunk_size := SNAPSHOT_CHUNK_BYTES\<rparr>"

definition build_raft_partitionable_authenticated :: "('s, 'm, 'pol, 'd, 'r) openraft \<Rightarrow> ('s, 'm) engine_params \<Rightarrow> NodeId \<Rightarrow> string option \<Rightarrow> 's \<Rightarrow>
    's \<times> (string + 'r \<times> ('s, 'm) StateMachineStore \<times> NodeId set)" where
  "build_raft_partitionable_authenticated R E node_id peer_token db =
     repaired E (\<lambda>db. let network = with_token peer_token; blocked = blocked_handle network
       in map_ok (\<lambda>(raft, sm). (raft, sm, blocked)) (assemble R E node_id (node_config R) network db)) db"

definition build_raft_partitionable :: "('s, 'm, 'pol, 'd, 'r) openraft \<Rightarrow> ('s, 'm) engine_params \<Rightarrow> NodeId \<Rightarrow> 's \<Rightarrow>
    's \<times> (string + 'r \<times> ('s, 'm) StateMachineStore \<times> NodeId set)" where
  "build_raft_partitionable R E node_id db = build_raft_partitionable_authenticated R E node_id None db"

definition build_raft :: "('s, 'm, 'pol, 'd, 'r) openraft \<Rightarrow> ('s, 'm) engine_params \<Rightarrow> NodeId \<Rightarrow> 's \<Rightarrow>
    's \<times> (string + 'r \<times> ('s, 'm) StateMachineStore)" where
  "build_raft R E node_id db = apsnd (map_ok (\<lambda>(raft, sm, _). (raft, sm))) (build_raft_partitionable R E node_id db)"

definition build_raft_authenticated :: "('s, 'm, 'pol, 'd, 'r) openraft \<Rightarrow> ('s, 'm) engine_params \<Rightarrow> NodeId \<Rightarrow> string option \<Rightarrow> 's \<Rightarrow>
    's \<times> (string + 'r \<times> ('s, 'm) StateMachineStore)" where
  "build_raft_authenticated R E node_id peer_token db =
     apsnd (map_ok (\<lambda>(raft, sm, _). (raft, sm))) (build_raft_partitionable_authenticated R E node_id peer_token db)"

definition raw_build_raft_no_repair :: "('s, 'm, 'pol, 'd, 'r) openraft \<Rightarrow> ('s, 'm) engine_params \<Rightarrow> NodeId \<Rightarrow> 's \<Rightarrow> string + 'r" where
  "raw_build_raft_no_repair R E node_id db =
     map_ok fst (assemble R E node_id ((config_default R)\<lparr>heartbeat_interval := 300, election_timeout_min := 1000,
       election_timeout_max := 2000, max_payload_entries := 32, max_in_snapshot_log_to_keep := 0\<rparr>) peer_network_default db)"

definition build_raft_tuned :: "('s, 'm, 'pol, 'd, 'r) openraft \<Rightarrow> ('s, 'm) engine_params \<Rightarrow> NodeId \<Rightarrow> u64 \<Rightarrow> u64 \<Rightarrow> u64 \<Rightarrow> 's \<Rightarrow>
    's \<times> (string + 'r \<times> ('s, 'm) StateMachineStore)" where
  "build_raft_tuned R E node_id snapshot_logs_since_last to_keep chunk_bytes db =
     repaired E (\<lambda>db. assemble R E node_id ((config_default R)\<lparr>heartbeat_interval := 100, election_timeout_min := 300,
       election_timeout_max := 600, max_payload_entries := 32, snapshot_policy := LogsSinceLast R snapshot_logs_since_last,
       max_in_snapshot_log_to_keep := to_keep, install_snapshot_timeout := INSTALL_SNAPSHOT_TIMEOUT_MS,
       snapshot_max_chunk_size := chunk_bytes\<rparr>) peer_network_default db) db"

section \<open>Forming a cluster\<close>

definition initialize_cluster :: "('s, 'm, 'pol, 'd, 'r) openraft \<Rightarrow> (NodeId \<times> string) list \<Rightarrow> 'r \<Rightarrow> 'r \<times> (string + unit)" where
  "initialize_cluster R members raft = or_initialize R (bof_list members) raft"

definition add_learner :: "('s, 'm, 'pol, 'd, 'r) openraft \<Rightarrow> NodeId \<Rightarrow> string \<Rightarrow> 'r \<Rightarrow> 'r \<times> (string + unit)" where
  "add_learner R i addr raft = or_add_learner R i addr True raft"

definition set_voters :: "('s, 'm, 'pol, 'd, 'r) openraft \<Rightarrow> NodeId list \<Rightarrow> 'r \<Rightarrow> 'r \<times> (string + unit)" where
  "set_voters R voters raft = or_change_membership R (set voters) False raft"

definition start_single_node :: "('s, 'm, 'pol, 'd, 'r) openraft \<Rightarrow> ('s, 'm) engine_params \<Rightarrow> NodeId \<Rightarrow> 's \<Rightarrow> 's \<times> (string + 'r)" where
  "start_single_node R E node_id db = (case build_raft R E node_id db of
     (db, Inl e) \<Rightarrow> (db, Inl e)
   | (db, Inr (raft, _)) \<Rightarrow> (case initialize_cluster R [(node_id, [])] raft of
       (raft, Inl e) \<Rightarrow> (db, Inl e)
     | (raft, Inr _) \<Rightarrow> (db, Inr raft)))"

section \<open>The server\<close>

record Cli =
  cli_node_id :: u64
  cli_data_dir :: string
  cli_client_addr :: string
  cli_peer_addr :: string
  cli_metrics_addr :: string
  cli_metrics_enabled :: bool
  cli_client_token :: "string option"
  cli_peer_token :: "string option"

text \<open>The values of a command line without arguments.\<close>

definition cli_default :: Cli where
  "cli_default = \<lparr>cli_node_id = 1, cli_data_dir = ''data'', cli_client_addr = ''127.0.0.1:7600'', cli_peer_addr = ''127.0.0.1:7700'',
     cli_metrics_addr = ''127.0.0.1:9600'', cli_metrics_enabled = True, cli_client_token = None, cli_peer_token = None\<rparr>"

definition nonempty_token :: "string option \<Rightarrow> string option" where
  "nonempty_token token = (case token of Some t \<Rightarrow> if t = [] then None else Some t | None \<Rightarrow> None)"

definition path_join :: "string \<Rightarrow> string \<Rightarrow> string" where
  "path_join dir file = (if dir = [] then file else if List.last dir = CHR ''/'' then dir @ file else dir @ ''/'' @ file)"

record ('db, 'l) os =
  os_create_dir_all :: "string \<Rightarrow> string + unit"
  os_create_db :: "string \<Rightarrow> string + 'db"
  os_bind :: "string \<Rightarrow> string + 'l"
  os_signal :: "string + unit"

record ('s, 'm, 'r, 'l) Node =
  nd_db :: 's
  nd_raft :: 'r
  nd_sm :: "('s, 'm) StateMachineStore"
  nd_peers :: "'l \<times> string option"
  nd_clients :: "'l \<times> string option"
  nd_http :: "'l \<times> bool"

text \<open>\<^verbatim>\<open>main\<close> up to the wait for the signal: the node, with what each of its three server tasks was given.\<close>

definition start_node :: "('db RedbStore, 'm, 'pol, 'd, 'r) openraft \<Rightarrow> ('db, 'w, 'x) redb \<Rightarrow> ('db RedbStore, 'm) engine_params \<Rightarrow> ('db, 'l) os \<Rightarrow> Cli \<Rightarrow>
    string + ('db RedbStore, 'm, 'r, 'l) Node" where
  "start_node R r E env cli =
     (let client_token = nonempty_token (cli_client_token cli); peer_token = nonempty_token (cli_peer_token cli)
      in and_then (os_create_dir_all env (cli_data_dir cli)) (\<lambda>_.
         and_then (map_err display_error (open_store r (os_create_db env (path_join (cli_data_dir cli) ''hermesmq.redb'')))) (\<lambda>db.
         case build_raft_authenticated R E (cli_node_id cli) peer_token db of
           (_, Inl e) \<Rightarrow> Inl e
         | (db, Inr (raft, sm)) \<Rightarrow>
             and_then (os_bind env (cli_peer_addr cli)) (\<lambda>peer_listener.
             and_then (os_bind env (cli_client_addr cli)) (\<lambda>client_listener.
             map_ok (\<lambda>metrics_listener. \<lparr>nd_db = db, nd_raft = raft, nd_sm = sm, nd_peers = (peer_listener, peer_token),
                 nd_clients = (client_listener, client_token), nd_http = (metrics_listener, cli_metrics_enabled cli)\<rparr>)
               (os_bind env (cli_metrics_addr cli)))))))"

text \<open>The three tasks \<^verbatim>\<open>main\<close> spawns, each run on the events of its listener.\<close>

definition node_ports :: "'p semaphore \<Rightarrow> ('v, 'rq, 'rp, 'e) peer_raft \<Rightarrow> ('rq, 'rp, 'e) peer_codec \<Rightarrow> request_decoder \<Rightarrow> ('s, 'm, 'r, 'l) Node \<Rightarrow>
    (peer_input, unit) PortEvent list \<Rightarrow> (client_input, bool) PortEvent list \<Rightarrow> (http_input, RaftMetrics \<times> Queue) PortEvent list \<Rightarrow> 'v \<Rightarrow>
    ('p, 'v, 'rq) PeerPort \<times> 'p ClientPort \<times> 'p HttpPort" where
  "node_ports M P PC decoder node peer_events client_events http_events w =
     (serve_peer_authenticated M P PC (snd (nd_peers node)) peer_events w,
      serve_clients_authenticated M decoder (snd (nd_clients node)) client_events,
      serve_http M (snd (nd_http node)) http_events)"

definition main :: "('db RedbStore, 'm, 'pol, 'd, 'r) openraft \<Rightarrow> ('db, 'w, 'x) redb \<Rightarrow> ('db RedbStore, 'm) engine_params \<Rightarrow> ('db, 'l) os \<Rightarrow> Cli \<Rightarrow> string + unit" where
  "main R r E env cli = and_then (start_node R r E env cli) (\<lambda>node. and_then (os_signal env) (\<lambda>_. or_shutdown R (nd_raft node)))"

section \<open>Properties\<close>

text \<open>What a build has done when it returns: openraft was started on a repaired database, with a state
  machine read from that database.\<close>

definition starts_on :: "('s, 'm) engine_params \<Rightarrow> ('s \<Rightarrow> log_table \<times> meta_table) \<Rightarrow> 's \<Rightarrow> 's \<Rightarrow> ('s, 'm) StateMachineStore \<Rightarrow> bool" where
  "starts_on E view db db' sm \<longleftrightarrow> healthy (ep_codecs E) (ep_committed E) (view db') \<and>
     (healthy (ep_codecs E) (ep_committed E) (view db) \<longrightarrow> view db' = view db) \<and>
     bget (snd (view db')) KEY_SNAPSHOT = bget (snd (view db)) KEY_SNAPSHOT \<and>
     bget (snd (view db')) KEY_VOTE = bget (snd (view db)) KEY_VOTE \<and>
     state_machine_new (ep_storage E) (ep_codecs E) (ep_members E) db' = Inr sm"

lemma assemble_Inr: "assemble R E node_id config network db = Inr (raft, sm) \<longleftrightarrow>
    state_machine_new (ep_storage E) (ep_codecs E) (ep_members E) db = Inr sm \<and>
    Raft_new R node_id config network (log_store_new db) sm = Inr raft"
  by (auto simp: assemble_def map_ok_Inr split: sum.splits)

lemma repaired_Inr:
  assumes "storage_contract (ep_storage E) view" and "repaired E build db = (db', Inr x)"
  shows "build db' = Inr x \<and> (state_machine_new (ep_storage E) (ep_codecs E) (ep_members E) db' = Inr sm \<longrightarrow> starts_on E view db db' sm)"
proof -
  have r: "recover_consistency (ep_storage E) (ep_codecs E) (ep_committed E) (ep_show E) db = (db', Inr ())" and b: "build db' = Inr x"
    using assms(2) by (auto simp: repaired_def split: prod.splits sum.splits)
  from recovery_outcome [OF assms(1) r] b show ?thesis by (simp add: starts_on_def)
qed

lemma build_raft_starts:
  assumes "storage_contract (ep_storage E) view"
    and "build_raft_partitionable_authenticated R E node_id peer_token db = (db', Inr (raft, sm, blocked))"
  shows "starts_on E view db db' sm \<and> blocked = {} \<and>
    Raft_new R node_id (node_config R) (with_token peer_token) (log_store_new db') sm = Inr raft"
proof -
  have "map_ok (\<lambda>(raft, sm). (raft, sm, blocked_handle (with_token peer_token)))
      (assemble R E node_id (node_config R) (with_token peer_token) db') = Inr (raft, sm, blocked)"
    using repaired_Inr [OF assms(1) assms(2) [unfolded build_raft_partitionable_authenticated_def]] by (simp add: Let_def)
  then have "assemble R E node_id (node_config R) (with_token peer_token) db' = Inr (raft, sm)" and "blocked = {}"
    by (auto simp: map_ok_Inr blocked_handle_def with_token_def)
  then show ?thesis
    using repaired_Inr [OF assms(1) assms(2) [unfolded build_raft_partitionable_authenticated_def], of sm] by (simp add: assemble_Inr)
qed

lemma build_raft_tuned_starts:
  assumes "storage_contract (ep_storage E) view" and "build_raft_tuned R E node_id logs to_keep chunk db = (db', Inr (raft, sm))"
  shows "starts_on E view db db' sm"
  using repaired_Inr [OF assms(1) assms(2) [unfolded build_raft_tuned_def], of sm] by (simp add: assemble_Inr)

text \<open>A single node forms a cluster of itself, again on a repaired database.\<close>

lemma start_single_node_starts:
  assumes "storage_contract (ep_storage E) view" and "start_single_node R E node_id db = (db', Inr raft)"
  shows "\<exists>raft0 sm. starts_on E view db db' sm \<and> or_initialize R (bof_list [(node_id, [])]) raft0 = (raft, Inr ())"
proof -
  obtain raft0 sm where b: "build_raft R E node_id db = (db', Inr (raft0, sm))" and i: "or_initialize R (bof_list [(node_id, [])]) raft0 = (raft, Inr ())"
    using assms(2) by (auto simp: start_single_node_def initialize_cluster_def split: prod.splits sum.splits)
  obtain blocked where "build_raft_partitionable_authenticated R E node_id None db = (db', Inr (raft0, sm, blocked))"
    using b by (cases "build_raft_partitionable_authenticated R E node_id None db")
      (auto simp: build_raft_def build_raft_partitionable_def map_ok_Inr)
  with build_raft_starts [OF assms(1) this] i show ?thesis by blast
qed

lemma start_node_Inr:
  assumes "start_node R r E env cli = Inr node"
  obtains db blocked where "open_store r (os_create_db env (path_join (cli_data_dir cli) ''hermesmq.redb'')) = Inr db"
    "build_raft_partitionable_authenticated R E (cli_node_id cli) (nonempty_token (cli_peer_token cli)) db =
       (nd_db node, Inr (nd_raft node, nd_sm node, blocked))"
    "snd (nd_peers node) = nonempty_token (cli_peer_token cli)" "snd (nd_clients node) = nonempty_token (cli_client_token cli)"
    "snd (nd_http node) = cli_metrics_enabled cli"
    "os_bind env (cli_peer_addr cli) = Inr (fst (nd_peers node))" "os_bind env (cli_client_addr cli) = Inr (fst (nd_clients node))"
    "os_bind env (cli_metrics_addr cli) = Inr (fst (nd_http node))"
  using assms
  by (cases "build_raft_partitionable_authenticated R E (cli_node_id cli) (nonempty_token (cli_peer_token cli))
        (case open_store r (os_create_db env (path_join (cli_data_dir cli) ''hermesmq.redb'')) of Inr db \<Rightarrow> db)")
     (auto simp: start_node_def and_then_Inr map_ok_Inr map_err_def build_raft_authenticated_def Let_def split: sum.splits prod.splits)

text \<open>(C29) A node that \<^verbatim>\<open>main\<close> has started: openraft runs on the database the data directory holds, repaired to a healthy
  state and otherwise unchanged, with the state machine read from it; it presents to its peers the token its own peer
  port demands; an empty token counts as none; and with tokens set, whatever the interleaving, every remote call and
  every client request its ports serve comes from a connection that presented the configured token itself.\<close>

theorem started_node:
  assumes "redb_spec r V" and "ep_storage E = redb_storage r" and "start_node R r E env cli = Inr node"
    and "node_ports M P PC decoder node peer_events client_events http_events w = (peer_port, client_port, http_port)"
  shows "(\<exists>db. open_store r (os_create_db env (path_join (cli_data_dir cli) ''hermesmq.redb'')) = Inr db \<and>
      starts_on E (db_view V \<circ> rs_db) db (nd_db node) (nd_sm node)) \<and>
    Raft_new R (cli_node_id cli) (node_config R) (with_token (snd (nd_peers node))) (log_store_new (nd_db node)) (nd_sm node) = Inr (nd_raft node) \<and>
    (cli_peer_token cli = Some [] \<longrightarrow> snd (nd_peers node) = None) \<and> (cli_client_token cli = Some [] \<longrightarrow> snd (nd_clients node) = None) \<and>
    (\<forall>t. cli_peer_token cli = Some t \<and> t \<noteq> [] \<longrightarrow>
      (\<forall>(input, req) \<in> set (pp_served peer_port). Incoming input \<in> set peer_events \<and> peer_presents PC t input)) \<and>
    (\<forall>t. cli_client_token cli = Some t \<and> t \<noteq> [] \<longrightarrow>
      (\<forall>input req. (input, Serve req) \<in> set (cp_actions client_port) \<longrightarrow> Incoming input \<in> set client_events \<and> client_presents decoder t input))"
proof -
  obtain db blocked where o: "open_store r (os_create_db env (path_join (cli_data_dir cli) ''hermesmq.redb'')) = Inr db"
      and b: "build_raft_partitionable_authenticated R E (cli_node_id cli) (nonempty_token (cli_peer_token cli)) db =
        (nd_db node, Inr (nd_raft node, nd_sm node, blocked))"
      and t: "snd (nd_peers node) = nonempty_token (cli_peer_token cli)" "snd (nd_clients node) = nonempty_token (cli_client_token cli)"
    using start_node_Inr [OF assms(3)] by metis
  have "storage_contract (ep_storage E) (db_view V \<circ> rs_db)" using redb_contract [OF assms(1)] assms(2) by simp
  note built = build_raft_starts [OF this b]
  have ports: "peer_port = serve_peer_authenticated M P PC (snd (nd_peers node)) peer_events w"
      "client_port = serve_clients_authenticated M decoder (snd (nd_clients node)) client_events"
    using assms(4) by (simp_all add: node_ports_def)
  have peers: "\<forall>(input, req) \<in> set (pp_served peer_port). Incoming input \<in> set peer_events \<and> peer_presents PC tok input"
    if "cli_peer_token cli = Some tok \<and> tok \<noteq> []" for tok
    using peer_served_ok [of PC tok peer_events w M P] that t(1) ports(1) by (simp add: nonempty_token_def peer_port_ok_def)
  have clients: "\<forall>input req. (input, Serve req) \<in> set (cp_actions client_port) \<longrightarrow> Incoming input \<in> set client_events \<and> client_presents decoder tok input"
    if "cli_client_token cli = Some tok \<and> tok \<noteq> []" for tok
    using client_served_ok [of decoder tok client_events M] that t(2) ports(2) by (auto simp: nonempty_token_def client_port_ok_def)
  have tokens: "cli_peer_token cli = Some [] \<longrightarrow> snd (nd_peers node) = None" "cli_client_token cli = Some [] \<longrightarrow> snd (nd_clients node) = None"
    using t by (simp_all add: nonempty_token_def)
  have raft: "Raft_new R (cli_node_id cli) (node_config R) (with_token (snd (nd_peers node))) (log_store_new (nd_db node)) (nd_sm node) = Inr (nd_raft node)"
    using built t(1) by simp
  show ?thesis using o built raft tokens peers clients by blast
qed

definition sample_raft :: "(tables RedbStore, unit, unit, unit, NodeId) openraft" where
  "sample_raft = \<lparr>config_default = \<lparr>heartbeat_interval = 50, election_timeout_min = 150, election_timeout_max = 300, max_payload_entries = 300,
       snapshot_policy = (), max_in_snapshot_log_to_keep = 1000, install_snapshot_timeout = 200, snapshot_max_chunk_size = 3145728, cf_rest = ()\<rparr>,
     LogsSinceLast = (\<lambda>_. ()), Raft_new = (\<lambda>node_id config network log sm. Inr node_id), or_initialize = (\<lambda>_ raft. (raft, Inr ())),
     or_add_learner = (\<lambda>_ _ _ raft. (raft, Inr ())), or_change_membership = (\<lambda>_ _ raft. (raft, Inr ())), or_shutdown = (\<lambda>_. Inr ())\<rparr>"

definition sample_engine :: "(tables RedbStore, unit) engine_params" where
  "sample_engine = \<lparr>ep_storage = redb_storage plain_redb, ep_codecs = sample_codecs, ep_committed = sample_opt_codec, ep_show = (\<lambda>_. []), ep_members = ()\<rparr>"

definition sample_os :: "(tables, string) os" where
  "sample_os = \<lparr>os_create_dir_all = (\<lambda>_. Inr ()), os_create_db = (\<lambda>_. Inr (bliteral [(5, [1]), (6, [2])], bliteral [(KEY_COMMITTED, [1])])),
     os_bind = (\<lambda>addr. Inr addr), os_signal = Inr ()\<rparr>"

definition sample_cli :: Cli where
  "sample_cli = cli_default\<lparr>cli_client_token := Some [], cli_peer_token := Some ''s''\<rparr>"

lemmas redb_eval = redb_storage_def plain_redb_def st_def commit_store_def with_read_def begin_write_def redb_get_def redb_delete_def
  redb_first_log_index_def redb_last_log_index_def redb_purge_log_upto_def remove_log_keys_def log_items_def and_then_def map_ok_def map_err_def

definition sample_opened :: "tables RedbStore" where
  "sample_opened = \<lparr>rs_db = (bliteral [(5, [1]), (6, [2])], bliteral [(KEY_COMMITTED, [1])]), rs_durability = Immediate\<rparr>"

definition sample_repaired :: "tables RedbStore" where
  "sample_repaired = \<lparr>rs_db = (bempty, bempty), rs_durability = Immediate\<rparr>"

lemma sample_open: "open_store plain_redb (os_create_db sample_os file) = Inr sample_opened"
  by (simp add: open_store_def init_tables_def sample_os_def sample_opened_def redb_eval)

lemma sample_recover: "recover_consistency (redb_storage plain_redb) sample_codecs sample_opt_codec (\<lambda>_. []) sample_opened = (sample_repaired, Inr ())"
  by (simp add: recover_consistency_def snapshot_last_index_def stored_snapshot_def drop_orphans_def drop_commit_def base_next_def
      sample_opened_def sample_repaired_def redb_eval sread_def dec_def sample_opt_codec_def btree_eval KEY_COMMITTED_def KEY_SNAPSHOT_def KEY_PURGED_def)

definition sample_machine :: "(tables RedbStore, unit) StateMachineStore" where
  "sample_machine = \<lparr>sm_data = data_default (), snapshot_seq = 0, sm_db = sample_repaired\<rparr>"

lemma sample_machine_new: "state_machine_new (redb_storage plain_redb) sample_codecs () sample_repaired = Inr sample_machine"
  by (simp add: state_machine_new_def stored_snapshot_def sample_machine_def sample_repaired_def redb_eval sread_def btree_eval)

lemma sample_node_built: "build_raft_authenticated sample_raft sample_engine 1 token sample_opened = (sample_repaired, Inr (1, sample_machine))"
  by (simp add: build_raft_authenticated_def build_raft_partitionable_authenticated_def repaired_def assemble_def sample_engine_def
      sample_recover sample_machine_new) (simp add: sample_raft_def map_ok_def)

definition sample_node :: "(tables RedbStore, unit, NodeId, string) Node" where
  "sample_node = \<lparr>nd_db = sample_repaired, nd_raft = 1, nd_sm = sample_machine, nd_peers = (''127.0.0.1:7700'', Some ''s''),
     nd_clients = (''127.0.0.1:7600'', None), nd_http = (''127.0.0.1:9600'', True)\<rparr>"

lemma sample_start: "start_node sample_raft plain_redb sample_engine sample_os sample_cli = Inr sample_node"
  unfolding start_node_def sample_open
  by (simp add: sample_cli_def cli_default_def nonempty_token_def sample_node_built sample_os_def sample_node_def and_then_def map_ok_def map_err_def)

theorem started_node_witness:
  "healthy sample_codecs sample_opt_codec (rs_db (nd_db sample_node)) \<and> peer_presents sample_peer_codec ''s'' sample_peer_input"
proof -
  let ?events = "[Incoming sample_peer_input, AcceptError, Turn 0 (), Turn 0 ()]"
  obtain pp cp hp where ports: "node_ports count_semaphore echo_raft sample_peer_codec sample_decoder sample_node ?events [] [] 0 = (pp, cp, hp)"
    by (metis prod_cases3)
  have "pp_served pp = [(sample_peer_input, PeerAppendEntries ())]"
    using ports sample_peer_run by (simp add: node_ports_def sample_node_def)
  moreover have "ep_storage sample_engine = redb_storage plain_redb" "cli_peer_token sample_cli = Some ''s''"
    by (simp_all add: sample_engine_def sample_cli_def)
  ultimately show ?thesis
    using started_node [OF plain_redb_ok _ sample_start ports]
    by (auto simp: starts_on_def sample_engine_def)
qed

end
