(* ===== verification/Fuzz_Driver.thy ===== *)
theory Fuzz_Driver
  imports Queue_Retained
begin

text \<open>
  The operation driver shared by the structure-aware fuzz targets, \<^verbatim>\<open>Driver\<close> and \<^verbatim>\<open>run\<close> in
  \<^verbatim>\<open>fuzz/src/lib.rs\<close>: it turns small arbitrary operations into replicated requests, with a clock
  and the lease ids and offsets it has seen. Constructors of \<^verbatim>\<open>Op\<close> and \<^verbatim>\<open>Ref\<close> carry a prefix.
\<close>

section \<open>Operations\<close>

definition MAX_OPS :: nat where "MAX_OPS = 200"
definition MAX_BATCH :: nat where "MAX_BATCH = 8"
definition TOPIC_ALPHABET :: u8 where "TOPIC_ALPHABET = 4"
definition GROUP_ALPHABET :: u8 where "GROUP_ALPHABET = 4"
definition RECENT_LEASES :: nat where "RECENT_LEASES = 64"

definition topic_name :: "u8 \<Rightarrow> string" where
  "topic_name n = ''t'' @ decimal (unat (n mod TOPIC_ALPHABET))"

definition group_name :: "u8 \<Rightarrow> string" where
  "group_name n = ''g'' @ decimal (unat (n mod GROUP_ALPHABET))"

datatype Ref = RefRecent u8 | RefRaw u64

record Item =
  i_topic :: u8
  i_priority :: u8
  i_content_type :: u8
  i_producer :: u8
  i_seq :: u8
  i_payload_len :: u8

datatype Op =
    OpCreateTopic u8
  | OpDeleteTopic u8
  | OpProduce Item
  | OpProduceMany "Item list"
  | OpPoll u8 u8 u8 "16 word"
  | OpPollAuto u8 u8 u8 "16 word"
  | OpAck u8 u8 Ref
  | OpNack u8 u8 Ref
  | OpAckMany u8 u8 "Ref list"
  | OpNackMany u8 u8 "Ref list"
  | OpCommit u8 u8 Ref
  | OpSetRateLimit u8 u64 u32
  | OpSetRetention u8 u8 "16 word"
  | OpAdvance "16 word"
  | OpSetClock u32

definition content_type :: "u8 \<Rightarrow> ContentType" where
  "content_type n = (let m = n mod 4 in if m = 1 then Text else if m = 2 then Json else if m = 3 then MsgPack else Raw)"

record Driver =
  now :: u64
  seen_leases :: "LeaseId list"
  seen_offsets :: "Offset list"
  retention :: "(string, u64) btree"

definition driver_new :: Driver where
  "driver_new = \<lparr>now = 0, seen_leases = [], seen_offsets = [], retention = bempty\<rparr>"

fun pick :: "u64 list \<Rightarrow> Ref \<Rightarrow> u64" where
  "pick pool (RefRecent i) = (if pool = [] then 0 else pool ! (unat i mod length pool))"
| "pick pool (RefRaw v) = v"

definition remember :: "u64 list \<Rightarrow> u64 \<Rightarrow> u64 list" where
  "remember pool v = (if length pool = RECENT_LEASES then tl pool else pool) @ [v]"

definition produce_item :: "Driver \<Rightarrow> Item \<Rightarrow> ProduceItem" where
  "produce_item d i = \<lparr>p_topic = topic_name (i_topic i), p_priority = i_priority i mod 8, p_content_type = content_type (i_content_type i),
     p_payload = replicate (unat (i_payload_len i)) (i_payload_len i),
     p_producer_id = (if i_producer i = 0 then [] else ''p'' @ decimal (unat (i_producer i mod 4))),
     p_seq = ucast (i_seq i mod 8), p_ts_ms = now d\<rparr>"

fun driver_request :: "Driver \<Rightarrow> Op \<Rightarrow> Driver \<times> AppRequest option" where
  "driver_request d (OpAdvance dt) = (d\<lparr>now := saturating_add (now d) (ucast dt)\<rparr>, None)"
| "driver_request d (OpSetClock t) = (d\<lparr>now := ucast t\<rparr>, None)"
| "driver_request d (OpCreateTopic t) = (d, Some (CreateTopic (topic_name t)))"
| "driver_request d (OpDeleteTopic t) =
     (d\<lparr>retention := bremove (topic_name t) (retention d)\<rparr>, Some (DeleteTopic (topic_name t)))"
| "driver_request d (OpProduce i) =
     (let item = produce_item d i
      in (d, Some (Produce (p_topic item) (p_priority item) (p_content_type item) (p_payload item) (p_producer_id item) (p_seq item) (p_ts_ms item))))"
| "driver_request d (OpProduceMany items) = (d, Some (ProduceMany (map (produce_item d) (take MAX_BATCH items))))"
| "driver_request d (OpPoll topic grp mx vis) =
     (d, Some (Poll (topic_name topic) (group_name grp) (ucast mx) (ucast vis) (now d)))"
| "driver_request d (OpPollAuto topic grp mx vis) =
     (d, Some (PollAuto (topic_name topic) (group_name grp) (ucast mx) (ucast vis) (now d)))"
| "driver_request d (OpAck topic grp lease) = (d, Some (Ack (topic_name topic) (group_name grp) (pick (seen_leases d) lease)))"
| "driver_request d (OpNack topic grp lease) = (d, Some (Nack (topic_name topic) (group_name grp) (pick (seen_leases d) lease)))"
| "driver_request d (OpAckMany topic grp refs) =
     (d, Some (AckMany (topic_name topic) (group_name grp) (map (pick (seen_leases d)) (take MAX_BATCH refs))))"
| "driver_request d (OpNackMany topic grp refs) =
     (d, Some (NackMany (topic_name topic) (group_name grp) (map (pick (seen_leases d)) (take MAX_BATCH refs))))"
| "driver_request d (OpCommit topic grp offset) =
     (d, Some (CommitOffset (topic_name topic) (group_name grp) (pick (seen_offsets d) offset)))"
| "driver_request d (OpSetRateLimit topic rate_milli tokens) = (d, Some (SetRateLimit (topic_name topic) rate_milli tokens))"
| "driver_request d (OpSetRetention topic max_messages max_age_ms) =
     (d\<lparr>retention := binsert (topic_name topic) (ucast max_messages) (retention d)\<rparr>,
      Some (SetRetention (topic_name topic) (ucast max_messages) (ucast max_age_ms)))"

fun observe :: "Driver \<Rightarrow> AppResponse \<Rightarrow> Driver" where
  "observe d (Polled items) =
     foldl (\<lambda>d i. d\<lparr>seen_leases := remember (seen_leases d) (d_lease_id i), seen_offsets := remember (seen_offsets d) (d_offset i)\<rparr>) d items"
| "observe d (Produced offset) =
     d\<lparr>seen_offsets := remember (remember (seen_offsets d) (saturating_add offset 1)) offset\<rparr>"
| "observe d (ProducedMany offsets) = foldl (\<lambda>d off. d\<lparr>seen_offsets := remember (seen_offsets d) off\<rparr>) d offsets"
| "observe d _ = d"

fun run_ops :: "Driver \<Rightarrow> Queue \<Rightarrow> Op list \<Rightarrow> Queue \<times> AppResponse list" where
  "run_ops d q [] = (q, [])"
| "run_ops d q (op # ops) = (case driver_request d op of
     (d, None) \<Rightarrow> run_ops d q ops
   | (d, Some req) \<Rightarrow>
       (let (q, resp) = apply_request q req; (q, resps) = run_ops (observe d resp) q ops in (q, resp # resps)))"

definition run :: "Queue \<Rightarrow> Op list \<Rightarrow> Queue \<times> AppResponse list" where
  "run q ops = run_ops driver_new q (take MAX_OPS ops)"

section \<open>A run is a request sequence within the counter budget\<close>

lemma unat_ucast_small: "unat (ucast (x :: u8) :: u32) \<le> 255"
  using unat_le_max [of x] by (simp add: unsigned_ucast_eq take_bit_nat_eq_self)

lemma driver_request_cost:
  assumes "driver_request d op = (d', Some req)"
  shows "request_cost req \<le> 255"
  using assms unat_ucast_small by (cases op) (auto simp: Let_def MAX_BATCH_def)

lemma run_ops_requests: "\<exists>reqs. run_ops d q ops = apply_all q reqs \<and> total_cost reqs \<le> 255 * length ops"
proof (induction ops arbitrary: d q)
  case (Cons op ops)
  obtain d' ro where r: "driver_request d op = (d', ro)" by fastforce
  show ?case
  proof (cases ro)
    case None
    obtain reqs where "run_ops d' q ops = apply_all q reqs" "total_cost reqs \<le> 255 * length ops" using Cons.IH by blast
    with r None show ?thesis by (intro exI [of _ reqs]) simp
  next
    case (Some req)
    obtain q' resp where a: "apply_request q req = (q', resp)" by fastforce
    obtain reqs where "run_ops (observe d' resp) q' ops = apply_all q' reqs" "total_cost reqs \<le> 255 * length ops" using Cons.IH by blast
    with r Some a driver_request_cost [of d op d' req] show ?thesis by (intro exI [of _ "req # reqs"]) simp
  qed
qed (rule exI [of _ "[]"], simp)

lemma run_requests: "\<exists>reqs. run queue_default ops = apply_all queue_default reqs \<and> total_cost reqs \<le> counter_limit"
proof -
  obtain reqs where r: "run queue_default ops = apply_all queue_default reqs" "total_cost reqs \<le> 255 * length (take MAX_OPS ops)"
    using run_ops_requests unfolding run_def by blast
  have "255 * length (take MAX_OPS ops) \<le> 255 * 200" by (simp add: MAX_OPS_def)
  with r show ?thesis by (intro exI [of _ reqs]) (simp add: counter_limit_eq)
qed

text \<open>What the fuzz targets check holds for every input: after any run of the driver on an empty queue the state
  passes \<^verbatim>\<open>Queue::validate\<close>, and in every topic the retained messages are the offsets from the oldest
  one up to the next, with every offset some group has not acknowledged among them.\<close>

lemma fuzz_run_valid:
  assumes "q = fst (run queue_default ops)"
  shows "validate q = Inr () \<and> (\<forall>name t. bget (topics q) name = Some t \<longrightarrow>
    set (bkeys (messages t)) = {first_or_next t..<next_offset t} \<and>
    (\<forall>g \<in> set (bvalues (groups t)). {..<next_offset t} - acked_set g \<subseteq> set (bkeys (messages t))))"
proof -
  obtain reqs where r: "q = fst (apply_all queue_default reqs)" and c: "total_cost reqs \<le> counter_limit"
    using run_requests assms by metis
  have "validate q = Inr ()" using wf_valid [OF wf.all_reachable [OF c] c] r by simp
  moreover have "set (bkeys (messages t)) = {first_or_next t..<next_offset t} \<and>
      (\<forall>g \<in> set (bvalues (groups t)). {..<next_offset t} - acked_set g \<subseteq> set (bkeys (messages t)))"
    if "bget (topics q) name = Some t" for name t
  proof -
    have st: "topic_safe (total_cost reqs) (next_lease_id q) t" using reachable_safe [OF c, of name t] that by (simp add: r)
    have "keeps_unacked t" using st by (simp add: topic_safe_def)
    then have "\<forall>g \<in> set (bvalues (groups t)). {..<next_offset t} - acked_set g \<subseteq> set (bkeys (messages t))"
      by (auto simp: keeps_unacked_def in_bvalues in_bkeys bcontains_def)
    with safe_message_keys [OF st] show ?thesis by blast
  qed
  ultimately show ?thesis by blast
qed

end
