(* ===== verification/Queue_Limits.thy ===== *)
theory Queue_Limits
  imports Queue_Batches
begin

text \<open>
  Retention limits: which requests change the limits of a topic, and that every accepted produce
  leaves the topics it wrote to within their limits.
\<close>

section \<open>The limits of a topic\<close>

definition retention_of :: "TopicState \<Rightarrow> u64 \<times> u64" where
  "retention_of t = (retain_max_messages t, retain_max_age_ms t)"

lemma effective_retention_cong: "retention_of t = retention_of t' \<Longrightarrow> effective_retention t = effective_retention t'"
  by (simp add: retention_of_def effective_retention_def)

lemma retention_of_ops [simp, frame]:
  "retention_of (purge_retained t now_ms) = retention_of t"
  "retention_of (reclaim t) = retention_of t"
  "retention_of (put_group t grp g) = retention_of t"
  "retention_of (ack_topic t grp lid) = retention_of t"
  "retention_of (nack_topic t grp lid) = retention_of t"
  by (simp_all add: retention_of_def reclaim_def reclaim_messages_def gc_idle_groups_def put_group_def ack_topic_def nack_topic_def
      split: option.splits)

lemma retention_of_sweep [simp, frame]: "retention_of (sweep_and_reclaim t now_ms) = retention_of t"
proof -
  have "retention_of (fst (sweep_idle_groups t now_ms)) = retention_of t" by (simp add: sweep_idle_groups_def retention_of_def Let_def)
  then show ?thesis by (simp add: sweep_and_reclaim_def case_prod_beta)
qed

lemma retention_of_poll [simp, frame]: "retention_of (fst (poll_topic t grp mx vis ts_ms next_lid)) = retention_of t"
  by (rule poll_topic_cases [of t ts_ms grp mx vis next_lid]) auto

lemma retention_of_commit [simp, frame]: "retention_of (commit_topic t grp offset now_ms) = retention_of t"
  by (rule commit_topic_cases [of t now_ms grp offset]) (auto split: option.splits)

lemma retention_of_produce [simp, frame]: "retention_of (fst (produce_in_topic t item)) = retention_of t"
proof (cases t item rule: produce_in_topic_cases)
  case (keyed ded order)
  then show ?thesis by simp (simp add: retention_of_def)
next
  case unkeyed
  then show ?thesis by simp (simp add: retention_of_def)
qed simp

section \<open>The limits of the queue\<close>

definition limits :: "topic_map \<Rightarrow> string \<Rightarrow> (u64 \<times> u64) option" where
  "limits ts topic = map_option retention_of (bget ts topic)"

lemma limits_modify: "(\<And>t. retention_of (f t) = retention_of t) \<Longrightarrow> limits (bmodify topic f ts) = limits ts"
  by (auto simp: limits_def option.map_comp o_def)

lemma limits_ops [simp, frame]:
  "limits (ack ts topic grp lid) = limits ts" "limits (nack ts topic grp lid) = limits ts"
  "limits (reclaim_topic ts topic) = limits ts" "limits (commit ts topic grp offset now_ms) = limits ts"
  by (simp_all add: ack_def nack_def reclaim_topic_def commit_def limits_modify)

lemma limits_poll [simp, frame]: "limits (fst (Queue_State.poll ts topic grp mx vis ts_ms next_lid)) = limits ts"
  by (auto simp: limits_def Queue_State.poll_def case_prod_beta split: option.splits)

lemma limits_acks [simp, frame]: "limits (foldl (\<lambda>ts x. ack ts topic grp (lid x)) ts xs) = limits ts"
  by (induction xs arbitrary: ts) simp_all

lemma limits_nacks [simp, frame]: "limits (foldl (\<lambda>ts x. nack ts topic grp (lid x)) ts xs) = limits ts"
  by (induction xs arbitrary: ts) simp_all

lemma limits_produce_one: "limits (topics q) topic = Some l \<Longrightarrow> limits (topics (fst (produce_one q item))) topic = Some l"
  by (auto simp: limits_def produce_one_def topic_entry_def case_prod_beta)

lemma limits_produce_all: "limits (topics q) topic = Some l \<Longrightarrow> limits (topics (fst (produce_all q items))) topic = Some l"
  by (induction items arbitrary: q) (simp_all add: case_prod_beta limits_produce_one)

text \<open>The topics a request may create.\<close>

fun request_topics :: "AppRequest \<Rightarrow> string set" where
  "request_topics (Produce topic _ _ _ _ _ _) = {topic}"
| "request_topics (ProduceMany items) = p_topic ` set items"
| "request_topics (CreateTopic topic) = {topic}"
| "request_topics (SetRateLimit topic _ _) = {topic}"
| "request_topics (SetRetention topic _ _) = {topic}"
| "request_topics _ = {}"

lemma dom_limits: "dom (limits ts) = set (bkeys ts)"
  by (auto simp: limits_def in_bkeys bcontains_def)

lemma limits_checked:
  "limits (topics (fst (apply_checked chk q r))) = (if isl chk then limits (topics q) else limits (topics (fst r)))"
  by (cases chk) (simp_all add: apply_checked_def)

text \<open>Only \<^verbatim>\<open>SetRetention\<close> and \<^verbatim>\<open>DeleteTopic\<close> change the limits of an existing topic.\<close>

lemma limits_kept:
  assumes "limits (topics q) topic = Some l" and "req \<noteq> DeleteTopic topic" and "\<And>mm ma. req \<noteq> SetRetention topic mm ma"
  shows "limits (topics (fst (apply_request q req))) topic = Some l"
proof (cases req)
  case (Produce topic' priority content_type payload producer_id seq ts_ms)
  then show ?thesis using assms(1) by (simp add: limits_checked case_prod_beta limits_produce_one Let_def)
next
  case (ProduceMany items)
  then show ?thesis using assms(1) by (simp add: limits_checked case_prod_beta limits_produce_all)
next
  case (SetRateLimit topic' rate brst)
  then show ?thesis using assms(1) by (auto simp: limits_checked limits_def topic_entry_def retention_of_def)
next
  case (SetRetention topic' mm ma)
  then show ?thesis using assms(1,3) by (auto simp: limits_checked limits_def)
qed (use assms(1,2) in \<open>auto simp: limits_checked case_prod_beta limits_def topic_entry_def split: option.splits\<close>)

lemma keys_checked:
  "set (bkeys (topics (fst (apply_checked chk q r)))) = (if isl chk then set (bkeys (topics q)) else set (bkeys (topics (fst r))))"
  by (cases chk) (simp_all add: apply_checked_def)

lemma keys_step: "set (bkeys (topics (fst (apply_request q req)))) \<subseteq> set (bkeys (topics q)) \<union> request_topics req"
proof (cases req)
  case (Poll topic grp mx vis ts_ms)
  obtain ts next_lid items where p: "Queue_State.poll (topics q) topic grp mx vis ts_ms (next_lease_id q) = (ts, next_lid, items)"
    by (metis prod.exhaust)
  then show ?thesis using keys_poll [OF p] by (simp add: Poll keys_checked)
next
  case (PollAuto topic grp mx vis ts_ms)
  obtain ts next_lid items where p: "Queue_State.poll (topics q) topic grp mx vis ts_ms (next_lease_id q) = (ts, next_lid, items)"
    by (metis prod.exhaust)
  then show ?thesis using keys_poll [OF p] by (simp add: PollAuto keys_checked)
next
  case (DeleteTopic topic)
  then show ?thesis by (auto simp: in_bkeys split: if_splits)
qed (auto simp: keys_checked case_prod_beta Let_def keys_produce_one keys_produce_all split: if_splits)

section \<open>Produced topics are within their limits\<close>

definition within_limit :: "TopicState \<Rightarrow> bool" where
  "within_limit t \<longleftrightarrow> (fst (effective_retention t) > 0 \<longrightarrow> blen (messages t) \<le> unat (fst (effective_retention t)))"

lemma purge_retained_entries: "entries (messages (purge_retained t now_ms)) = drop (purge_count t now_ms) (entries (messages t))"
  by (simp add: purge_retained_messages purge_set_prefix entries_retain_drop)

lemma within_limit_purge: "within_limit (purge_retained t now_ms)"
proof -
  have "effective_retention (purge_retained t now_ms) = effective_retention t" by (rule effective_retention_cong) simp
  moreover have "fst (effective_retention t) > 0 \<Longrightarrow> purge_count t now_ms \<ge> blen (messages t) - unat (fst (effective_retention t))"
    by (cases "effective_retention t") (simp add: purge_count_def)
  ultimately show ?thesis by (auto simp: within_limit_def blen_def purge_retained_entries)
qed

lemma within_limit_produce: "within_limit (fst (produce_in_topic t item))"
  by (rule produce_in_topic_cases [of item t]) (simp_all add: within_limit_purge)

definition topic_within :: "Queue \<Rightarrow> string \<Rightarrow> bool" where
  "topic_within q topic \<longleftrightarrow> (\<exists>t. bget (topics q) topic = Some t \<and> within_limit t)"

lemma topic_within_produce_one: "topic_within q topic \<or> topic = p_topic item \<Longrightarrow> topic_within (fst (produce_one q item)) topic"
  by (auto simp: topic_within_def produce_one_def case_prod_beta within_limit_produce)

lemma topic_within_produce_all: "topic_within q topic \<or> topic \<in> p_topic ` set items \<Longrightarrow> topic_within (fst (produce_all q items)) topic"
proof (induction items arbitrary: q)
  case (Cons item items)
  then have "topic_within (fst (produce_one q item)) topic \<or> topic \<in> p_topic ` set items" using topic_within_produce_one by auto
  then show ?case using Cons.IH by (simp add: case_prod_beta)
qed simp

end
