(* ===== verification/Fuzz_Targets.thy ===== *)
theory Fuzz_Targets
  imports Fuzz_Driver Queue_Limits Sub_Tracking Client_Handlers Http
begin

text \<open>
  The fuzz targets under \<^verbatim>\<open>fuzz/fuzz_targets\<close> as functions that say whether every assertion of the
  target holds on an input. A target that reads a clock takes the readings with its input. Each is
  shown to hold on every input.
\<close>

section \<open>\<^verbatim>\<open>http_request\<close>\<close>

definition http_request_target :: "bytes \<Rightarrow> bool" where
  "http_request_target data \<longleftrightarrow> (let path = parse_path data in
     13 \<notin> set path \<and> 10 \<notin> set path \<and> \<not> list_ex is_whitespace path \<and> of_char (CHR ''?'') \<notin> set path)"

lemma http_request_passes: "http_request_target data"
  using parse_path_clean [of _ data] by (auto simp: http_request_target_def Let_def list_ex_iff)

section \<open>\<^verbatim>\<open>frame_roundtrip\<close>\<close>

definition frame_roundtrip_target :: "bytes \<Rightarrow> bool" where
  "frame_roundtrip_target data \<longleftrightarrow>
     (let data = take (min (length data) (64 * 1024)) data in
      (case read_frame MAX_CLIENT_FRAME (write_frame data) of Inl _ \<Rightarrow> False | Inr (got, _) \<Rightarrow> got = data) \<and>
      isl (read_frame MAX_CLIENT_FRAME (to_be_bytes (of_nat MAX_CLIENT_FRAME + 1))) \<and>
      (data \<noteq> [] \<longrightarrow> isl (read_frame MAX_CLIENT_FRAME (to_be_bytes (of_nat (length data)) @ take (length data - 1) data))))"

lemma frame_roundtrip_passes: "frame_roundtrip_target data"
proof -
  define d where "d = take (min (length data) (64 * 1024)) data"
  have len: "length d \<le> MAX_CLIENT_FRAME" "length d < 2 ^ 32" by (simp_all add: d_def MAX_CLIENT_FRAME_def)
  have n: "unat (of_nat (length d) :: u32) = length d" using len(2) by (simp add: unsigned_of_nat take_bit_nat_eq_self)
  have "read_frame MAX_CLIENT_FRAME (write_frame d) = Inr (d, [])"
    using read_len_frame [OF len, of "[]"] by (simp add: read_frame_def read_body_eq read_exact_def)
  moreover have "isl (read_frame MAX_CLIENT_FRAME (to_be_bytes (of_nat MAX_CLIENT_FRAME + 1)))"
    using read_len_header [of MAX_CLIENT_FRAME _ "[]"] by (simp add: read_frame_def MAX_CLIENT_FRAME_def)
  moreover have "isl (read_frame MAX_CLIENT_FRAME (to_be_bytes (of_nat (length d)) @ take (length d - 1) d))" if "d \<noteq> []"
    using that len(1) n by (simp add: read_frame_def read_len_header read_body_eq read_exact_def)
  ultimately show ?thesis unfolding frame_roundtrip_target_def d_def [symmetric] Let_def by simp
qed

section \<open>\<^verbatim>\<open>sub_tracking\<close>\<close>

datatype Track = TrDeliver u8 u8 "16 word" | TrResolve u8 bool | TrTick "16 word" | TrCount "16 word"

text \<open>One step, \<open>None\<close> when an assertion fails.\<close>

fun track_step :: "SubTracking \<Rightarrow> u64 \<Rightarrow> Track \<Rightarrow> (SubTracking \<times> u64) option" where
  "track_step t now_ms (TrDeliver offset lid vis) =
     Some (fst (deliver (ucast offset) (ucast lid) (saturating_add now_ms (ucast vis)) now_ms t), now_ms)"
| "track_step t now_ms (TrResolve lid is_ack) =
     Some (fst (resolve (ucast lid) (if is_ack then Some (saturating_add now_ms 5000) else None) t), now_ms)"
| "track_step t now_ms (TrTick dt) = Some (t, saturating_add now_ms (ucast dt))"
| "track_step t now_ms (TrCount grace) =
     (case live_count now_ms (ucast grace) t of (t', live) \<Rightarrow> if live \<le> fst (debug_sizes t) then Some (t', now_ms) else None)"

fun track_steps :: "SubTracking \<Rightarrow> u64 \<Rightarrow> Track list \<Rightarrow> (SubTracking \<times> u64) option" where
  "track_steps t now_ms [] = Some (t, now_ms)"
| "track_steps t now_ms (step # steps) = (case track_step t now_ms step of
     None \<Rightarrow> None
   | Some (t, now_ms) \<Rightarrow> if debug_check_invariants t then track_steps t now_ms steps else None)"

definition sub_tracking_target :: "Track list \<Rightarrow> bool" where
  "sub_tracking_target steps = (case track_steps sub_default 0 (take 512 steps) of
     None \<Rightarrow> False
   | Some (t, now_ms) \<Rightarrow>
       (let now_ms = saturating_add now_ms 1000000;
            t = foldl (\<lambda>t lid. fst (resolve (of_nat lid) None t)) t [0..<256];
            t = fst (live_count now_ms 0 t)
        in debug_sizes t = (0, 0, 0)))"

text \<open>The target reuses lease ids freely, so less holds than in a session: a lease id leads to a tracked offset that lists it.\<close>

definition weak_inv :: "SubTracking \<Rightarrow> bool" where
  "weak_inv t \<longleftrightarrow>
     (\<forall>lid offset. bget (lease_to_offset t) lid = Some offset \<longrightarrow> (\<exists>track. bget (by_offset t) offset = Some track \<and> lid \<in> set (leases track))) \<and>
     (\<forall>offset track. bget (by_offset t) offset = Some track \<longrightarrow>
        length (leases track) \<le> SUBSCRIBE_MAX_LEASE_ALIASES \<and> track_lease track \<in> set (leases track))"

lemma weak_inv_default: "weak_inv sub_default"
  by (simp add: weak_inv_def sub_default_def)

lemma weak_inv_checks:
  assumes "weak_inv t"
  shows "debug_check_invariants t"
proof -
  have "case bget (by_offset t) offset of None \<Rightarrow> False | Some track \<Rightarrow> lid \<in> set (leases track)"
    if "bget (lease_to_offset t) lid = Some offset" for lid offset
    using assms that by (fastforce simp: weak_inv_def)
  moreover have "length (leases track) \<le> SUBSCRIBE_MAX_LEASE_ALIASES + 1 \<and> track_lease track \<in> set (leases track)"
    if "bget (by_offset t) offset = Some track" for offset track
    using assms that by (fastforce simp: weak_inv_def)
  ultimately show ?thesis by (auto simp: debug_check_invariants_def list_all_iff bget_entries)
qed

lemma weak_inv_forget:
  assumes "weak_inv t" and "bget (by_offset t) offset = Some track"
  shows "weak_inv (t\<lparr>by_offset := bremove offset (by_offset t), lease_to_offset := remove_all (leases track) (lease_to_offset t), acked_recently := a\<rparr>)"
  using assms by (fastforce simp: weak_inv_def)

lemma weak_inv_resolve: "weak_inv t \<Longrightarrow> weak_inv (fst (resolve lid acked_until t))"
  using weak_inv_forget by (auto simp: resolve_def split: option.splits)

lemma weak_inv_forget_offset: "weak_inv t \<Longrightarrow> weak_inv (forget_offset t offset)"
  using weak_inv_forget [of t offset _ "acked_recently t"] by (auto simp: forget_offset_def split: option.splits)

lemma weak_inv_live_count: "weak_inv t \<Longrightarrow> weak_inv (fst (live_count now_ms grace_ms t))"
proof -
  assume "weak_inv t"
  then have "weak_inv (t\<lparr>acked_recently := a\<rparr>)" for a by (simp add: weak_inv_def)
  then show ?thesis unfolding live_count_def Let_def fst_conv by (rule foldl_invariant) (rule weak_inv_forget_offset)
qed

lemma weak_inv_deliver:
  assumes inv: "weak_inv t"
  shows "weak_inv (fst (deliver offset lid deadline now_ms t))"
proof -
  have l2o: "\<exists>track. bget (by_offset t) offset' = Some track \<and> lid' \<in> set (leases track)" if "bget (lease_to_offset t) lid' = Some offset'" for lid' offset'
    using inv that by (simp add: weak_inv_def)
  have tr: "length (leases track) \<le> SUBSCRIBE_MAX_LEASE_ALIASES" "track_lease track \<in> set (leases track)"
    if "bget (by_offset t) offset' = Some track" for offset' track
    using inv that by (auto simp: weak_inv_def)
  show ?thesis
  proof (cases "bget (by_offset t) offset")
    case None
    then show ?thesis using inv l2o tr
      by (fastforce simp: deliver_def weak_inv_def SUBSCRIBE_MAX_LEASE_ALIASES_def)
  next
    case (Some track)
    obtain old rest where l: "leases track = old # rest" using tr(2) [OF Some] by (cases "leases track") auto
    show ?thesis
    proof (cases "case bget (acked_recently t) offset of Some until \<Rightarrow> until > now_ms | None \<Rightarrow> False")
      case True
      then show ?thesis using inv by (simp add: deliver_def)
    next
      case False
      then show ?thesis using l2o tr Some l
        by (fastforce simp: deliver_def weak_inv_def track_refresh_def Let_def)
    qed
  qed
qed

text \<open>No deadline lies more than a 16-bit interval ahead, no acknowledgement is remembered for more than five seconds.\<close>

definition times_inv :: "nat \<Rightarrow> SubTracking \<Rightarrow> u64 \<Rightarrow> bool" where
  "times_inv n t now_ms \<longleftrightarrow> unat now_ms \<le> n * 65535 \<and>
     (\<forall>offset track. bget (by_offset t) offset = Some track \<longrightarrow> unat (track_deadline track) \<le> unat now_ms + 65535) \<and>
     (\<forall>offset until. bget (acked_recently t) offset = Some until \<longrightarrow> unat until \<le> unat now_ms + 5000)"

lemma unat_ucast16: "unat (ucast (x :: 16 word) :: u64) \<le> 65535"
  using unat_le_max [of x] by (simp add: unsigned_ucast_eq take_bit_nat_eq_self)

lemma saturating_add_le: "unat (saturating_add x y) \<le> unat x + unat y"
  by (simp add: unat_saturating_add)

lemma resolve_tracked: "bget (by_offset (fst (resolve lid until t))) offset = Some track \<Longrightarrow> bget (by_offset t) offset = Some track"
  by (auto simp: resolve_def split: option.splits if_splits)

lemma resolve_acked: "bget (acked_recently (fst (resolve lid until t))) offset = Some u \<Longrightarrow> bget (acked_recently t) offset = Some u \<or> until = Some u"
  by (auto simp: resolve_def split: option.splits if_splits)

lemma deliver_tracked: "bget (by_offset (fst (deliver offset' lid deadline now_ms t))) offset = Some track \<Longrightarrow>
    bget (by_offset t) offset = Some track \<or> track_deadline track = deadline"
  by (auto simp: deliver_def Let_def track_refresh_def split: option.splits if_splits)

lemma deliver_acked: "bget (acked_recently (fst (deliver offset' lid deadline now_ms t))) offset = Some u \<Longrightarrow> bget (acked_recently t) offset = Some u"
  by (auto simp: deliver_def Let_def split: option.splits if_splits)

lemma live_count_le: "snd (live_count now_ms grace t) \<le> blen (by_offset t)"
proof -
  let ?t = "fst (live_count now_ms grace t)"
  have "snd (live_count now_ms grace t) \<le> length (bvalues (by_offset ?t))" by (simp add: live_count_def Let_def)
  also have "\<dots> = card (dom (bget (by_offset ?t)))" by (simp add: bvalues_def blen_def [symmetric] card_dom_bget)
  also have "\<dots> \<le> card (dom (bget (by_offset t)))" by (rule card_mono) (auto simp: by_offset_live finite_dom_bget split: option.splits)
  finally show ?thesis by (simp add: card_dom_bget)
qed

lemma track_step_ok:
  assumes "weak_inv t" and "times_inv n t now_ms"
  obtains t' now' where "track_step t now_ms step = Some (t', now')" "weak_inv t'" "times_inv (Suc n) t' now'"
proof (cases step)
  case (TrDeliver offset lid vis)
  have "unat (saturating_add now_ms (ucast vis)) \<le> unat now_ms + 65535" using saturating_add_le [of now_ms "ucast vis"] unat_ucast16 [of vis] by simp
  then have "times_inv (Suc n) (fst (deliver (ucast offset) (ucast lid) (saturating_add now_ms (ucast vis)) now_ms t)) now_ms"
    using assms(2) by (auto simp: times_inv_def dest!: deliver_tracked deliver_acked)
  with weak_inv_deliver [OF assms(1)] show thesis using that TrDeliver by simp
next
  case (TrResolve lid is_ack)
  have "unat (saturating_add now_ms 5000) \<le> unat now_ms + 5000" using saturating_add_le [of now_ms 5000] by simp
  then have "times_inv (Suc n) (fst (resolve (ucast lid) (if is_ack then Some (saturating_add now_ms 5000) else None) t)) now_ms"
    using assms(2) by (auto simp: times_inv_def dest!: resolve_tracked resolve_acked split: if_splits)
  with weak_inv_resolve [OF assms(1)] show thesis using that TrResolve by simp
next
  case (TrTick dt)
  have "unat (saturating_add now_ms (ucast dt)) \<le> unat now_ms + 65535" "unat now_ms \<le> unat (saturating_add now_ms (ucast dt))"
    using saturating_add_le [of now_ms "ucast dt"] unat_ucast16 [of dt] saturating_add_ge [of now_ms "ucast dt"] by (simp_all add: word_le_nat_alt)
  then have "times_inv (Suc n) t (saturating_add now_ms (ucast dt))" using assms(2) by (fastforce simp: times_inv_def)
  with assms(1) show thesis using that TrTick by simp
next
  case (TrCount grace)
  have "times_inv (Suc n) (fst (live_count now_ms (ucast grace) t)) now_ms"
    using assms(2) by (auto simp: times_inv_def by_offset_live acked_recently_live bget_retain split: option.splits if_splits)
  with weak_inv_live_count [OF assms(1)] live_count_le [of now_ms "ucast grace" t] show thesis
    using that TrCount by (simp add: case_prod_beta debug_sizes_def)
qed

lemma track_steps_ok:
  "weak_inv t \<Longrightarrow> times_inv n t now_ms \<Longrightarrow>
   \<exists>t' now'. track_steps t now_ms steps = Some (t', now') \<and> weak_inv t' \<and> times_inv (n + length steps) t' now'"
proof (induction steps arbitrary: n t now_ms)
  case (Cons step steps)
  obtain t1 now1 where s: "track_step t now_ms step = Some (t1, now1)" "weak_inv t1" "times_inv (Suc n) t1 now1"
    using track_step_ok [OF Cons.prems] by blast
  from Cons.IH [OF s(2,3)] show ?case using s(1) weak_inv_checks [OF s(2)] by simp
qed simp

lemma drained:
  assumes "weak_inv t" and "times_inv 512 t now_ms"
  shows "debug_sizes (fst (live_count (saturating_add now_ms 1000000) 0 t)) = (0, 0, 0)"
proof -
  let ?now = "saturating_add now_ms 1000000" and ?t = "fst (live_count (saturating_add now_ms 1000000) 0 t)"
  have now: "unat ?now = unat now_ms + 1000000" using assms(2) by (simp add: times_inv_def unat_saturating_add)
  have add0: "saturating_add d 0 = d" for d :: u64 by (simp add: saturating_add_def)
  have "bget (by_offset ?t) offset = None" for offset
    using assms(2) now by (fastforce simp: by_offset_live times_inv_def add0 word_le_nat_alt split: option.splits)
  moreover have "bget (lease_to_offset ?t) lid = None" for lid
    using weak_inv_live_count [OF assms(1), of ?now 0] calculation unfolding weak_inv_def by (metis option.distinct(1) option.exhaust)
  moreover have "bget (acked_recently ?t) offset = None" for offset
    using assms(2) now by (fastforce simp: acked_recently_live bget_retain times_inv_def word_less_nat_alt split: option.splits)
  ultimately show ?thesis by (simp add: debug_sizes_def blen_0_iff bis_empty_iff)
qed


section \<open>\<^verbatim>\<open>rate_limiter\<close>\<close>

fun limiter_calls :: "real \<Rightarrow> real \<Rightarrow> limiter \<Rightarrow> (u32 \<times> u32 \<times> nat) list \<Rightarrow> bool" where
  "limiter_calls rate brst bks [] = True"
| "limiter_calls rate brst bks ((want, amount, now_ns) # calls) =
     (case take_tokens ''t'' rate brst want now_ns bks of (bks, res) \<Rightarrow>
        (case res of
           Inr granted \<Rightarrow> granted \<le> want \<and> (granted \<ge> 1 \<or> want = 0)
         | Inl retry_ms \<Rightarrow> want > 0 \<and> retry_ms > 0) \<and>
        (let bks = refund ''t'' amount brst bks in
         (case debug_tokens ''t'' bks of None \<Rightarrow> True | Some toks \<Rightarrow> toks \<le> brst + 1 / 2 ^ 52 \<and> toks \<ge> 0) \<and>
         limiter_calls rate brst bks calls))"

definition rate_limiter_target :: "real \<Rightarrow> u32 \<Rightarrow> (u32 \<times> u32 \<times> nat) list \<Rightarrow> bool" where
  "rate_limiter_target client_rate client_burst calls =
     (let rate_milli = as_u64 (round_f64 (client_rate * 1000))
      in rate_milli = 0 \<or> limiter_calls (real (unat rate_milli) / 1000) (real (unat (max client_burst 1))) bempty (take 64 calls))"

lemma retry_delay_positive:
  assumes "0 < rate" and "toks < 1"
  shows "0 < retry_delay toks rate"
proof -
  let ?n = "nat (min \<lceil>(1 - toks) / rate * 1000\<rceil> (2 ^ 64 - 1))"
  have "0 < (1 - toks) / rate * 1000" using assms by simp
  then have n: "0 < ?n" "?n < 2 ^ 64" by (simp_all add: nat_less_iff)
  from n(2) have "unat (of_nat ?n :: u64) = ?n" by (intro unat_of_nat_small) simp
  then have "unat (retry_delay toks rate) = ?n" using assms(1) by (simp add: retry_delay_def as_u64_def)
  then show ?thesis using n(1) by (simp add: word_less_nat_alt)
qed

lemma take_tokens_answer:
  assumes "0 < rate" and "1 \<le> brst" and "\<And>b. bget bks topic = Some b \<Longrightarrow> bucket_ok brst b"
    and "take_tokens topic rate brst want now_ns bks = (bks', res)"
  shows "case res of Inr granted \<Rightarrow> granted \<le> want \<and> (granted \<ge> 1 \<or> want = 0) | Inl retry_ms \<Rightarrow> want > 0 \<and> retry_ms > 0"
    and "bget bks' topic = Some b' \<Longrightarrow> bucket_ok brst b'"
proof -
  define b where "b = refill (case bget bks topic of Some b \<Rightarrow> b | None \<Rightarrow> \<lparr>tokens = brst, last_ns = now_ns\<rparr>) rate brst now_ns"
  define g where "g = min (as_u32 (of_int \<lfloor>tokens b\<rfloor>)) want"
  have ok: "bucket_ok brst b" unfolding b_def using assms(1-3) by (intro refill_ok) (auto simp: bucket_ok_def split: option.splits)
  then have pos: "0 \<le> tokens b" by (simp add: bucket_ok_def)
  have res: "(bks', res) = (if want = 0 then (bks, Inr 0) else if g = 0 then (binsert topic b bks, Inl (retry_delay (tokens b) rate))
      else (binsert topic (b\<lparr>tokens := tokens b - real (unat g)\<rparr>) bks, Inr g))"
    unfolding g_def b_def using assms(4) [symmetric] unfolding take_tokens_def Let_def .
  have "0 < retry_delay (tokens b) rate" if "g = 0" "want \<noteq> 0"
  proof (rule retry_delay_positive [OF assms(1)])
    have "as_u32 (of_int \<lfloor>tokens b\<rfloor>) = 0" using that by (auto simp: g_def min_def split: if_splits)
    then have "min (nat \<lfloor>tokens b\<rfloor>) (2 ^ 32 - 1) = 0" using unat_as_u32 [OF pos] by simp
    then show "tokens b < 1" by (simp add: min_def floor_le_iff split: if_splits)
  qed
  moreover have "x \<noteq> 0 \<Longrightarrow> 1 \<le> x" for x :: u32 by (simp add: word_le_nat_alt Suc_le_eq unat_gt_0)
  then have g: "g \<le> want" "g \<noteq> 0 \<Longrightarrow> 1 \<le> g" unfolding g_def by (simp, blast)
  ultimately show "case res of Inr granted \<Rightarrow> granted \<le> want \<and> (granted \<ge> 1 \<or> want = 0) | Inl retry_ms \<Rightarrow> want > 0 \<and> retry_ms > 0"
    using res g by (auto simp: word_gt_0 split: if_splits)
  have "real (unat g) \<le> tokens b" unfolding g_def by (rule grant_le_tokens [OF pos])
  then have "bucket_ok brst (b\<lparr>tokens := tokens b - real (unat g)\<rparr>)" using ok unfolding bucket_ok_def by (simp add: diff_le_eq add_increasing2)
  then show "bget bks' topic = Some b' \<Longrightarrow> bucket_ok brst b'" using res ok assms(3) by (auto split: if_splits)
qed

lemma refund_ok:
  assumes "\<And>b. bget bks topic = Some b \<Longrightarrow> bucket_ok brst b" and "0 \<le> brst" and "bget (refund topic amount brst bks) topic = Some b'"
  shows "bucket_ok brst b'"
  using assms by (auto simp: refund_def bucket_ok_def split: if_splits)

lemma limiter_calls_pass:
  "0 < rate \<Longrightarrow> 1 \<le> brst \<Longrightarrow> (\<And>b. bget bks ''t'' = Some b \<Longrightarrow> bucket_ok brst b) \<Longrightarrow> limiter_calls rate brst bks calls"
proof (induction calls arbitrary: bks)
  case (Cons call calls)
  obtain want amount now_ns where c: "call = (want, amount, now_ns)" by (metis prod_cases3)
  obtain bks' res where t: "take_tokens ''t'' rate brst want now_ns bks = (bks', res)" by fastforce
  note ans = take_tokens_answer [OF Cons.prems t]
  have ok: "bucket_ok brst b" if "bget (refund ''t'' amount brst bks') ''t'' = Some b" for b
    by (rule refund_ok [OF ans(2) _ that]) (use Cons.prems(2) in simp_all)
  then have "case debug_tokens ''t'' (refund ''t'' amount brst bks') of None \<Rightarrow> True | Some toks \<Rightarrow> toks \<le> brst + 1 / 2 ^ 52 \<and> toks \<ge> 0"
    by (fastforce simp: debug_tokens_def bucket_ok_def split: option.splits)
  moreover have "limiter_calls rate brst (refund ''t'' amount brst bks') calls" by (rule Cons.IH [OF Cons.prems(1,2) ok])
  ultimately show ?case using ans(1) by (simp add: c t Let_def)
qed simp

lemma rate_limiter_passes: "rate_limiter_target client_rate client_burst calls"
proof -
  have "1 \<le> unat (max client_burst 1)" by (simp add: max_def word_le_nat_alt)
  then have "real 1 \<le> real (unat (max client_burst 1))" by (simp only: of_nat_le_iff)
  then have "1 \<le> real (unat (max client_burst 1))" by (simp only: of_nat_1)
  moreover have "0 < real (unat w) / 1000" if "w \<noteq> 0" for w :: u64
    using that by (simp only: zero_less_divide_iff of_nat_0_less_iff) (simp add: unat_gt_0)
  ultimately have "w \<noteq> 0 \<Longrightarrow> limiter_calls (real (unat w) / 1000) (real (unat (max client_burst 1))) bempty cs" for w :: u64 and cs
    by (intro limiter_calls_pass) auto
  then show ?thesis unfolding rate_limiter_target_def Let_def by blast
qed

section \<open>\<^verbatim>\<open>queue_ops\<close>\<close>

fun stored_topics :: "AppRequest \<Rightarrow> string list" where
  "stored_topics (Produce topic _ _ _ _ _ _) = [topic]"
| "stored_topics (ProduceMany items) = remdups_adj (sort (map p_topic items))"
| "stored_topics _ = []"

definition cap_respected :: "Driver \<Rightarrow> Queue \<Rightarrow> string \<Rightarrow> bool" where
  "cap_respected d q topic = (case bget (retention d) topic of
     None \<Rightarrow> True
   | Some cap \<Rightarrow> cap = 0 \<or> (case debug_topic_len q topic of None \<Rightarrow> True | Some len \<Rightarrow> of_nat len \<le> cap))"

fun queue_ops_loop :: "Driver \<Rightarrow> Queue \<Rightarrow> Op list \<Rightarrow> bool" where
  "queue_ops_loop d q [] = True"
| "queue_ops_loop d q (op # ops) = (case driver_request d op of
     (d, None) \<Rightarrow> queue_ops_loop d q ops
   | (d, Some req) \<Rightarrow>
       (let touched = stored_topics req; (q, resp) = apply_request q req; d = observe d resp
        in validate q = Inr () \<and> list_all (cap_respected d q) touched \<and> queue_ops_loop d q ops))"

definition queue_ops_target :: "Op list \<Rightarrow> bool" where
  "queue_ops_target ops = queue_ops_loop driver_new queue_default (take MAX_OPS ops)"

lemma topic_name_short: "length (topic_name n) = 2"
proof -
  have "unat (n mod TOPIC_ALPHABET) < 10" by (simp add: TOPIC_ALPHABET_def unat_mod)
  then show ?thesis by (simp add: topic_name_def decimal.simps)
qed

lemma card_topic_names: "A \<subseteq> range topic_name \<Longrightarrow> card A \<le> 256"
  using card_mono [of "range topic_name" A] card_image_le [of "UNIV :: u8 set" topic_name] by (simp add: card_word)

lemma driver_topics: "driver_request d op = (d', Some req) \<Longrightarrow> request_topics req \<subseteq> range topic_name"
  by (cases op) (auto simp: Let_def produce_item_def)

lemma stored_topics_request: "set (stored_topics req) \<subseteq> request_topics req"
  by (cases req) auto

lemma retention_observe [simp]: "retention (observe d resp) = retention d"
proof (cases resp)
  case (Polled items)
  have "retention (foldl (\<lambda>d i. d\<lparr>seen_leases := remember (seen_leases d) (d_lease_id i), seen_offsets := remember (seen_offsets d) (d_offset i)\<rparr>) d items) = retention d"
    for d by (induction items arbitrary: d) simp_all
  then show ?thesis by (simp add: Polled)
next
  case (ProducedMany offsets)
  have "retention (foldl (\<lambda>d off. d\<lparr>seen_offsets := remember (seen_offsets d) off\<rparr>) d offsets) = retention d" for d
    by (induction offsets arbitrary: d) simp_all
  then show ?thesis by (simp add: ProducedMany)
qed simp_all

text \<open>The limits the driver remembers are those of the queue; every topic has one of the driver's few names.\<close>

definition ops_inv :: "nat \<Rightarrow> Driver \<Rightarrow> Queue \<Rightarrow> bool" where
  "ops_inv n d q \<longleftrightarrow> topics_all topic_wf n q \<and> set (bkeys (topics q)) \<subseteq> range topic_name \<and>
     (\<forall>topic cap. bget (retention d) topic = Some cap \<longrightarrow> (\<exists>ma. limits (topics q) topic = Some (cap, ma)))"

lemma few_topics: "set (bkeys (topics q)) \<subseteq> range topic_name \<Longrightarrow> blen (topics q) < MAX_TOPICS"
  using card_topic_names [of "set (bkeys (topics q))"] by (simp add: distinct_card MAX_TOPICS_def)

lemma driver_items_accepted:
  assumes "set (bkeys (topics q)) \<subseteq> range topic_name"
  shows "check_produce q (map (produce_item d) is) = Inr ()"
proof -
  have short: "length ''p'' + length (decimal (unat (n mod 4 :: u8))) = 2" for n
  proof -
    have "unat (n mod 4 :: u8) < 10" by (simp add: unat_mod)
    then show ?thesis by (simp add: decimal.simps)
  qed
  have ok: "item_ok (produce_item d i)" for i
    using topic_name_short [of "i_topic i"] short [of "i_producer i"]
    by (simp add: item_ok_def produce_item_def MAX_NAME_BYTES_def MAX_PRODUCER_ID_BYTES_def)
  have "set (bkeys (topics q)) \<union> p_topic ` set (map (produce_item d) is) \<subseteq> range topic_name" using assms by (auto simp: produce_item_def)
  from card_topic_names [OF this] show ?thesis using ok by (simp add: check_produce_iff list_all_iff MAX_TOPICS_def)
qed

lemma driver_produces:
  assumes "driver_request d op = (d', Some req)" and "set (bkeys (topics q)) \<subseteq> range topic_name" and "topic \<in> set (stored_topics req)"
  shows "topic_within (fst (apply_request q req)) topic"
proof -
  note chk = driver_items_accepted [OF assms(2)]
  show ?thesis
  proof (cases op)
    case (OpProduce i)
    have req: "req = produce_request (produce_item d i)" using assms(1) OpProduce by (auto simp: produce_request_def Let_def)
    then have "topic = p_topic (produce_item d i)" using assms(3) by (simp add: produce_request_def)
    then show ?thesis using chk [of d "[i]"] topic_within_produce_one [of q topic "produce_item d i"]
      by (simp add: req apply_produce_request apply_checked_def)
  next
    case (OpProduceMany "is")
    then show ?thesis using assms(1,3) chk [of d "take MAX_BATCH is"] topic_within_produce_all [of q topic "map (produce_item d) (take MAX_BATCH is)"]
      by (auto simp: apply_checked_def case_prod_beta)
  qed (use assms(1,3) in auto)
qed

lemma ops_inv_step:
  assumes "ops_inv n d q" and "driver_request d op = (d', Some req)" and "n + 255 \<le> counter_limit"
  shows "ops_inv (n + 255) (observe d' resp) (fst (apply_request q req))"
proof -
  have inv: "topics_all topic_wf n q" "set (bkeys (topics q)) \<subseteq> range topic_name"
    "\<And>topic cap. bget (retention d) topic = Some cap \<Longrightarrow> \<exists>ma. limits (topics q) topic = Some (cap, ma)"
    using assms(1) by (auto simp: ops_inv_def)
  have cost: "request_cost req \<le> 255" by (rule driver_request_cost [OF assms(2)])
  have "topics_all topic_wf (n + request_cost req) (fst (apply_request q req))"
    by (rule wf.all_step [OF inv(1)]) (use cost assms(3) in simp)
  then have "topics_all topic_wf (n + 255) (fst (apply_request q req))" by (rule wf.all_mono) (use cost assms(3) in simp_all)
  moreover have "set (bkeys (topics (fst (apply_request q req)))) \<subseteq> range topic_name"
    using keys_step [of q req] driver_topics [OF assms(2)] inv(2) by blast
  moreover have "\<exists>ma. limits (topics (fst (apply_request q req))) topic = Some (cap, ma)"
    if cap: "bget (retention d') topic = Some cap" for topic cap
  proof (cases "\<exists>mm ma. req = SetRetention topic mm ma")
    case True
    then obtain t mm ma where op: "op = OpSetRetention t mm ma" "topic = topic_name t" "req = SetRetention (topic_name t) (ucast mm) (ucast ma)" "cap = ucast mm"
      using assms(2) cap by (cases op) (auto simp: Let_def)
    have "check_topic q (topic_name t) = Inr ()"
      using few_topics [OF inv(2)] topic_name_short [of t] by (simp add: check_topic_ok MAX_NAME_BYTES_def)
    then show ?thesis by (simp add: op apply_checked_def limits_def retention_of_def)
  next
    case False
    have "req \<noteq> DeleteTopic topic" using assms(2) cap by (cases op) (auto simp: Let_def)
    moreover have "bget (retention d) topic = Some cap" using assms(2) cap False by (cases op) (auto simp: Let_def split: if_splits)
    ultimately show ?thesis using inv(3) limits_kept [of q topic _ req] False by blast
  qed
  ultimately show ?thesis by (simp add: ops_inv_def)
qed

lemma of_nat_le_cap: "len \<le> unat cap \<Longrightarrow> of_nat len \<le> (cap :: u64)"
  using unat_le_max [of cap] by (simp add: word_le_nat_alt unsigned_of_nat take_bit_nat_eq_self)

lemma queue_ops_loop_passes: "ops_inv n d q \<Longrightarrow> n + 255 * length ops \<le> counter_limit \<Longrightarrow> queue_ops_loop d q ops"
proof (induction ops arbitrary: n d q)
  case (Cons op ops)
  obtain d' ro where r: "driver_request d op = (d', ro)" by fastforce
  show ?case
  proof (cases ro)
    case None
    have "ops_inv n d' q" using Cons.prems(1) r None by (cases op) (auto simp: ops_inv_def Let_def)
    from Cons.IH [OF this] show ?thesis using Cons.prems(2) r None by simp
  next
    case (Some req)
    obtain q' resp where a: "apply_request q req = (q', resp)" by fastforce
    have inv: "ops_inv (n + 255) (observe d' resp) q'"
      using ops_inv_step [OF Cons.prems(1) r [unfolded Some], of resp] Cons.prems(2) a by simp
    have "validate q' = Inr ()" by (rule wf_valid [of "n + 255"]) (use inv Cons.prems(2) in \<open>simp_all add: ops_inv_def\<close>)
    moreover have "cap_respected (observe d' resp) q' topic" if t: "topic \<in> set (stored_topics req)" for topic
    proof -
      have "topic_within q' topic"
        using driver_produces [OF r [unfolded Some] _ t, of q] Cons.prems(1) a by (simp add: ops_inv_def)
      then obtain st where st: "bget (topics q') topic = Some st" "within_limit st" by (auto simp: topic_within_def)
      have "retain_max_messages st = cap" if "bget (retention d') topic = Some cap" for cap
        using inv that st(1) by (fastforce simp: ops_inv_def limits_def retention_of_def)
      then show ?thesis using st
        by (auto simp: cap_respected_def debug_topic_len_def within_limit_def effective_retention_def word_gt_0 split: option.splits if_splits
            intro: of_nat_le_cap)
    qed
    moreover have "queue_ops_loop (observe d' resp) q' ops" by (rule Cons.IH [OF inv]) (use Cons.prems(2) in simp)
    ultimately show ?thesis using r Some a by (simp add: list_all_iff)
  qed
qed simp

text \<open>(C18) Whatever requests a fuzzer drives into an empty queue, the state is valid after every one of them, and no
  topic a produce wrote to holds more messages than the retention limit set for it.\<close>

theorem queue_ops_passes: "queue_ops_target ops"
proof -
  have "ops_inv 0 driver_new queue_default"
    by (simp add: ops_inv_def driver_new_def queue_default_def topics_all_def)
  moreover have "0 + 255 * length (take MAX_OPS ops) \<le> counter_limit" by (simp add: MAX_OPS_def counter_limit_eq)
  ultimately show ?thesis unfolding queue_ops_target_def by (rule queue_ops_loop_passes)
qed

section \<open>\<^verbatim>\<open>batch_equivalence\<close>\<close>

definition produced_offsets :: "AppResponse list \<Rightarrow> Offset list option" where
  "produced_offsets resps = those (map (\<lambda>resp. case resp of Produced offset \<Rightarrow> Some offset | _ \<Rightarrow> None) resps)"

definition batch_equivalence_target :: "(Queue \<Rightarrow> bytes) \<Rightarrow> Item list \<Rightarrow> u8 \<Rightarrow> u8 \<Rightarrow> bool \<Rightarrow> bool" where
  "batch_equivalence_target encoder items topic grp is_nack \<longleftrightarrow> items = [] \<or>
     (let many = map (produce_item driver_new) (take 32 items);
          (batched, batch_resp) = apply_request queue_default (ProduceMany many);
          (single, resps) = apply_all queue_default (map produce_request many);
          t = topic_name topic; g = group_name grp
      in (case produced_offsets resps of None \<Rightarrow> False | Some one_by_one \<Rightarrow> batch_resp = ProducedMany one_by_one) \<and>
         encoder batched = encoder single \<and>
         (case (apply_request batched (Poll t g 64 1000 1), apply_request single (Poll t g 64 1000 1)) of
            ((batched, Polled batch_items), (single, Polled single_items)) \<Rightarrow>
              (let batch_leases = map d_lease_id batch_items; single_leases = map d_lease_id single_items;
                   batched = fst (apply_request batched (if is_nack then NackMany t g batch_leases else AckMany t g batch_leases));
                   single = fst (apply_all single (map (\<lambda>lid. if is_nack then Nack t g lid else Ack t g lid) single_leases));
                   batched = fst (apply_request batched (Ack t g (- 1)));
                   single = fst (apply_request single (Ack t g (- 1)))
               in batch_leases = single_leases \<and> encoder batched = encoder single)
          | _ \<Rightarrow> False))"

lemma group_name_short: "length (group_name n) = 2"
proof -
  have "unat (n mod GROUP_ALPHABET) < 10" by (simp add: GROUP_ALPHABET_def unat_mod)
  then show ?thesis by (simp add: group_name_def decimal.simps)
qed

lemma produced_offsets_map: "produced_offsets (map Produced offsets) = Some offsets"
  by (induction offsets) (simp_all add: produced_offsets_def)

lemma apply_nacks:
  "fst (apply_all q (map (Nack topic grp) lids)) = q\<lparr>topics := foldl (\<lambda>ts lid. nack ts topic grp lid) (topics q) lids\<rparr>"
  by (induction lids arbitrary: q) (simp_all add: case_prod_beta)

lemma acks_settled:
  assumes "\<And>t. bget (topics q) topic = Some t \<Longrightarrow> topic_caps t"
  shows "fst (apply_request (fst (apply_request q (AckMany topic grp lids))) (Ack topic grp lid)) =
    fst (apply_request (fst (apply_all q (map (Ack topic grp) lids))) (Ack topic grp lid))"
proof (cases "lids = []")
  case True
  have "bmodify topic (\<lambda>t. reclaim (ack_topic (reclaim t) grp lid)) (topics q) = bmodify topic (\<lambda>t. reclaim (ack_topic t grp lid)) (topics q)"
    by (rule bmodify_cong) (rule reclaim_ack_reclaim [OF assms])
  then show ?thesis using True by (simp add: reclaim_topic_def ack_def bmodify_bmodify o_def)
next
  case False
  then show ?thesis using assms by (simp add: apply_acks ack_many_topics)
qed

lemma batch_equivalence_passes: "batch_equivalence_target encoder items topic grp is_nack"
proof -
  define many where "many = map (produce_item driver_new) (take 32 items)"
  define t where "t = topic_name topic"
  define g where "g = group_name grp"
  define q where "q = fst (produce_all queue_default many)"
  define q1 where "q1 = fst (apply_request q (Poll t g 64 1000 1))"
  have chk: "check_produce queue_default many = Inr ()" unfolding many_def by (rule driver_items_accepted) (simp add: queue_default_def)
  have batch: "apply_request queue_default (ProduceMany many) = (q, ProducedMany (snd (produce_all queue_default many)))"
    using chk by (simp add: apply_checked_def case_prod_beta q_def)
  have one: "apply_all queue_default (map produce_request many) = (q, map Produced (snd (produce_all queue_default many)))"
    unfolding q_def by (rule apply_produce_all [OF chk])
  have "check_consumer t g = Inr ()"
    using topic_name_short [of topic] group_name_short [of grp] by (simp add: t_def g_def check_consumer_def check_name_def MAX_NAME_BYTES_def)
  then have "\<exists>polled. apply_request q (Poll t g 64 1000 1) = (q1, Polled polled)"
    by (simp add: q1_def apply_checked_def case_prod_beta)
  then obtain polled where p: "apply_request q (Poll t g 64 1000 1) = (q1, Polled polled)" by blast
  have "topic_caps st" if "bget (topics q1) t = Some st" for st
  proof -
    have cost: "total_cost (map produce_request many) \<le> 32"
      by (simp add: many_def produce_request_def total_cost_def o_def sum_list_triv)
    have "topics_all (\<lambda>n _. topic_caps) (total_cost (map produce_request many)) q"
      using caps.all_reachable [of "map produce_request many"] cost one by (simp add: counter_limit_eq)
    from caps.all_step [OF this, of "Poll t g 64 1000 1"] show ?thesis using cost p that by (simp add: counter_limit_eq topics_all_def)
  qed
  from acks_settled [OF this, where grp = g] have "encoder (fst (apply_request (fst (apply_request q1 (AckMany t g lids))) (Ack t g (- 1)))) =
      encoder (fst (apply_request (fst (apply_all q1 (map (Ack t g) lids))) (Ack t g (- 1))))" for lids by simp
  moreover have "fst (apply_request q1 (NackMany t g lids)) = fst (apply_all q1 (map (Nack t g) lids))" for lids by (simp add: apply_nacks)
  ultimately show ?thesis unfolding batch_equivalence_target_def many_def [symmetric] t_def [symmetric] g_def [symmetric] Let_def
    batch one prod.case produced_offsets_map option.case p AppResponse.case
    by (cases is_nack) (simp_all del: apply_request.simps)
qed

section \<open>\<^verbatim>\<open>queue_determinism\<close> and \<^verbatim>\<open>snapshot_roundtrip\<close>\<close>

text \<open>The loop with a snapshot before operation \<open>split\<close>; \<open>None\<close> when the snapshot does not decode. The encoding is postcard's.\<close>

fun split_run :: "(Queue \<Rightarrow> bytes) \<Rightarrow> (bytes \<Rightarrow> string + Queue) \<Rightarrow> nat \<Rightarrow> nat \<Rightarrow> Driver \<Rightarrow> Queue \<Rightarrow> Op list \<Rightarrow> (Queue \<times> AppResponse list) option" where
  "split_run encoder decoder split i d q [] = Some (q, [])"
| "split_run encoder decoder split i d q (op # ops) =
     (case (if i = split then decoder (encoder q) else Inr q) of
        Inl _ \<Rightarrow> None
      | Inr q \<Rightarrow> (case driver_request d op of
          (d, None) \<Rightarrow> split_run encoder decoder split (Suc i) d q ops
        | (d, Some req) \<Rightarrow> (case apply_request q req of
            (q, resp) \<Rightarrow> map_option (apsnd ((#) resp)) (split_run encoder decoder split (Suc i) (observe d resp) q ops))))"

definition queue_determinism_target :: "(Queue \<Rightarrow> bytes) \<Rightarrow> (bytes \<Rightarrow> string + Queue) \<Rightarrow> Op list \<Rightarrow> bool" where
  "queue_determinism_target encoder decoder ops \<longleftrightarrow>
     (let (a, ra) = run queue_default ops; (b, rb) = run queue_default ops; bounded = take MAX_OPS ops
      in ra = rb \<and> encoder a = encoder b \<and>
         (case split_run encoder decoder (length bounded div 2) 0 driver_new queue_default bounded of
            None \<Rightarrow> False
          | Some (c, rc) \<Rightarrow> ra = rc \<and> encoder a = encoder c))"

definition snapshot_roundtrip_target :: "(Queue \<Rightarrow> bytes) \<Rightarrow> (bytes \<Rightarrow> string + Queue) \<Rightarrow> Op list \<Rightarrow> Op list \<Rightarrow> bool" where
  "snapshot_roundtrip_target encoder decoder before_ops then_ops \<longleftrightarrow>
     (let a = fst (run queue_default before_ops); b = encoder a in
      case decoder b of
        Inl _ \<Rightarrow> False
      | Inr q \<Rightarrow> encoder q = b \<and> validate q = Inr () \<and>
          (let (a, ra) = run a then_ops; (q, rq) = run q then_ops in ra = rq \<and> encoder a = encoder q))"

lemma split_run_eq:
  assumes "\<And>q. decoder (encoder q) = Inr q"
  shows "split_run encoder decoder split i d q ops = Some (run_ops d q ops)"
  by (induction ops arbitrary: i d q) (auto simp: assms case_prod_beta apsnd_def map_prod_def split: prod.splits option.splits)

lemma queue_determinism_passes:
  assumes "\<And>q. decoder (encoder q) = Inr q"
  shows "queue_determinism_target encoder decoder ops"
  by (simp add: queue_determinism_target_def split_run_eq [OF assms] run_def case_prod_beta Let_def)

lemma snapshot_roundtrip_passes:
  assumes "\<And>q. decoder (encoder q) = Inr q"
  shows "snapshot_roundtrip_target encoder decoder before_ops then_ops"
  using fuzz_run_valid [OF refl, of before_ops] by (simp add: snapshot_roundtrip_target_def assms case_prod_beta Let_def)

end
