(* ===== verification/Queue_Installed.thy ===== *)
theory Queue_Installed
  imports Queue_Retained
begin

text \<open>
  Queues that come from a snapshot instead of a run from the empty queue. Installation accepts what
  \<^verbatim>\<open>Queue::validate\<close> accepts; this theory says what the accepted states still need for every later
  state to be accepted again, and shows two accepted states from which one ordinary request leads to a
  state that is refused.
\<close>

section \<open>What validation leaves open\<close>

text \<open>Facts of every reachable state that \<^verbatim>\<open>validate\<close> does not check: no acknowledged offset above the
  watermark is leased, and the remembered produces are older than the next offset, oldest first.\<close>

definition unchecked_ok :: "Queue \<Rightarrow> bool" where
  "unchecked_ok q \<longleftrightarrow> (\<forall>name t. bget (topics q) name = Some t \<longrightarrow>
     sorted_wrt (\<lambda>k k'. the (bget (dedup t) k) < the (bget (dedup t) k')) (dedup_order t) \<and>
     (\<forall>k offset. bget (dedup t) k = Some offset \<longrightarrow> offset < next_offset t) \<and>
     (\<forall>grp g. bget (groups t) grp = Some g \<longrightarrow> (\<forall>offset \<in> acked_above g. bget (leased_offsets g) offset = None)))"

definition counters_within :: "nat \<Rightarrow> Queue \<Rightarrow> bool" where
  "counters_within n q \<longleftrightarrow> unat (next_lease_id q) \<le> n \<and> (\<forall>name t. bget (topics q) name = Some t \<longrightarrow> topic_counters n t)"

lemma validated_wf:
  assumes "validate q = Inr ()" and "unchecked_ok q" and "counters_within n q"
  shows "topics_all topic_wf n q"
proof -
  have "topic_wf n (next_lease_id q) t" if t: "bget (topics q) name = Some t" for name t
  proof -
    have valid: "topic_valid (next_lease_id q) t" using assms(1) t by (auto simp: validate_ok queue_valid_def)
    have open_facts: "sorted_wrt (\<lambda>k k'. the (bget (dedup t) k) < the (bget (dedup t) k')) (dedup_order t)"
      "\<forall>k offset. bget (dedup t) k = Some offset \<longrightarrow> offset < next_offset t"
      "\<forall>grp g. bget (groups t) grp = Some g \<longrightarrow> (\<forall>offset \<in> acked_above g. bget (leased_offsets g) offset = None)"
      using assms(2) t by (auto simp: unchecked_ok_def)
    have "group_inv (next_offset t) (next_lease_id q) g" if "bget (groups t) grp = Some g" for grp g
      using valid open_facts(3) that by (simp add: topic_valid_def group_valid_def group_inv_def)
    with valid open_facts have "topic_inv (next_lease_id q) t" by (simp add: topic_valid_def topic_inv_def dedup_inv_def)
    then show ?thesis using assms(3) t by (simp add: topic_wf_def counters_within_def)
  qed
  then show ?thesis using assms(3) by (auto simp: topics_all_def counters_within_def)
qed

text \<open>(C16) A validated state stays valid: when the state a snapshot installs also has what \<^verbatim>\<open>validate\<close> leaves open, and its
  counters leave room for the requests, every state the requests lead to is accepted by \<^verbatim>\<open>validate\<close> again.\<close>

theorem validated_stays_valid:
  assumes "validate q = Inr ()" and "unchecked_ok q" and "counters_within n q" and "n + total_cost reqs \<le> counter_limit"
  shows "validate (fst (apply_all q reqs)) = Inr ()"
  by (rule wf_valid [OF wf.all_run [OF validated_wf [OF assms(1-3)] assms(4)] assms(4)])

definition plain_topic :: TopicState where
  "plain_topic = topic_default\<lparr>next_offset := 7\<rparr>"

definition plain_queue :: Queue where
  "plain_queue = queue_default\<lparr>topics := bliteral [(''a'', plain_topic)]\<rparr>"

theorem validated_stays_valid_witness: "validate (fst (apply_all plain_queue [CreateTopic ''b'', produce_request (sample_item ''a'' ''p'' 0 5)])) = Inr ()"
proof (rule validated_stays_valid [of _ 7])
  show "validate plain_queue = Inr ()"
    by (simp add: validate_ok queue_valid_def topic_valid_def plain_queue_def plain_topic_def queue_default_def topic_default_def btree_eval MAX_COUNTER_def dom_def DEDUP_CAPACITY_def)
  show "unchecked_ok plain_queue" "counters_within 7 plain_queue"
    by (simp_all add: unchecked_ok_def counters_within_def topic_counters_def plain_queue_def plain_topic_def queue_default_def topic_default_def btree_eval)
  show "7 + total_cost [CreateTopic ''b'', produce_request (sample_item ''a'' ''p'' 0 5)] \<le> counter_limit"
    by (simp add: produce_request_def counter_limit_eq)
qed

section \<open>Accepted states that do not stay valid\<close>

text \<open>A topic whose next offset is the largest that is accepted.\<close>

definition exhausted_queue :: Queue where
  "exhausted_queue = queue_default\<lparr>topics := bliteral [(''t0'', topic_default\<lparr>next_offset := MAX_COUNTER, groups := bliteral [(''g0'', group_default)]\<rparr>)]\<rparr>"

text \<open>A group that holds a lease on a message it has acknowledged out of order.\<close>

definition shared_group :: GroupState where
  "shared_group = \<lparr>ack_watermark = 0, acked_above = {1}, in_flight = bliteral [(0, \<lparr>lease_offset = 0, deadline_ms = 100\<rparr>), (1, \<lparr>lease_offset = 1, deadline_ms = 100\<rparr>)],
     leased_offsets = bliteral [(0, 100), (1, 100)], poll_count = 1, last_active_ms = 0\<rparr>"

definition shared_message :: "Offset \<Rightarrow> Message" where
  "shared_message offset = \<lparr>m_offset = offset, m_priority = 0, m_content_type = Raw, m_payload = [120], m_ts_ms = 0\<rparr>"

definition shared_queue :: Queue where
  "shared_queue = \<lparr>topics = bliteral [(''t0'', topic_default\<lparr>next_offset := 3, messages := bliteral [(0, shared_message 0), (1, shared_message 1), (2, shared_message 2)],
     groups := bliteral [(''g0'', shared_group)]\<rparr>)], next_lease_id = 2\<rparr>"

lemma exhausted_validates: "validate exhausted_queue = Inr ()"
  by (simp add: validate_ok queue_valid_def topic_valid_def group_valid_def lease_index_ok_def group_default_def
      exhausted_queue_def queue_default_def topic_default_def btree_eval MAX_COUNTER_def dom_def DEDUP_CAPACITY_def)

lemma exhausted_produce:
  "\<exists>t. bget (topics (fst (apply_request exhausted_queue (produce_request (sample_item ''t0'' [] 0 5))))) ''t0'' = Some t \<and>
     next_offset t = MAX_COUNTER + 1"
  by (simp add: exhausted_queue_def produce_request_def sample_item_def queue_eval MAX_COUNTER_def)

lemma shared_leases: "lease_index_ok shared_group"
  by (auto simp: lease_index_ok_def shared_group_def btree_eval split: if_splits intro: exI [of _ 0])

lemma shared_validates: "validate shared_queue = Inr ()"
proof -
  have "group_valid 3 2 shared_group"
    using shared_leases by (auto simp: group_valid_def shared_group_def btree_eval MAX_COUNTER_def split: if_splits)
  then show ?thesis
    by (auto simp: validate_ok queue_valid_def topic_valid_def shared_queue_def topic_default_def shared_message_def btree_eval MAX_COUNTER_def dom_def DEDUP_CAPACITY_def split: if_splits)
qed

lemma shared_ack:
  "\<exists>t g. bget (topics (fst (apply_request shared_queue (Ack ''t0'' ''g0'' 0)))) ''t0'' = Some t \<and> bget (groups t) ''g0'' = Some g \<and>
     ack_watermark g = 2 \<and> bget (in_flight g) 1 = Some \<lparr>lease_offset = 1, deadline_ms = 100\<rparr>"
  by (simp add: shared_queue_def shared_group_def shared_message_def queue_eval topic_default_def)

lemma exhausted_produce_refused: "validate (fst (apply_request exhausted_queue (produce_request (sample_item ''t0'' [] 0 5)))) \<noteq> Inr ()"
proof
  assume v: "validate (fst (apply_request exhausted_queue (produce_request (sample_item ''t0'' [] 0 5)))) = Inr ()"
  obtain t where t: "bget (topics (fst (apply_request exhausted_queue (produce_request (sample_item ''t0'' [] 0 5))))) ''t0'' = Some t"
      "next_offset t = MAX_COUNTER + 1"
    using exhausted_produce by blast
  then have "next_offset t \<le> MAX_COUNTER" using v unfolding validate_ok queue_valid_def topic_valid_def by blast
  with t(2) show False by (simp add: MAX_COUNTER_def)
qed

lemma shared_ack_refused: "validate (fst (apply_request shared_queue (Ack ''t0'' ''g0'' 0))) \<noteq> Inr ()"
proof
  assume v: "validate (fst (apply_request shared_queue (Ack ''t0'' ''g0'' 0))) = Inr ()"
  obtain t g where tg: "bget (topics (fst (apply_request shared_queue (Ack ''t0'' ''g0'' 0)))) ''t0'' = Some t" "bget (groups t) ''g0'' = Some g"
      "ack_watermark g = 2" "bget (in_flight g) 1 = Some \<lparr>lease_offset = 1, deadline_ms = 100\<rparr>"
    using shared_ack by blast
  then have "group_valid (next_offset t) (next_lease_id (fst (apply_request shared_queue (Ack ''t0'' ''g0'' 0)))) g"
    using v unfolding validate_ok queue_valid_def topic_valid_def by blast
  then have "ack_watermark g \<le> 1" using tg(4) unfolding group_valid_def by fastforce
  with tg(3) show False by (simp add: word_le_nat_alt)
qed


end
