(* ===== verification/Fuzz_Stores.thy ===== *)
theory Fuzz_Stores
  imports Fuzz_Driver Queue_Installed Recovery Secrets
begin

text \<open>
  The fuzz targets on stores: \<^verbatim>\<open>snapshot_install\<close> with the shapes of old snapshots that
  \<^verbatim>\<open>fuzz/src/lib.rs\<close> builds for it, \<^verbatim>\<open>recovery_state\<close> and \<^verbatim>\<open>log_entry_decode\<close>. A target is a function that
  says whether all its assertions hold; an \<^verbatim>\<open>expect\<close> is an assertion. postcard is the parameter it is in
  the stores. The private types of old snapshots and their mirrors in the fuzz crate are serialized
  alike and share their model.
\<close>

section \<open>Shapes of old snapshots\<close>

record SnapshotShape =
  sh_next_offset :: u64
  sh_message_offsets :: "u64 list"
  sh_ack_watermark :: u64
  sh_acked_above :: "u64 list"
  sh_leases :: "(u64 \<times> u64 \<times> u64) list"
  sh_leased_offsets :: "(u64 \<times> u64) list"
  sh_next_lease_id :: u64
  sh_retain_max_messages :: u64
  sh_retain_max_age_ms :: u64
  sh_poll_count :: u64

definition shape_message :: "u64 \<Rightarrow> Message" where
  "shape_message offset = \<lparr>m_offset = offset, m_priority = 0, m_content_type = Raw, m_payload = [120], m_ts_ms = 0\<rparr>"

definition shape_group :: "SnapshotShape \<Rightarrow> GroupStateV0" where
  "shape_group sh = \<lparr>v0_ack_watermark = sh_ack_watermark sh, v0_acked_above = set (take MAX_BATCH (sh_acked_above sh)),
     v0_in_flight = bof_list (map (\<lambda>(lid, offset, deadline). (lid, \<lparr>lease_offset = offset, deadline_ms = deadline\<rparr>)) (take MAX_BATCH (sh_leases sh))),
     v0_leased_offsets = bof_list (take MAX_BATCH (sh_leased_offsets sh)), v0_poll_count = sh_poll_count sh\<rparr>"

definition shape_topic :: "SnapshotShape \<Rightarrow> TopicStateV0" where
  "shape_topic sh = \<lparr>v0_next_offset = sh_next_offset sh,
     v0_messages = bof_list (map (\<lambda>offset. (offset, shape_message offset)) (take MAX_BATCH (sh_message_offsets sh))),
     v0_dedup = bempty, v0_dedup_order = [], v0_groups = bof_list [(group_name 0, shape_group sh)], v0_rate_milli_per_sec = 0, v0_burst = 0,
     v0_retain_max_messages = sh_retain_max_messages sh, v0_retain_max_age_ms = sh_retain_max_age_ms sh\<rparr>"

definition shape_queue :: "SnapshotShape \<Rightarrow> QueueV0" where
  "shape_queue sh = \<lparr>v0_topics = bof_list [(topic_name 0, shape_topic sh)], v0_next_lease_id = sh_next_lease_id sh\<rparr>"

definition shape_data :: "'m \<Rightarrow> SnapshotShape \<Rightarrow> 'm StateMachineDataV0" where
  "shape_data m sh = \<lparr>last_applied_v0 = None, last_membership_v0 = \<lparr>membership_log_id = None, membership = m\<rparr>, sm_queue_v0 = shape_queue sh\<rparr>"

definition shape_encode :: "'m sm_codecs \<Rightarrow> 'm \<Rightarrow> SnapshotShape \<Rightarrow> string + bytes" where
  "shape_encode C m sh = encode (data_v0_codec C) (shape_data m sh)"

section \<open>\<^verbatim>\<open>snapshot_install\<close>\<close>

definition sm_debug_check_invariants :: "('s, 'm) StateMachineStore \<Rightarrow> unit rust_result" where
  "sm_debug_check_invariants sm = validate (sm_queue (sm_data sm))"

fun invariants_loop :: "Driver \<Rightarrow> ('s, 'm) StateMachineStore \<Rightarrow> Op list \<Rightarrow> bool" where
  "invariants_loop d sm [] = True"
| "invariants_loop d sm (op # ops) = (case driver_request d op of
     (d, None) \<Rightarrow> invariants_loop d sm ops
   | (d, Some req) \<Rightarrow> (case debug_apply req sm of
       (sm, resp) \<Rightarrow> sm_debug_check_invariants sm = Inr () \<and> invariants_loop (observe d resp) sm ops))"

definition driven_ok :: "('s, 'm) StateMachineStore \<Rightarrow> Op list \<Rightarrow> bool" where
  "driven_ok sm ops \<longleftrightarrow> sm_debug_check_invariants sm = Inr () \<and> invariants_loop driver_new sm (take 64 ops)"

definition meta_default :: "'m \<Rightarrow> 'm SnapshotMeta" where
  "meta_default m = \<lparr>snap_last_log_id = None, snap_last_membership = \<lparr>membership_log_id = None, membership = m\<rparr>, snapshot_id = []\<rparr>"

definition install_raw_ok :: "'m sm_codecs \<Rightarrow> 'm \<Rightarrow> bytes \<Rightarrow> Op list \<Rightarrow> bool" where
  "install_raw_ok C m raw ops = (case state_machine_new mem_storage C m mem_default of
     Inl _ \<Rightarrow> False
   | Inr sm \<Rightarrow> (case install_snapshot mem_storage C (meta_default m) raw sm of
       (sm, Inl _) \<Rightarrow> get mem_storage KEY_SNAPSHOT (sm_db sm) = get mem_storage KEY_SNAPSHOT mem_default
     | (sm, Inr _) \<Rightarrow> driven_ok sm ops))"

definition stored_shape_ok :: "'m sm_codecs \<Rightarrow> 'm \<Rightarrow> SnapshotShape \<Rightarrow> Op list \<Rightarrow> bool" where
  "stored_shape_ok C m shape ops = (case shape_encode C m shape of
     Inl _ \<Rightarrow> False
   | Inr b \<Rightarrow> (case fuzz_store_snapshot mem_storage C m None b mem_default of
       (db, Inl _) \<Rightarrow> False
     | (db, Inr _) \<Rightarrow> (case state_machine_new mem_storage C m db of
         Inl _ \<Rightarrow> True
       | Inr sm \<Rightarrow> driven_ok sm ops)))"

definition snapshot_install_target :: "'m sm_codecs \<Rightarrow> 'm \<Rightarrow> bytes \<Rightarrow> SnapshotShape \<Rightarrow> Op list \<Rightarrow> bool" where
  "snapshot_install_target C m raw shape ops \<longleftrightarrow> install_raw_ok C m raw ops \<and> stored_shape_ok C m shape ops"

text \<open>The operations keep the invariants when the installed state has what validation leaves open, and room.\<close>

definition sound_state :: "Queue \<Rightarrow> bool" where
  "sound_state q \<longleftrightarrow> unchecked_ok q \<and> counters_within (counter_limit - 255 * 64) q"

lemma invariants_loop_passes:
  assumes "topics_all topic_wf n (sm_queue (sm_data sm))" and "n + 255 * length ops \<le> counter_limit"
  shows "invariants_loop d sm ops"
  using assms
proof (induction ops arbitrary: n d sm)
  case (Cons op ops)
  obtain d' ro where r: "driver_request d op = (d', ro)" by fastforce
  show ?case
  proof (cases ro)
    case None
    then show ?thesis using Cons.IH [OF Cons.prems(1)] Cons.prems(2) r by simp
  next
    case (Some req)
    obtain sm' resp where a: "debug_apply req sm = (sm', resp)" by fastforce
    then have q': "sm_queue (sm_data sm') = fst (apply_request (sm_queue (sm_data sm)) req)"
      by (auto simp: debug_apply_def split: prod.splits)
    have cost: "request_cost req \<le> 255" by (rule driver_request_cost [OF r [unfolded Some]])
    have "topics_all topic_wf (n + request_cost req) (sm_queue (sm_data sm'))"
      unfolding q' by (rule wf.all_step [OF Cons.prems(1)]) (use cost Cons.prems(2) in simp)
    then have wf': "topics_all topic_wf (n + 255) (sm_queue (sm_data sm'))" by (rule wf.all_mono) (use cost in simp)
    then have "sm_debug_check_invariants sm' = Inr ()"
      unfolding sm_debug_check_invariants_def by (rule wf_valid) (use Cons.prems(2) in simp)
    moreover have "invariants_loop (observe d' resp) sm' ops" by (rule Cons.IH [OF wf']) (use Cons.prems(2) in simp)
    ultimately show ?thesis using r Some a by simp
  qed
qed simp

lemma driven_passes:
  assumes "validate (sm_queue (sm_data sm)) = Inr ()" and "sound_state (sm_queue (sm_data sm))"
  shows "driven_ok sm ops"
proof -
  have "topics_all topic_wf (counter_limit - 255 * 64) (sm_queue (sm_data sm))"
    using assms by (intro validated_wf) (simp_all add: sound_state_def)
  then have "invariants_loop driver_new sm (take 64 ops)" by (rule invariants_loop_passes) (simp add: counter_limit_eq)
  then show ?thesis using assms(1) by (simp add: driven_ok_def sm_debug_check_invariants_def)
qed

lemma not_Inl_unit: "(\<forall>e. x \<noteq> Inl e) \<longleftrightarrow> x = Inr ()"
  by (cases x) auto

lemma decode_state_validated: "decode_state C b = Inr data \<Longrightarrow> validate (sm_queue data) = Inr ()"
  by (auto simp: decode_state_def and_then_Inr Let_def not_Inl_unit split: sum.splits)

text \<open>Every snapshot record can be encoded, and is read back.\<close>

definition records_ok :: "'m sm_codecs \<Rightarrow> bool" where
  "records_ok C \<longleftrightarrow> (\<forall>snap. \<exists>b. encode (stored_codec C) snap = Inr b \<and> decode (stored_codec C) b = Inr snap)"

lemma store_then_open:
  assumes "records_ok C"
  shows "\<exists>db. fuzz_store_snapshot mem_storage C m lid b mem_default = (db, Inr ()) \<and>
    state_machine_new mem_storage C m db = map_ok (\<lambda>data. \<lparr>sm_data = data, snapshot_seq = 0, sm_db = db\<rparr>) (decode_state C b)"
proof -
  let ?snap = "\<lparr>snap_meta = \<lparr>snap_last_log_id = lid, snap_last_membership = \<lparr>membership_log_id = None, membership = m\<rparr>, snapshot_id = ''fuzz''\<rparr>, snap_data = b\<rparr>"
  obtain rb where "encode (stored_codec C) ?snap = Inr rb" "decode (stored_codec C) rb = Inr ?snap"
    using assms unfolding records_ok_def by blast
  then show ?thesis
    by (simp add: fuzz_store_snapshot_def persist_snapshot_def state_machine_new_def stored_snapshot_def enc_def dec_def mem_defs mem_default_def)
qed

lemma snapshot_install_passes:
  assumes "records_ok C" and "shape_encode C m shape = Inr b"
    and "\<forall>bytes \<in> {raw, b}. \<forall>data. decode_state C bytes = Inr data \<longrightarrow> sound_state (sm_queue data)"
  shows "snapshot_install_target C m raw shape ops"
proof -
  have driven: "driven_ok sm ops" if "decode_state C bytes = Inr (sm_data sm)" "bytes \<in> {raw, b}" for bytes and sm :: "(MemStore, 'a) StateMachineStore"
    using that assms(3) decode_state_validated by (intro driven_passes) blast+
  obtain db where db: "fuzz_store_snapshot mem_storage C m None b mem_default = (db, Inr ())"
      "state_machine_new mem_storage C m db = map_ok (\<lambda>data. \<lparr>sm_data = data, snapshot_seq = 0, sm_db = db\<rparr>) (decode_state C b)"
    using store_then_open [OF assms(1)] by metis
  have "stored_shape_ok C m shape ops"
    using driven [of b] by (cases "decode_state C b") (simp_all add: stored_shape_ok_def assms(2) db map_ok_def)
  moreover have "install_raw_ok C m raw ops"
  proof -
    obtain rb where rb: "encode (stored_codec C) \<lparr>snap_meta = meta_default m, snap_data = raw\<rparr> = Inr rb"
      using assms(1) unfolding records_ok_def by blast
    have "state_machine_new mem_storage C m mem_default = Inr \<lparr>sm_data = data_default m, snapshot_seq = 0, sm_db = mem_default\<rparr>"
      by (simp add: state_machine_new_def stored_snapshot_def mem_defs mem_default_def)
    then show ?thesis using driven [of raw] rb
      by (cases "decode_state C raw") (simp_all add: install_raw_ok_def install_snapshot_def persist_snapshot_def enc_def mem_defs)
  qed
  ultimately show ?thesis by (simp add: snapshot_install_target_def)
qed

text \<open>The two states of \<open>validation_not_inductive\<close> are shapes the target can generate.\<close>

definition exhausted_shape :: SnapshotShape where
  "exhausted_shape = \<lparr>sh_next_offset = MAX_COUNTER, sh_message_offsets = [], sh_ack_watermark = 0, sh_acked_above = [], sh_leases = [],
     sh_leased_offsets = [], sh_next_lease_id = 0, sh_retain_max_messages = 0, sh_retain_max_age_ms = 0, sh_poll_count = 0\<rparr>"

definition shared_shape :: SnapshotShape where
  "shared_shape = \<lparr>sh_next_offset = 3, sh_message_offsets = [0, 1, 2], sh_ack_watermark = 0, sh_acked_above = [1], sh_leases = [(0, 0, 100), (1, 1, 100)],
     sh_leased_offsets = [(0, 100), (1, 100)], sh_next_lease_id = 2, sh_retain_max_messages = 0, sh_retain_max_age_ms = 0, sh_poll_count = 1\<rparr>"

lemma first_names: "topic_name 0 = ''t0''" "group_name 0 = ''g0''"
  by (simp_all add: topic_name_def group_name_def TOPIC_ALPHABET_def GROUP_ALPHABET_def decimal.simps char_of_eq_iff)

lemma exhausted_shape_queue: "normalize (queue_from_v0 (shape_queue exhausted_shape)) = exhausted_queue"
  by (simp add: normalize_def queue_from_v0_def topic_from_v0_def group_from_v0_def shape_queue_def shape_topic_def shape_group_def exhausted_shape_def
      exhausted_queue_def first_names queue_default_def topic_default_def group_default_def btree_eval MAX_COUNTER_def)

lemma shared_shape_queue: "normalize (queue_from_v0 (shape_queue shared_shape)) = shared_queue"
  by (simp add: normalize_def queue_from_v0_def topic_from_v0_def group_from_v0_def shape_queue_def shape_topic_def shape_group_def shape_message_def
      shared_shape_def shared_queue_def shared_group_def shared_message_def first_names topic_default_def btree_eval MAX_BATCH_def)

text \<open>On the second of them the target's assertion fails.\<close>

lemma snapshot_install_fails:
  assumes "records_ok C" and "shape_encode C m shared_shape = Inr b" and "decode (data_v0_codec C) b = Inr (shape_data m shared_shape)"
    and "strip_prefix SNAPSHOT_FORMAT b = None"
  shows "\<not> snapshot_install_target C m raw shared_shape [OpAck 0 0 (RefRaw 0)]"
proof -
  obtain db where db: "fuzz_store_snapshot mem_storage C m None b mem_default = (db, Inr ())"
      "state_machine_new mem_storage C m db = map_ok (\<lambda>data. \<lparr>sm_data = data, snapshot_seq = 0, sm_db = db\<rparr>) (decode_state C b)"
    using store_then_open [OF assms(1)] by metis
  have "decode_state C b = Inr \<lparr>last_applied = None, last_membership = \<lparr>membership_log_id = None, membership = m\<rparr>, sm_queue = shared_queue\<rparr>"
    using assms(3,4) by (simp add: decode_state_def dec_def data_from_v0_def shape_data_def shared_shape_queue shared_validates)
  then have sm: "state_machine_new mem_storage C m db = Inr \<lparr>sm_data = \<lparr>last_applied = None, last_membership = \<lparr>membership_log_id = None, membership = m\<rparr>,
      sm_queue = shared_queue\<rparr>, snapshot_seq = 0, sm_db = db\<rparr>"
    by (simp add: db(2))
  have "\<not> driven_ok \<lparr>sm_data = \<lparr>last_applied = None, last_membership = \<lparr>membership_log_id = None, membership = m\<rparr>, sm_queue = shared_queue\<rparr>,
      snapshot_seq = 0, sm_db = db\<rparr> [OpAck 0 0 (RefRaw 0)]"
    using shared_ack_refused by (auto simp: driven_ok_def debug_apply_def sm_debug_check_invariants_def first_names simp del: apply_request.simps split: prod.splits)
  then show ?thesis by (simp add: snapshot_install_target_def stored_shape_ok_def assms(2) db(1) sm)
qed

section \<open>\<^verbatim>\<open>recovery_state\<close>\<close>

record Damage =
  dm_log_indices :: "u8 list"
  dm_snapshot_index :: "u8 option"
  dm_purged_index :: "u8 option"
  dm_committed_index :: "u8 option"
  dm_committed_garbage :: bool

definition fuzz_log_id :: "u64 \<Rightarrow> LogId" where
  "fuzz_log_id index = \<lparr>leader_term = 1, leader_node = 1, log_index = index\<rparr>"

text \<open>The damaged store, or \<open>None\<close> if a step of its preparation fails.\<close>

definition seed_log :: "Damage \<Rightarrow> MemStore \<Rightarrow> MemStore option" where
  "seed_log damage db =
     (let es = map (\<lambda>i. (ucast i, as_bytes ''entry'')) (take 32 (dm_log_indices damage))
      in if es = [] then Some db else case append_log mem_storage es db of (db, Inr _) \<Rightarrow> Some db | _ \<Rightarrow> None)"

definition seed_snapshot :: "'m sm_codecs \<Rightarrow> 'm \<Rightarrow> Damage \<Rightarrow> MemStore \<Rightarrow> MemStore option" where
  "seed_snapshot C m damage db = (case dm_snapshot_index damage of
     None \<Rightarrow> Some db
   | Some i \<Rightarrow> (case fuzz_store_snapshot mem_storage C m (Some (fuzz_log_id (ucast i))) [] db of (db, Inr _) \<Rightarrow> Some db | _ \<Rightarrow> None))"

definition seed_purged :: "LogId codec \<Rightarrow> Damage \<Rightarrow> MemStore \<Rightarrow> MemStore option" where
  "seed_purged L damage db = (case dm_purged_index damage of
     None \<Rightarrow> Some db
   | Some i \<Rightarrow> (case encode L (fuzz_log_id (ucast i)) of
       Inl _ \<Rightarrow> None
     | Inr b \<Rightarrow> (case put mem_storage KEY_PURGED b db of (db, Inr _) \<Rightarrow> Some db | _ \<Rightarrow> None)))"

definition seed_committed :: "LogId option codec \<Rightarrow> Damage \<Rightarrow> MemStore \<Rightarrow> MemStore option" where
  "seed_committed K damage db =
     (if dm_committed_garbage damage
      then (case save_committed_bytes mem_storage (replicate 6 0xFF) db of (db, Inr _) \<Rightarrow> Some db | _ \<Rightarrow> None)
      else case dm_committed_index damage of
             None \<Rightarrow> Some db
           | Some i \<Rightarrow> (case encode K (Some (fuzz_log_id (ucast i))) of
               Inl _ \<Rightarrow> None
             | Inr b \<Rightarrow> (case save_committed_bytes mem_storage b db of (db, Inr _) \<Rightarrow> Some db | _ \<Rightarrow> None)))"

definition damaged_store :: "'m sm_codecs \<Rightarrow> LogId codec \<Rightarrow> LogId option codec \<Rightarrow> 'm \<Rightarrow> Damage \<Rightarrow> MemStore option" where
  "damaged_store C L K m damage = Option.bind (seed_log damage mem_default) (\<lambda>db. Option.bind (seed_snapshot C m damage db) (\<lambda>db.
     Option.bind (seed_purged L damage db) (seed_committed K damage)))"

definition repaired_ok :: "'m sm_codecs \<Rightarrow> LogId option codec \<Rightarrow> MemStore \<Rightarrow> bool" where
  "repaired_ok C K db = (case snapshot_last_index mem_storage C db of
     Inl _ \<Rightarrow> False
   | Inr snap \<Rightarrow>
       (case first_log_index mem_storage db of Inl _ \<Rightarrow> False | Inr None \<Rightarrow> True | Inr (Some first) \<Rightarrow> first \<le> base_next snap) \<and>
       (case last_log_index mem_storage db of Inl _ \<Rightarrow> False | Inr lst \<Rightarrow>
          (case read_committed_bytes mem_storage db of Inl _ \<Rightarrow> False | Inr None \<Rightarrow> True
           | Inr (Some b) \<Rightarrow> (case decode K b of Inl _ \<Rightarrow> False | Inr None \<Rightarrow> True
             | Inr (Some c) \<Rightarrow> (case max_option snap lst of None \<Rightarrow> False | Some reach \<Rightarrow> log_index c \<le> reach)))))"

definition recovery_state_target :: "'m sm_codecs \<Rightarrow> LogId codec \<Rightarrow> LogId option codec \<Rightarrow> (StorageError \<Rightarrow> string) \<Rightarrow> 'm \<Rightarrow> Damage \<Rightarrow> bool" where
  "recovery_state_target C L K show_err m damage = (case damaged_store C L K m damage of
     None \<Rightarrow> False
   | Some db \<Rightarrow> (case recover_consistency mem_storage C K show_err db of
       (db, Inl _) \<Rightarrow> True
     | (db, Inr _) \<Rightarrow> repaired_ok C K db))"

lemma mem_snapshot_same:
  "bget (mem_meta db') KEY_SNAPSHOT = bget (mem_meta db) KEY_SNAPSHOT \<Longrightarrow> snapshot_last_index mem_storage C db' = snapshot_last_index mem_storage C db"
  by (simp add: snapshot_last_index_def stored_snapshot_def mem_defs)

lemma mem_reads:
  "first_log_index mem_storage db = Inr (bfirst_key (fst (mem_view db)))" "last_log_index mem_storage db = Inr (blast_key (fst (mem_view db)))"
  "read_committed_bytes mem_storage db = Inr (bget (snd (mem_view db)) KEY_COMMITTED)" "bget (mem_meta db) k = bget (snd (mem_view db)) k"
  by (simp_all add: mem_defs mem_view_def MEM_KEY_COMMITTED_def KEY_COMMITTED_def)

lemma recovered_ok:
  assumes "recover_consistency mem_storage C K show_err db = (db', Inr ())"
  shows "repaired_ok C K db'"
proof -
  note out = recovery_outcome [OF mem_store.storage_contract_axioms assms]
  obtain i where "snapshot_last_index mem_storage C db = Inr i"
    using assms by (cases "snapshot_last_index mem_storage C db") (auto simp: recover_consistency_def)
  then have i: "snapshot_last_index mem_storage C db' = Inr i"
    using mem_snapshot_same [of db' db C] out by (simp add: mem_reads(4))
  then have iv: "snapshot_index_of C (snd (mem_view db')) = i"
    using storage_contract.snapshot_last_index_view [OF mem_store.storage_contract_axioms i] by simp
  have h: "log_attached i (fst (mem_view db'))" "commit_backed i (fst (mem_view db')) (committed_of K (snd (mem_view db')))"
    using out iv by (simp_all add: healthy_def)
  have "case bget (snd (mem_view db')) KEY_COMMITTED of None \<Rightarrow> True
      | Some b \<Rightarrow> (case decode K b of Inl _ \<Rightarrow> False | Inr None \<Rightarrow> True
        | Inr (Some c) \<Rightarrow> (case max_option i (blast_key (fst (mem_view db'))) of None \<Rightarrow> False | Some reach \<Rightarrow> log_index c \<le> reach))"
  proof (cases "bget (snd (mem_view db')) KEY_COMMITTED")
    case (Some b)
    obtain c where "decode K b = Inr c"
      using recovered_commit_decodes [OF mem_store.storage_contract_axioms assms Some] by blast
    with Some h(2) show ?thesis by (cases c) (simp_all add: commit_backed_def committed_of_def)
  qed simp
  with h(1) show ?thesis by (simp add: repaired_ok_def i mem_reads log_attached_def split: option.splits)
qed

lemma damaged_store_built:
  assumes "records_ok C" and "\<And>x. \<exists>b. encode L x = Inr b" and "\<And>x. \<exists>b. encode K x = Inr b"
  shows "damaged_store C L K m damage \<noteq> None"
proof -
  have "seed_log damage db \<noteq> None" for db by (simp add: seed_log_def Let_def mem_defs)
  moreover have "seed_snapshot C m damage db \<noteq> None" for db
  proof (cases "dm_snapshot_index damage")
    case (Some i)
    obtain b where "encode (stored_codec C) \<lparr>snap_meta = \<lparr>snap_last_log_id = Some (fuzz_log_id (ucast i)),
        snap_last_membership = \<lparr>membership_log_id = None, membership = m\<rparr>, snapshot_id = ''fuzz''\<rparr>, snap_data = []\<rparr> = Inr b"
      using assms(1) unfolding records_ok_def by blast
    with Some show ?thesis by (simp add: seed_snapshot_def fuzz_store_snapshot_def persist_snapshot_def enc_def mem_defs)
  qed (simp add: seed_snapshot_def)
  moreover have "seed_purged L damage db \<noteq> None" for db
  proof (cases "dm_purged_index damage")
    case (Some i)
    obtain b where "encode L (fuzz_log_id (ucast i)) = Inr b" using assms(2) by blast
    with Some show ?thesis by (simp add: seed_purged_def mem_defs)
  qed (simp add: seed_purged_def)
  moreover have "seed_committed K damage db \<noteq> None" for db
  proof (cases "dm_committed_index damage")
    case (Some i)
    obtain b where "encode K (Some (fuzz_log_id (ucast i))) = Inr b" using assms(3) by blast
    with Some show ?thesis by (simp add: seed_committed_def mem_defs)
  qed (simp add: seed_committed_def mem_defs)
  ultimately show ?thesis by (simp add: damaged_store_def bind_eq_None_conv)
qed

lemma recovery_state_passes:
  assumes "records_ok C" and "\<And>x. \<exists>b. encode L x = Inr b" and "\<And>x. \<exists>b. encode K x = Inr b"
  shows "recovery_state_target C L K show_err m damage"
proof -
  obtain db where "damaged_store C L K m damage = Some db" using damaged_store_built [OF assms] by fastforce
  then show ?thesis using recovered_ok [of C K show_err db] by (auto simp: recovery_state_target_def split: prod.splits sum.splits)
qed

section \<open>\<^verbatim>\<open>log_entry_decode\<close>\<close>

fun roundtrip_loop :: "AppRequest codec \<Rightarrow> Driver \<Rightarrow> Op list \<Rightarrow> bool" where
  "roundtrip_loop A d [] = True"
| "roundtrip_loop A d (op # ops) = (case driver_request d op of
     (d, None) \<Rightarrow> roundtrip_loop A d ops
   | (d, Some req) \<Rightarrow> (case encode A req of Inl _ \<Rightarrow> False | Inr b \<Rightarrow> decode A b = Inr req) \<and> roundtrip_loop A d ops)"

definition log_entry_decode_target :: "AppRequest codec \<Rightarrow> Op list \<Rightarrow> bool" where
  "log_entry_decode_target A ops = roundtrip_loop A driver_new (take 32 ops)"

lemma log_entry_decode_passes:
  assumes "\<And>req. \<exists>b. encode A req = Inr b \<and> decode A b = Inr req"
  shows "log_entry_decode_target A ops"
proof -
  have "(case encode A req of Inl _ \<Rightarrow> False | Inr b \<Rightarrow> decode A b = Inr req)" for req using assms [of req] by auto
  then have "roundtrip_loop A d os" for d os by (induction os arbitrary: d) (auto split: prod.splits option.splits)
  then show ?thesis by (simp add: log_entry_decode_target_def)
qed

section \<open>\<^verbatim>\<open>store_model\<close>\<close>

datatype Step = StAppend "u8 list" | StTruncate u8 | StPurge u8 | StRead u8 u8 | StState | StFlush

definition fuzz_entry :: "u64 \<Rightarrow> 'm Entry" where
  "fuzz_entry index = \<lparr>entry_log_id = fuzz_log_id index, payload = Blank\<rparr>"

text \<open>The store under test, the plain map it is compared with, and the highest purged entry.\<close>

type_synonym 's drive_state = "'s LogStore \<times> (u64, LogId) btree \<times> LogId option"

fun drive_step :: "'s Storage \<Rightarrow> LogId codec \<Rightarrow> 'm Entry codec \<Rightarrow> Step \<Rightarrow> 's drive_state \<Rightarrow> 's drive_state option" where
  "drive_step S L E (StAppend indices) (log, model, purged) =
     (let es = map (\<lambda>i. fuzz_entry (ucast i)) (take 16 indices)
      in case fuzz_append E es log of
           (log, Inl _) \<Rightarrow> None
         | (log, Inr _) \<Rightarrow> Some (log, foldl (\<lambda>model e. binsert (log_index (entry_log_id e)) (entry_log_id e) model) model es, purged))"
| "drive_step S L E (StTruncate i) (log, model, purged) = (case Log_Store.truncate S 0 (fuzz_log_id (ucast i)) log of
     (log, Inl _) \<Rightarrow> None
   | (log, Inr _) \<Rightarrow> Some (log, bretain (\<lambda>k _. k < ucast i) model, purged))"
| "drive_step S L E (StPurge i) (log, model, purged) = (case purge S L 0 (fuzz_log_id (ucast i)) log of
     (log, Inl _) \<Rightarrow> None
   | (log, Inr _) \<Rightarrow> Some (log, bretain (\<lambda>k _. k > ucast i) model,
       if (case purged of Some p \<Rightarrow> log_index p < ucast i | None \<Rightarrow> True) then Some (fuzz_log_id (ucast i)) else purged))"
| "drive_step S L E (StRead lo hi) (log, model, purged) =
     (if hi \<le> lo then Some (log, model, purged)
      else case try_get_log_entries S E (Included (ucast lo)) (Excluded (ucast hi)) log of
             Some (Inr got) \<Rightarrow> if map (log_index \<circ> entry_log_id) got = map fst (brange (ucast lo) (ucast hi) model)
                                 then Some (log, model, purged) else None
           | _ \<Rightarrow> None)"
| "drive_step S L E StState (log, model, purged) = (case get_log_state S L E log of
     Inl _ \<Rightarrow> None
   | Inr state \<Rightarrow>
       if last_purged_log_id state = purged \<and>
          last_log_id state = (case blast_key model of Some k \<Rightarrow> bget model k | None \<Rightarrow> purged)
       then Some (log, model, purged) else None)"
| "drive_step S L E StFlush (log, model, purged) =
     (let log = barrier S 0 log in if fuzz_pending_indices log = [] then Some (log, model, purged) else None)"

text \<open>What the flusher thread does before each step is the argument \<open>rounds\<close>.\<close>

fun background :: "'s Storage \<Rightarrow> nat \<Rightarrow> 's LogStore \<Rightarrow> 's LogStore" where
  "background S 0 log = log"
| "background S (Suc n) log = (if jobs log = [] then log else background S n (flush_round S log))"

lemma background_idle: "jobs log = [] \<Longrightarrow> background S n log = log"
  by (cases n) simp_all

fun drive :: "'s Storage \<Rightarrow> LogId codec \<Rightarrow> 'm Entry codec \<Rightarrow> (nat \<times> Step) list \<Rightarrow> 's drive_state \<Rightarrow> bool" where
  "drive S L E [] state = True"
| "drive S L E ((rounds, step) # steps) (log, rest) = (case drive_step S L E step (background S rounds log, rest) of
     None \<Rightarrow> False
   | Some state \<Rightarrow> drive S L E steps state)"

definition store_model_target :: "'s Storage \<Rightarrow> LogId codec \<Rightarrow> 'm Entry codec \<Rightarrow> (nat \<times> Step) list \<Rightarrow> 's \<Rightarrow> bool" where
  "store_model_target S L E steps db = drive S L E (take 48 steps) (log_store_new db, bempty, None)"

text \<open>An entry appended below the purge pointer and flushed survives a purge up to a lower index, which the plain
  map removes: \<^verbatim>\<open>mark_purged\<close> returns before it deletes anything. The target's assertion on reads fails there.\<close>

lemma store_model_fails:
  assumes "encode L (fuzz_log_id 10) = Inr lb" and "decode L lb = Inr (fuzz_log_id 10)"
    and "encode E (fuzz_entry 3) = Inr eb" and "decode E eb = Inr (fuzz_entry 3)" and "length eb < FLUSH_MAX_BYTES"
  shows "\<not> store_model_target mem_storage L E [(0, StPurge 10), (0, StAppend [3]), (rounds, StPurge 5), (0, StRead 0 20)] mem_default"
proof -
  define log1 where "log1 = (log_store_new (mem_default\<lparr>mem_meta := bliteral [(KEY_PURGED, lb)]\<rparr>))\<lparr>signalled := [0]\<rparr>"
  define log2 where "log2 = log1\<lparr>pending := bliteral [(3, eb)], jobs := [Append [(3, eb)] None]\<rparr>"
  define log3 where "log3 = log1\<lparr>ls_db := \<lparr>mem_log = bliteral [(3, eb)], mem_meta = bliteral [(KEY_PURGED, lb)]\<rparr>, signalled := [0, 0]\<rparr>"
  have s1: "drive_step mem_storage L E (StPurge 10) (log_store_new mem_default, bempty, None) = Some (log1, bempty, Some (fuzz_log_id 10))"
    using assms(1) by (simp add: log1_def log_eval purge_def mark_purged_def record_purged_def try_write_def sread_def swrite_def dec_def btree_eval fuzz_log_id_def KEY_PURGED_def)
  have s2: "drive_step mem_storage L E (StAppend [3]) (log1, bempty, Some (fuzz_log_id 10)) = Some (log2, bliteral [(3, fuzz_log_id 3)], Some (fuzz_log_id 10))"
    using assms(3) by (simp add: log2_def log1_def fuzz_append_def fuzz_entry_def log_eval purge_def mark_purged_def record_purged_def try_write_def sread_def swrite_def dec_def btree_eval fuzz_log_id_def)
  have s3: "drive_step mem_storage L E (StPurge 5) (background mem_storage rounds log2, bliteral [(3, fuzz_log_id 3)], Some (fuzz_log_id 10)) = Some (log3, bempty, Some (fuzz_log_id 10))"
  proof -
    have "background mem_storage rounds log2 \<in> {log2, log1\<lparr>ls_db := \<lparr>mem_log = bliteral [(3, eb)], mem_meta = bliteral [(KEY_PURGED, lb)]\<rparr>\<rparr>}"
      using assms(5) by (cases rounds) (simp_all add: background_idle log2_def log1_def log_eval purge_def mark_purged_def record_purged_def try_write_def sread_def swrite_def dec_def btree_eval fuzz_log_id_def)
    moreover have "drive_step mem_storage L E (StPurge 5) (log2, bliteral [(3, fuzz_log_id 3)], Some (fuzz_log_id 10)) = Some (log3, bempty, Some (fuzz_log_id 10))"
      using assms(2,5) by (simp add: log3_def log2_def log1_def KEY_PURGED_def log_eval purge_def mark_purged_def record_purged_def try_write_def sread_def swrite_def dec_def btree_eval fuzz_log_id_def)
    moreover have "drive_step mem_storage L E (StPurge 5) (log1\<lparr>ls_db := \<lparr>mem_log = bliteral [(3, eb)], mem_meta = bliteral [(KEY_PURGED, lb)]\<rparr>\<rparr>,
        bliteral [(3, fuzz_log_id 3)], Some (fuzz_log_id 10)) = Some (log3, bempty, Some (fuzz_log_id 10))"
      using assms(2,5) by (simp add: log3_def log1_def KEY_PURGED_def log_eval purge_def mark_purged_def record_purged_def try_write_def sread_def swrite_def dec_def btree_eval fuzz_log_id_def)
    ultimately show ?thesis by (elim insertE emptyE) (simp_all only:)
  qed
  have s4: "drive_step mem_storage L E (StRead 0 20) (log3, bempty, Some (fuzz_log_id 10)) = None"
    using assms(4) by (simp add: log3_def log1_def try_get_log_entries_def read_entries_def merged_range_def fuzz_entry_def log_eval purge_def mark_purged_def record_purged_def try_write_def sread_def swrite_def dec_def btree_eval fuzz_log_id_def)
  show ?thesis by (simp add: store_model_target_def s1 s2 s3 s4 del: drive_step.simps)
qed

end
