(* ===== verification/Spec2Isabelle.thy ===== *)
theory Spec2Isabelle
  imports Queue_Drain Queue_Tests Startup Fuzz_Targets Fuzz_Stores
begin

text \<open>
  Verification development of hermesmq, a replicated message queue written in Rust. A node keeps a
  queue state machine that every replica applies the same log of requests to; openraft replicates
  the log, a redb database stores it, clients talk to the node over length-prefixed protobuf frames,
  nodes talk to each other over length-prefixed postcard frames, and an HTTP port reports health.

  \<^bold>\<open>The queue\<close> (\<^verbatim>\<open>crates/hermesmq-core/src/queue.rs\<close>, \<^verbatim>\<open>types.rs\<close>, \<^verbatim>\<open>raft.rs\<close>).
  \<^item> \<open>Prelude\<close>, \<open>BTree_Map\<close>: machine integers with saturating arithmetic, \<^verbatim>\<open>Result\<close>, and ordered maps
    with the operations of \<^verbatim>\<open>BTreeMap\<close> the source uses.
  \<^item> \<open>Wire_Types\<close>: identifiers, messages, \<^verbatim>\<open>AppRequest\<close> and \<^verbatim>\<open>AppResponse\<close>.
  \<^item> \<open>Group_State\<close>: the methods of \<^verbatim>\<open>GroupState\<close> and the invariant of a consumer group.
  \<^item> \<open>Selection\<close>: the bounded single pass with which \<^verbatim>\<open>poll\<close> chooses messages, against the sort it replaced.
  \<^item> \<open>Topic_State\<close>, \<open>Topic_Invariants\<close>, \<open>Topic_Poll\<close>: produce, retention, reclamation, idle groups, poll, ack,
    nack and commit on one topic; the topic invariant; what a poll selects and leases.
  \<^item> \<open>Queue_State\<close>, \<open>Queue_Validate\<close>: \<^verbatim>\<open>Queue::apply\<close> (\<open>apply_request\<close>) with every branch, the queries,
    \<^verbatim>\<open>normalize\<close>, \<^verbatim>\<open>validate\<close> and the older snapshot format.
  \<^item> \<open>Queue_Contract\<close>: the locale \<open>topic_contract\<close>, which lifts an invariant that each topic operation keeps to all
    requests and runs; \<open>Queue_Invariants\<close> and \<open>Queue_Retained\<close> interpret it for well-formedness, caps,
    gaplessness and retention of unacknowledged messages.
  \<^item> \<open>Queue_Delivery\<close>: the locales \<open>topic_relation\<close> and \<open>group_tracking\<close> for facts about two moments of a run.
  \<^item> \<open>Queue_Batches\<close>, \<open>Queue_Limits\<close>, \<open>Queue_Guarantees\<close>, \<open>Queue_Dedup\<close>: batches equal single requests, limits
    are respected, leases are exclusive, acknowledged messages stay so, offsets are not reused, and
    producing is idempotent.
  \<^item> \<open>Queue_Drain\<close>: the consumer loop of the test \<^verbatim>\<open>dedup_then_drain_is_exactly_once\<close>; it ends and delivers each
    message exactly once, from every reachable state, and the whole test passes on every input.
  \<^item> \<open>Queue_Tests\<close>: the unit tests of the queue as scripts over the model, each evaluated.
  \<^item> \<open>Queue_Installed\<close>: runs that start from an installed snapshot instead of the empty queue: which states
    that \<^verbatim>\<open>validate\<close> accepts stay acceptable, and two that do not.

  \<^bold>\<open>Storage and replication\<close> (\<^verbatim>\<open>storage.rs\<close>, \<^verbatim>\<open>engine/\<close>, \<^verbatim>\<open>fuzz/src/lib.rs\<close>).
  \<^item> \<open>Storage_Model\<close>: the trait \<^verbatim>\<open>Storage\<close> as the locale \<open>storage_contract\<close>, with the in-memory store of the fuzz
    crate and the redb store as its implementations; redb itself is a parameter with its documented
    transaction behaviour as the hypothesis \<open>redb_spec\<close>.
  \<^item> \<open>Engine_Types\<close>, \<open>Log_Store\<close>, \<open>Log_Refinement\<close>, \<open>Log_Guarantees\<close>: \<^verbatim>\<open>LogStore\<close> with its flusher thread as a step
    relation; what a reader sees is a plain ordered log, completed appends are durable, barriers
    return; and a read that straddles a flush can miss an entry.
  \<^item> \<open>State_Machine\<close>, \<open>Recovery\<close>: applying entries, building and installing snapshots, and the repair at start-up.

  \<^bold>\<open>The ports\<close> (\<^verbatim>\<open>frame.rs\<close>, \<^verbatim>\<open>client.rs\<close>, \<^verbatim>\<open>engine/network.rs\<close>, \<^verbatim>\<open>http.rs\<close>, \<^verbatim>\<open>lib.rs\<close>, \<^verbatim>\<open>hermesmq.proto\<close>).
  \<^item> \<open>Framing\<close>, \<open>Secrets\<close>: frames over a byte stream and the comparison of tokens.
  \<^item> \<open>Rate_Limiter\<close>, \<open>Sub_Tracking\<close>: the token buckets and the bookkeeping of a push subscription.
  \<^item> \<open>Client_Protocol\<close>, \<open>Client_Handlers\<close>: the protocol messages, admission checks, the produce and ack batchers,
    the long poll and the dispatcher. \<open>Client_Guarantees\<close>: admission agrees with the state machine,
    batches are answered completely, polls return and keep the rate.
  \<^item> \<open>Client_Sessions\<close>: the connection loop of \<^verbatim>\<open>handle_client\<close> and the push session of \<^verbatim>\<open>handle_subscribe\<close>, a step
    relation of its reader, its session task and the rest of the node. \<open>Session_Guarantees\<close>: the
    authentication gate and that no lease is leaked.
  \<^item> \<open>Peer_Network\<close>: both ends of a peer connection. \<open>Http\<close>: the HTTP port.
  \<^item> \<open>Accept_Loops\<close>: \<^verbatim>\<open>serve_peer_authenticated\<close>, \<^verbatim>\<open>serve_clients_authenticated\<close> and \<^verbatim>\<open>serve_http\<close>, each run on a list of
    events: a connection arrives, accepting fails, or the task of an open connection makes a turn. The
    locale \<open>connection_port\<close> states what the three share and bounds the open connections; with the gate of
    each connection it shows that no interleaving lets a connection use another's authentication.

  \<^bold>\<open>The node\<close> (\<^verbatim>\<open>engine/mod.rs\<close>, \<^verbatim>\<open>crates/hermesmqd/src/main.rs\<close>).
  \<^item> \<open>Startup\<close>: \<^verbatim>\<open>build_raft\<close> and its variants, the cluster helpers, and \<^verbatim>\<open>main\<close> from the command line to the three
    server tasks, over parameters for openraft and the operating system. \<open>started_node\<close> puts together the
    redb store, the repair, the state machine, and the two guarded ports.

  \<^bold>\<open>Fuzzing\<close> (\<^verbatim>\<open>fuzz/\<close>).
  \<^item> \<open>Fuzz_Driver\<close>, \<open>Fuzz_Targets\<close>: the driver of the fuzz crate and eight of its targets, whose assertions hold on
    every input.
  \<^item> \<open>Fuzz_Stores\<close>: the targets that build a store. \<^verbatim>\<open>recovery_state\<close> and \<^verbatim>\<open>log_entry_decode\<close> hold on every input.
    \<^verbatim>\<open>snapshot_install\<close> holds when the states it installs have what \<^verbatim>\<open>validate\<close> leaves open, and fails on two
    inputs that do not. \<^verbatim>\<open>store_model\<close> fails on an input that purges below an earlier purge.

  \<^bold>\<open>How the parts fit.\<close> A client frame is decoded and dispatched by \<open>handle_request\<close>; writes go through
  \<open>client_write\<close> of the record \<open>raft_node\<close>, a parameter for openraft whose hypothesis \<open>raft_spec\<close> says that a
  write that is answered was applied with \<open>apply_request\<close> after whatever other requests were committed
  before it; nothing is assumed of a write that fails. The log entries openraft hands over are stored by \<open>append\<close>
  and applied by the state machine, whose snapshots carry the queue.

  \<^bold>\<open>Conventions.\<close> A \<^verbatim>\<open>u64\<close> is a 64-bit word and arithmetic saturates or wraps where the source's does; a
  \<^verbatim>\<open>Result\<close> is a sum with the error on the left; a function on \<^verbatim>\<open>&mut\<close> state returns the new state; clocks,
  deadlines that expire, the outcome of writes to a socket and the actions of other tasks are
  arguments. A \<^verbatim>\<open>HashMap\<close> is an ordered map where its order does not show.

  \<^bold>\<open>Bounds.\<close> Offsets and lease ids are counters that saturate at the top of their range. Statements about runs
  from the empty queue assume that the run costs at most \<open>counter_limit\<close> = 2^62, where a request costs
  one per message or lease it may create: no node reaches that, and below it no counter saturates.
  \<open>poll_loop\<close> takes the list of its rounds and gives \<open>None\<close> if the list ends first; \<open>poll_returns\<close> shows
  that a list containing a round past the deadline is long enough. \<open>consume\<close> takes the list of the clocks
  of its polls in the same way, and \<open>consumed_exactly_once\<close> shows that one clock per batch of messages
  left, and one more, are enough. The accept loops never end in the source; the model runs them on a
  finite list of events, and the statements hold for every list. The loops over frames and bodies
  end because every turn consumes bytes; no definition uses fuel.

  \<^bold>\<open>Not modelled.\<close> openraft, redb, postcard, prost, tokio and clap, which the source calls and which are
  parameters. The rounding of \<^verbatim>\<open>f64\<close>: rates and tokens are reals. Socket options, keep-alive probes and
  logging, which change nothing the program reads or writes. The build script, the re-exporting
  client crate, and the example that attacks a running server over sockets. The three fuzz targets
  that only hand bytes to a decoder. Nine unit tests of the queue with states too large to evaluate, and
  the unit tests of the other files, which run the modelled functions on fixed inputs.
\<close>

end
